(* ===== verification/Prelude.thy ===== *)
theory Prelude
  imports Main "HOL-Library.Word" "HOL-Library.List_Lexorder" "HOL-Library.Char_ord"
    "HOL-Library.Sublist"
begin

text \<open>
  Shared vocabulary of the development: machine integers, bytes and strings as the Rust
  sources use them, the pieces of the Rust standard library the components rely on
  (saturating arithmetic, three-way comparison, binary search over a slice),
  and the generic list lemmas of the component proofs.
\<close>

named_theorems wf_intros \<open>preservation of a component's well-formedness invariant\<close>
named_theorems lookup_simps \<open>what a lookup returns after an update\<close>

unbundle bit_operations_syntax


text \<open>Operating-system errors are opaque codes.\<close>

type_synonym io_error = nat


section \<open>Machine integers\<close>

text \<open>
  An unsigned counter that the code only adds, subtracts and compares is a natural number
  whose width is written out: \<^verbatim>\<open>u64::saturating_add\<close> stops at \<open>u64_max\<close> and
  \<^verbatim>\<open>saturating_sub\<close> stops at zero, which is natural-number subtraction.
\<close>

definition u64_max :: nat where
  "u64_max = 2 ^ 64 - 1"

definition saturating_add :: "nat \<Rightarrow> nat \<Rightarrow> nat" where
  "saturating_add a b = min (a + b) u64_max"

definition saturating_sub :: "nat \<Rightarrow> nat \<Rightarrow> nat" where
  "saturating_sub a b = a - b"

definition checked_sub :: "nat \<Rightarrow> nat \<Rightarrow> nat option" where
  "checked_sub a b = (if b \<le> a then Some (a - b) else None)"

definition checked_add :: "nat \<Rightarrow> nat \<Rightarrow> nat option" where
  "checked_add a b = (if a + b \<le> u64_max then Some (a + b) else None)"

lemma saturating_add_bound [simp]: "saturating_add a b \<le> u64_max"
  by (simp add: saturating_add_def)

lemma saturating_add_exact: "a + b \<le> u64_max \<Longrightarrow> saturating_add a b = a + b"
  by (simp add: saturating_add_def)

lemma saturating_add_0 [simp]: "a \<le> u64_max \<Longrightarrow> saturating_add a 0 = a"
  by (simp add: saturating_add_def)

lemma saturating_sub_le [simp]: "saturating_sub a b \<le> a"
  by (simp add: saturating_sub_def)

lemma checked_sub_Some: "checked_sub a b = Some c \<longleftrightarrow> b \<le> a \<and> c = a - b"
  by (auto simp: checked_sub_def)

lemma checked_add_Some: "checked_add a b = Some c \<longleftrightarrow> a + b \<le> u64_max \<and> c = a + b"
  by (auto simp: checked_add_def)

text \<open>
  Release builds wrap: \<^verbatim>\<open>+\<close> and \<^verbatim>\<open>fetch_add\<close> on \<^verbatim>\<open>u64\<close> are addition modulo \<open>2 ^ 64\<close>, and
  the \<^verbatim>\<open>as\<close> casts between \<^verbatim>\<open>u64\<close> and \<^verbatim>\<open>i64\<close> reinterpret the 64 bits.
\<close>

definition wrapping_add :: "nat \<Rightarrow> nat \<Rightarrow> nat" where
  "wrapping_add a b = (a + b) mod 2 ^ 64"

definition wrap_i64 :: "int \<Rightarrow> int" where
  "wrap_i64 x = (x + 2 ^ 63) mod 2 ^ 64 - 2 ^ 63"

definition as_i64 :: "nat \<Rightarrow> int" where
  "as_i64 n = wrap_i64 (int n)"

definition as_u64 :: "int \<Rightarrow> nat" where
  "as_u64 x = nat (x mod 2 ^ 64)"

definition is_i64 :: "int \<Rightarrow> bool" where
  "is_i64 x \<longleftrightarrow> - (2 ^ 63) \<le> x \<and> x < 2 ^ 63"

lemma wrapping_add_exact: "a + b \<le> u64_max \<Longrightarrow> wrapping_add a b = a + b"
  by (simp add: wrapping_add_def u64_max_def)

lemma wrapping_add_bound [simp]: "wrapping_add a b \<le> u64_max"
  by (simp add: wrapping_add_def u64_max_def mod_less_divisor [THEN less_imp_le] less_Suc_eq_le [symmetric])

definition wrapping_sub :: "nat \<Rightarrow> nat \<Rightarrow> nat" where
  "wrapping_sub a b = (a + 2 ^ 64 - b) mod 2 ^ 64"

lemma wrapping_sub_exact:
  assumes "b \<le> a" and "a \<le> u64_max"
  shows "wrapping_sub a b = a - b"
proof -
  have "a + 2 ^ 64 - b = (a - b) + 2 ^ 64" using assms(1) by simp
  moreover have "a - b < 2 ^ 64" using assms(2) by (simp add: u64_max_def)
  ultimately show ?thesis by (simp only: wrapping_sub_def mod_add_self2 mod_less)
qed

lemma wrap_i64_exact: "is_i64 x \<Longrightarrow> wrap_i64 x = x"
  by (simp add: wrap_i64_def is_i64_def)

lemma as_i64_exact: "n < 2 ^ 63 \<Longrightarrow> as_i64 n = int n"
  by (simp add: as_i64_def wrap_i64_def)

lemma as_u64_exact: "0 \<le> x \<Longrightarrow> x < 2 ^ 64 \<Longrightarrow> as_u64 x = nat x"
  by (simp add: as_u64_def)

lemma as_u64_as_i64: "n \<le> u64_max \<Longrightarrow> as_u64 (as_i64 n) = n"
proof -
  assume n: "n \<le> u64_max"
  have "as_i64 n mod 2 ^ 64 = ((int n + 2 ^ 63) mod 2 ^ 64 - 2 ^ 63) mod 2 ^ 64"
    by (simp add: as_i64_def wrap_i64_def)
  also have "\<dots> = int n mod 2 ^ 64"
    by (subst mod_diff_left_eq) simp
  finally show ?thesis using n by (simp add: as_u64_def u64_max_def)
qed


section \<open>Three-way comparison and binary search\<close>

datatype ordering = Less | Equal | Greater

definition cmp :: "'a::linorder \<Rightarrow> 'a \<Rightarrow> ordering" where
  "cmp a b = (if a < b then Less else if a = b then Equal else Greater)"

lemma cmp_simps [simp]:
  "cmp a b = Less \<longleftrightarrow> a < b"
  "cmp a b = Equal \<longleftrightarrow> a = b"
  "cmp a b = Greater \<longleftrightarrow> b < a"
  by (auto simp: cmp_def)

text \<open>
  \<^verbatim>\<open>slice::binary_search_by\<close> of the Rust standard library: the interval of length
  \<open>sz\<close> that starts at \<open>base\<close> is halved until one candidate is left. \<open>Inr i\<close> is
  \<^verbatim>\<open>Ok(i)\<close> (a match), \<open>Inl i\<close> is \<^verbatim>\<open>Err(i)\<close> (the insertion point).
\<close>

function bsearch_loop :: "('a \<Rightarrow> ordering) \<Rightarrow> 'a list \<Rightarrow> nat \<Rightarrow> nat \<Rightarrow> nat" where
  "bsearch_loop f xs sz base =
     (if 1 < sz then
        (let half = sz div 2; mid = base + half
         in bsearch_loop f xs (sz - half) (if f (xs ! mid) = Greater then base else mid))
      else base)"
  by pat_completeness auto
termination
  by (relation "measure (\<lambda>(f, xs, sz, base). sz)") auto

declare bsearch_loop.simps [simp del]

definition binary_search_by :: "('a \<Rightarrow> ordering) \<Rightarrow> 'a list \<Rightarrow> nat + nat" where
  "binary_search_by f xs =
     (if xs = [] then Inl 0
      else let base = bsearch_loop f xs (length xs) 0
           in case f (xs ! base) of
                Equal \<Rightarrow> Inr base
              | Less \<Rightarrow> Inl (base + 1)
              | Greater \<Rightarrow> Inl base)"

text \<open>
  The comparison partitions the slice when its results go from \<open>Less\<close> over \<open>Equal\<close> to
  \<open>Greater\<close>; that is what the documentation of \<^verbatim>\<open>binary_search_by\<close> asks for.
\<close>

definition partitioned :: "('a \<Rightarrow> ordering) \<Rightarrow> 'a list \<Rightarrow> bool" where
  "partitioned f xs \<longleftrightarrow>
     (\<forall>i j. i < j \<longrightarrow> j < length xs \<longrightarrow>
        (f (xs ! j) = Less \<longrightarrow> f (xs ! i) = Less) \<and>
        (f (xs ! i) = Greater \<longrightarrow> f (xs ! j) = Greater))"

lemma partitioned_Less:
  "partitioned f xs \<Longrightarrow> f (xs ! j) = Less \<Longrightarrow> i \<le> j \<Longrightarrow> j < length xs \<Longrightarrow> f (xs ! i) = Less"
  unfolding partitioned_def by (metis le_neq_implies_less)

lemma partitioned_Greater:
  "partitioned f xs \<Longrightarrow> f (xs ! i) = Greater \<Longrightarrow> i \<le> j \<Longrightarrow> j < length xs \<Longrightarrow> f (xs ! j) = Greater"
  unfolding partitioned_def by (metis le_neq_implies_less)

lemma bsearch_loop_spec:
  assumes "partitioned f xs" and "0 < sz" and "base + sz \<le> length xs"
    and "\<forall>j < base. f (xs ! j) \<noteq> Greater"
    and "base = 0 \<or> f (xs ! base) \<noteq> Greater"
    and "\<forall>j. base + sz \<le> j \<longrightarrow> j < length xs \<longrightarrow> f (xs ! j) = Greater"
  shows "let b = bsearch_loop f xs sz base in
     b < length xs \<and> (\<forall>j < b. f (xs ! j) \<noteq> Greater) \<and>
     (b = 0 \<or> f (xs ! b) \<noteq> Greater) \<and>
     (\<forall>j. b < j \<longrightarrow> j < length xs \<longrightarrow> f (xs ! j) = Greater)"
  using assms
proof (induction f xs sz base rule: bsearch_loop.induct)
  case (1 f xs sz base)
  show ?case
  proof (cases "1 < sz")
    case False
    with "1.prems" show ?thesis
      by (auto simp: bsearch_loop.simps [of f xs sz base] Let_def)
  next
    case True
    define half where "half = sz div 2"
    define mid where "mid = base + half"
    define base' where "base' = (if f (xs ! mid) = Greater then base else mid)"
    have half: "0 < half" "half < sz" using True by (auto simp: half_def)
    have mid: "mid < length xs" using "1.prems"(3) half by (simp add: mid_def)
    have up: "f (xs ! j) = Greater" if "f (xs ! mid) = Greater" "mid \<le> j" "j < length xs" for j
      using partitioned_Greater "1.prems"(1) that by blast
    have down: "f (xs ! j) \<noteq> Greater" if "f (xs ! mid) \<noteq> Greater" "j \<le> mid" for j
      using partitioned_Greater "1.prems"(1) that mid by blast
    have eq: "bsearch_loop f xs sz base = bsearch_loop f xs (sz - half) base'"
      using True by (simp add: bsearch_loop.simps [of f xs sz base] Let_def
          half_def mid_def base'_def)
    have "let b = bsearch_loop f xs (sz - half) base' in
       b < length xs \<and> (\<forall>j < b. f (xs ! j) \<noteq> Greater) \<and>
       (b = 0 \<or> f (xs ! b) \<noteq> Greater) \<and>
       (\<forall>j. b < j \<longrightarrow> j < length xs \<longrightarrow> f (xs ! j) = Greater)"
      unfolding base'_def mid_def half_def
    proof (rule "1.IH" [OF True refl refl])
      show "partitioned f xs" by (rule "1.prems"(1))
      show "0 < sz - sz div 2" using half by (simp add: half_def)
      show "(if f (xs ! (base + sz div 2)) = Greater then base else base + sz div 2)
          + (sz - sz div 2) \<le> length xs"
        using "1.prems"(3) by auto
      show "\<forall>j < (if f (xs ! (base + sz div 2)) = Greater then base else base + sz div 2).
          f (xs ! j) \<noteq> Greater"
        using "1.prems"(4) down by (auto simp: mid_def half_def)
      show "(if f (xs ! (base + sz div 2)) = Greater then base else base + sz div 2) = 0 \<or>
          f (xs ! (if f (xs ! (base + sz div 2)) = Greater then base else base + sz div 2))
            \<noteq> Greater"
        using "1.prems"(5) by auto
      show "\<forall>j. (if f (xs ! (base + sz div 2)) = Greater then base else base + sz div 2)
          + (sz - sz div 2) \<le> j \<longrightarrow> j < length xs \<longrightarrow> f (xs ! j) = Greater"
      proof (cases "f (xs ! mid) = Greater")
        case True
        then show ?thesis using up half by (auto simp: mid_def half_def)
      next
        case False
        then show ?thesis using "1.prems"(6) by (auto simp: mid_def half_def)
      qed
    qed
    then show ?thesis by (simp add: eq)
  qed
qed

theorem binary_search_by_spec:
  assumes "partitioned f xs"
  shows "case binary_search_by f xs of
      Inr i \<Rightarrow> i < length xs \<and> f (xs ! i) = Equal
    | Inl i \<Rightarrow> i \<le> length xs \<and> (\<forall>j < i. f (xs ! j) = Less) \<and>
        (\<forall>j. i \<le> j \<longrightarrow> j < length xs \<longrightarrow> f (xs ! j) = Greater)"
proof (cases "xs = []")
  case True
  then show ?thesis by (simp add: binary_search_by_def)
next
  case False
  define b where "b = bsearch_loop f xs (length xs) 0"
  have spec: "b < length xs" "\<forall>j < b. f (xs ! j) \<noteq> Greater" "b = 0 \<or> f (xs ! b) \<noteq> Greater"
    "\<forall>j. b < j \<longrightarrow> j < length xs \<longrightarrow> f (xs ! j) = Greater"
    using bsearch_loop_spec [OF assms, of "length xs" 0] False
    by (auto simp: b_def Let_def)
  have low: "f (xs ! j) = Less" if "f (xs ! b) = Less" "j \<le> b" for j
    using partitioned_Less assms spec(1) that by blast
  show ?thesis
  proof (cases "f (xs ! b)")
    case Less
    with False spec low show ?thesis
      by (auto simp: binary_search_by_def b_def [symmetric] less_Suc_eq_le Suc_le_eq)
  next
    case Equal
    with False spec show ?thesis by (simp add: binary_search_by_def b_def [symmetric])
  next
    case Greater
    with spec have "b = 0" by simp
    with Greater False spec show ?thesis
      by (auto simp: binary_search_by_def b_def [symmetric] Suc_le_eq)
         (metis bot_nat_0.not_eq_extremum)
  qed
qed

end
