(* ===== verification/RustPath.thy ===== *)
theory RustPath
  imports Prelude
begin

text \<open>
  The part of \<^verbatim>\<open>std::path\<close> and \<^verbatim>\<open>std::ffi::OsStr\<close> that the daemon uses on Unix: a path
  is a byte string, \<^verbatim>\<open>Path::components\<close> normalises it into a list of components, path
  equality compares components, and \<^verbatim>\<open>OsStr::to_str\<close> succeeds on valid UTF-8 only.
  A \<open>string\<close> of this development is the byte string of the Rust value (a \<open>char\<close> is a byte),
  and its lexicographic order is the byte order of \<^verbatim>\<open>str::cmp\<close>.
\<close>

datatype component = RootDir | CurDir | ParentDir | Normal string

fun as_os_str :: "component \<Rightarrow> string" where
  "as_os_str RootDir = ''/''"
| "as_os_str CurDir = ''.''"
| "as_os_str ParentDir = ''..''"
| "as_os_str (Normal s) = s"

fun split_slash :: "string \<Rightarrow> string list" where
  "split_slash [] = [[]]"
| "split_slash (c # cs) =
     (if c = CHR ''/'' then [] # split_slash cs
      else case split_slash cs of
             [] \<Rightarrow> [[c]]
           | s # ss \<Rightarrow> (c # s) # ss)"

text \<open>Empty segments and \<open>.\<close> disappear; a leading \<open>.\<close> of a relative path is kept.\<close>

fun parse_segments :: "string list \<Rightarrow> component list" where
  "parse_segments [] = []"
| "parse_segments (s # ss) =
     (if s = '''' \<or> s = ''.'' then parse_segments ss
      else (if s = ''..'' then ParentDir else Normal s) # parse_segments ss)"

definition components :: "string \<Rightarrow> component list" where
  "components p =
     (case p of
        c # _ \<Rightarrow> if c = CHR ''/'' then [RootDir]
                else if hd (split_slash p) = ''.'' then [CurDir] else []
      | [] \<Rightarrow> []) @ parse_segments (split_slash p)"

definition path_eq :: "string \<Rightarrow> string \<Rightarrow> bool" where
  "path_eq p q \<longleftrightarrow> components p = components q"

text \<open>UTF-8 well-formedness (RFC 3629), on the byte values.\<close>

definition is_cont :: "nat \<Rightarrow> bool" where
  "is_cont b \<longleftrightarrow> 128 \<le> b \<and> b \<le> 191"

fun valid_utf8 :: "nat list \<Rightarrow> bool" where
  "valid_utf8 [] = True"
| "valid_utf8 (b # bs) =
     (if b < 128 then valid_utf8 bs
      else if 194 \<le> b \<and> b \<le> 223 then
        (case bs of c # r \<Rightarrow> is_cont c \<and> valid_utf8 r | _ \<Rightarrow> False)
      else if 224 \<le> b \<and> b \<le> 239 then
        (case bs of c # d # r \<Rightarrow>
            (if b = 224 then 160 \<le> c \<and> c \<le> 191
             else if b = 237 then 128 \<le> c \<and> c \<le> 159
             else is_cont c) \<and> is_cont d \<and> valid_utf8 r
         | _ \<Rightarrow> False)
      else if 240 \<le> b \<and> b \<le> 244 then
        (case bs of c # d # e # r \<Rightarrow>
            (if b = 240 then 144 \<le> c \<and> c \<le> 191
             else if b = 244 then 128 \<le> c \<and> c \<le> 143
             else is_cont c) \<and> is_cont d \<and> is_cont e \<and> valid_utf8 r
         | _ \<Rightarrow> False)
      else False)"

definition to_str :: "string \<Rightarrow> string option" where
  "to_str s = (if valid_utf8 (map of_char s) then Some s else None)"

definition to_str_or_default :: "string \<Rightarrow> string" where
  "to_str_or_default s = (case to_str s of Some t \<Rightarrow> t | None \<Rightarrow> '''')"

text \<open>
  \<^verbatim>\<open>to_string_lossy\<close> replaces each maximal ill-formed sequence by U+FFFD (bytes EF BF BD):
  the bytes accepted so far form one sequence, the offending byte is read again.
\<close>

definition second_ok :: "nat \<Rightarrow> nat \<Rightarrow> bool" where
  "second_ok b c \<longleftrightarrow>
     (if b = 224 then 160 \<le> c \<and> c \<le> 191
      else if b = 237 then 128 \<le> c \<and> c \<le> 159
      else if b = 240 then 144 \<le> c \<and> c \<le> 191
      else if b = 244 then 128 \<le> c \<and> c \<le> 143
      else is_cont c)"

fun utf8_lossy :: "nat list \<Rightarrow> nat list" where
  "utf8_lossy [] = []"
| "utf8_lossy (b # bs) =
     (if b < 128 then b # utf8_lossy bs
      else if 194 \<le> b \<and> b \<le> 223 then
        (case bs of
           c # r \<Rightarrow> if is_cont c then b # c # utf8_lossy r else [239, 191, 189] @ utf8_lossy bs
         | [] \<Rightarrow> [239, 191, 189])
      else if 224 \<le> b \<and> b \<le> 239 then
        (case bs of
           c # r \<Rightarrow>
             if second_ok b c then
               (case r of
                  d # r' \<Rightarrow> if is_cont d then b # c # d # utf8_lossy r' else [239, 191, 189] @ utf8_lossy r
                | [] \<Rightarrow> [239, 191, 189])
             else [239, 191, 189] @ utf8_lossy bs
         | [] \<Rightarrow> [239, 191, 189])
      else if 240 \<le> b \<and> b \<le> 244 then
        (case bs of
           c # r \<Rightarrow>
             if second_ok b c then
               (case r of
                  d # r' \<Rightarrow>
                    if is_cont d then
                      (case r' of
                         e # r'' \<Rightarrow> if is_cont e then b # c # d # e # utf8_lossy r''
                                   else [239, 191, 189] @ utf8_lossy r'
                       | [] \<Rightarrow> [239, 191, 189])
                    else [239, 191, 189] @ utf8_lossy r
                | [] \<Rightarrow> [239, 191, 189])
             else [239, 191, 189] @ utf8_lossy bs
         | [] \<Rightarrow> [239, 191, 189])
      else [239, 191, 189] @ utf8_lossy bs)"

definition to_string_lossy :: "string \<Rightarrow> string" where
  "to_string_lossy s = map char_of (utf8_lossy (map of_char s))"

declare valid_utf8.simps(2) [simp del] utf8_lossy.simps(2) [simp del]

lemma utf8_lossy_valid: "valid_utf8 bs \<Longrightarrow> utf8_lossy bs = bs"
proof (induction "length bs" arbitrary: bs rule: less_induct)
  case less
  show ?case
  proof (cases bs)
    case (Cons b r)
    note v = less.prems [unfolded Cons valid_utf8.simps(2)]
    consider "b < 128" | "194 \<le> b" "b \<le> 223" | "224 \<le> b" "b \<le> 239" | "240 \<le> b" "b \<le> 244"
      using v by (auto split: if_splits)
    then show ?thesis
    proof cases
      case 1
      with v less.hyps [of r] Cons show ?thesis by (simp add: utf8_lossy.simps(2))
    next
      case 2
      with v obtain c t where "r = c # t" "is_cont c" "valid_utf8 t" by (auto split: list.splits)
      with 2 less.hyps [of t] Cons show ?thesis by (simp add: utf8_lossy.simps(2))
    next
      case 3
      with v obtain c d t where r: "r = c # d # t" "is_cont d" "valid_utf8 t"
        by (auto split: list.splits)
      moreover have "second_ok b c" using v 3 r by (simp add: second_ok_def split: if_splits)
      ultimately show ?thesis using 3 less.hyps [of t] Cons by (simp add: utf8_lossy.simps(2))
    next
      case 4
      with v obtain c d e t where r: "r = c # d # e # t" "is_cont d" "is_cont e" "valid_utf8 t"
        by (auto split: list.splits)
      moreover have "second_ok b c" using v 4 r by (simp add: second_ok_def split: if_splits)
      ultimately show ?thesis using 4 less.hyps [of t] Cons by (simp add: utf8_lossy.simps(2))
    qed
  qed simp
qed

lemma to_string_lossy_valid: "to_str s = Some t \<Longrightarrow> to_string_lossy s = s"
  by (auto simp: to_str_def to_string_lossy_def utf8_lossy_valid comp_def split: if_splits)

definition is_root_path :: "string \<Rightarrow> bool" where
  "is_root_path p \<longleftrightarrow> path_eq p '''' \<or> path_eq p ''/''"

lemma split_slash_ne [simp]: "split_slash s \<noteq> []"
  by (cases s) (auto split: list.splits)

lemma components_root [simp]: "components '''' = []" "components ''/'' = [RootDir]"
  by (simp_all add: components_def)

lemma is_root_path_iff: "is_root_path p \<longleftrightarrow> components p = [] \<or> components p = [RootDir]"
  by (simp add: is_root_path_def path_eq_def)

lemma valid_utf8_ascii: "\<forall>b \<in> set bs. b < 128 \<Longrightarrow> valid_utf8 bs"
  by (induction bs) (auto simp: valid_utf8.simps)

text \<open>A path written as slash-separated plain names has exactly those names as components.\<close>

definition plain_name :: "string \<Rightarrow> bool" where
  "plain_name s \<longleftrightarrow> s \<noteq> '''' \<and> s \<noteq> ''.'' \<and> s \<noteq> ''..'' \<and> CHR ''/'' \<notin> set s"

fun join_slash :: "string list \<Rightarrow> string" where
  "join_slash [] = []"
| "join_slash [s] = s"
| "join_slash (s # ss) = s @ CHR ''/'' # join_slash ss"

lemma split_slash_name: "CHR ''/'' \<notin> set s \<Longrightarrow> split_slash s = [s]"
  by (induction s) auto

lemma split_slash_append:
  "CHR ''/'' \<notin> set s \<Longrightarrow> split_slash (s @ CHR ''/'' # t) = s # split_slash t"
  by (induction s) auto

lemma split_join:
  "\<forall>s \<in> set ss. plain_name s \<Longrightarrow> ss \<noteq> [] \<Longrightarrow> split_slash (join_slash ss) = ss"
  by (induction ss rule: join_slash.induct)
    (auto simp: plain_name_def split_slash_name split_slash_append)

lemma parse_plain: "\<forall>s \<in> set ss. plain_name s \<Longrightarrow> parse_segments ss = map Normal ss"
  by (induction ss) (auto simp: plain_name_def)

lemma components_join_slash:
  assumes "\<forall>s \<in> set ss. plain_name s"
  shows "components (join_slash ss) = map Normal ss"
proof (cases ss)
  case Nil
  then show ?thesis by simp
next
  case (Cons s ss')
  with assms have s: "plain_name s" by simp
  then obtain c t where c: "s = c # t" "c \<noteq> CHR ''/''"
    by (cases s) (auto simp: plain_name_def)
  have hd: "\<exists>u. join_slash ss = c # u"
    using Cons c by (cases ss') auto
  have sp: "split_slash (join_slash ss) = ss"
    by (rule split_join [OF assms]) (simp add: Cons)
  then show ?thesis
    using hd c s Cons parse_plain [OF assms]
    by (auto simp: components_def plain_name_def)
qed

end
