(* ===== verification/SortedVec.thy ===== *)
theory SortedVec
  imports Prelude
begin

text \<open>
  Vectors of named entries sorted by name and searched by binary search, as the size tree
  (\<^verbatim>\<open>server/filesystem/usage.rs\<close>) and the tree of a backup snapshot (\<^verbatim>\<open>server/backup/adapters/pbs.rs\<close>)
  keep their children: such a vector is a map from names to entries, a search tells whether a name is
  there, inserting at the place a failed search returns is a map update, and so is writing through the
  index of a hit.
\<close>

definition search_entry :: "string \<Rightarrow> (string \<times> 'a) list \<Rightarrow> nat + nat" where
  "search_entry key es = binary_search_by (\<lambda>a. cmp (fst a) key) es"

definition sorted_keys :: "(string \<times> 'a) list \<Rightarrow> bool" where
  "sorted_keys es \<longleftrightarrow> sorted_wrt (<) (map fst es)"

lemma sorted_keys_distinct: "sorted_keys es \<Longrightarrow> distinct (map fst es)"
  by (simp add: sorted_keys_def strict_sorted_iff)

lemma sorted_keys_Nil [simp]: "sorted_keys []"
  by (simp add: sorted_keys_def)

lemma sorted_keys_nth: "sorted_keys es \<Longrightarrow> i < j \<Longrightarrow> j < length es \<Longrightarrow> fst (es ! i) < fst (es ! j)"
  by (auto simp: sorted_keys_def sorted_wrt_iff_nth_less)

lemma sorted_keys_append:
  "sorted_keys (xs @ ys) \<longleftrightarrow> sorted_keys xs \<and> sorted_keys ys \<and> (\<forall>x \<in> set xs. \<forall>y \<in> set ys. fst x < fst y)"
  by (auto simp: sorted_keys_def sorted_wrt_append)

lemma sorted_keys_Cons:
  "sorted_keys (x # ys) \<longleftrightarrow> sorted_keys ys \<and> (\<forall>y \<in> set ys. fst x < fst y)"
  using sorted_keys_append [of "[x]" ys] by (auto simp: sorted_keys_def)

lemma sorted_keys_partitioned: "sorted_keys es \<Longrightarrow> partitioned (\<lambda>a. cmp (fst a) key) es"
  unfolding partitioned_def
  by (auto dest: sorted_keys_nth order.strict_trans)

lemma search_entry_Inr:
  assumes "sorted_keys es" and "search_entry key es = Inr idx"
  shows "idx < length es" and "fst (es ! idx) = key"
  using binary_search_by_spec [OF sorted_keys_partitioned [OF assms(1)], of key] assms(2)
  by (simp_all add: search_entry_def)

lemma search_entry_Inl:
  assumes "sorted_keys es" and "search_entry key es = Inl idx"
  shows "idx \<le> length es" and "\<forall>e \<in> set (take idx es). fst e < key"
    and "\<forall>e \<in> set (drop idx es). key < fst e"
proof -
  have spec: "idx \<le> length es" "\<And>j. j < idx \<Longrightarrow> fst (es ! j) < key"
    "\<And>j. idx \<le> j \<Longrightarrow> j < length es \<Longrightarrow> key < fst (es ! j)"
    using binary_search_by_spec [OF sorted_keys_partitioned [OF assms(1)], of key] assms(2)
    by (auto simp: search_entry_def)
  show "idx \<le> length es" by (rule spec(1))
  show "\<forall>e \<in> set (take idx es). fst e < key"
    using spec(2) by (auto simp: in_set_conv_nth) (metis fst_conv)
  show "\<forall>e \<in> set (drop idx es). key < fst e"
    using spec(3) by (auto simp: in_set_conv_nth) (metis fst_conv le_add1 add.commute less_diff_conv)
qed

lemma map_of_nth_key:
  "sorted_keys es \<Longrightarrow> i < length es \<Longrightarrow> map_of es (fst (es ! i)) = Some (snd (es ! i))"
  by (metis map_of_eq_Some_iff nth_mem prod.collapse sorted_keys_distinct)

lemma search_entry_map_of:
  assumes "sorted_keys es"
  shows "(case search_entry key es of
            Inr idx \<Rightarrow> map_of es key = Some (snd (es ! idx))
          | Inl idx \<Rightarrow> map_of es key = None)"
proof (cases "search_entry key es")
  case (Inl idx)
  have "key \<notin> fst ` set (take idx es @ drop idx es)"
    using search_entry_Inl [OF assms Inl] by (auto simp del: append_take_drop_id)
  then show ?thesis using Inl by (simp add: map_of_eq_None_iff)
next
  case (Inr idx)
  then show ?thesis
    using search_entry_Inr [OF assms Inr] map_of_nth_key [OF assms] by auto
qed

lemma sorted_keys_insert:
  assumes "sorted_keys es" and "search_entry key es = Inl idx"
  shows "sorted_keys (take idx es @ (key, e) # drop idx es)"
proof -
  have "sorted_keys (take idx es @ drop idx es)" using assms(1) by simp
  then show ?thesis
    using search_entry_Inl [OF assms]
    unfolding sorted_keys_append sorted_keys_Cons by auto
qed

lemma map_of_insert:
  assumes "sorted_keys es" and "search_entry key es = Inl idx"
  shows "map_of (take idx es @ (key, e) # drop idx es) = (map_of es)(key \<mapsto> e)"
proof -
  have "key \<notin> fst ` set (take idx es)"
    using search_entry_Inl(2) [OF assms] by auto
  then have "map_of (take idx es) key = None" by (simp add: map_of_eq_None_iff)
  then have "map_of (take idx es @ (key, e) # drop idx es)
      = (map_of (take idx es @ drop idx es))(key \<mapsto> e)"
    by (auto simp: map_add_def fun_eq_iff simp del: append_take_drop_id split: option.splits)
  then show ?thesis by simp
qed

lemma map_of_update_nth:
  assumes "sorted_keys es" and "i < length es"
  shows "map_of (es[i := (fst (es ! i), e)]) = (map_of es)(fst (es ! i) \<mapsto> e)"
proof -
  have sp: "es = take i es @ es ! i # drop (Suc i) es"
    using assms(2) by (rule id_take_nth_drop)
  have "distinct (map fst (take i es @ es ! i # drop (Suc i) es))"
    using sorted_keys_distinct [OF assms(1)] sp by simp
  then have "map_of (take i es) (fst (es ! i)) = None"
    by (simp add: map_of_eq_None_iff)
  then have "map_of (take i es @ (fst (es ! i), e) # drop (Suc i) es)
      = (map_of (take i es @ es ! i # drop (Suc i) es))(fst (es ! i) \<mapsto> e)"
    by (cases "es ! i") (auto simp: map_add_def fun_eq_iff split: option.splits)
  then show ?thesis using assms(2) sp by (simp add: upd_conv_take_nth_drop)
qed

lemma sorted_keys_update_nth:
  "i < length es \<Longrightarrow> sorted_keys (es[i := (fst (es ! i), e)]) \<longleftrightarrow> sorted_keys es"
  using list_update_id [of "map fst es" i] by (simp add: sorted_keys_def map_update)

end
