(* ===== verification/DiskUsage.thy ===== *)
theory DiskUsage
  imports RustPath SortedVec
begin

text \<open>
  The directory-size tree of \<^verbatim>\<open>server/filesystem/usage.rs\<close>. A node carries the total
  space of a directory and a sorted vector of its subdirectories; the operations walk a
  path from the root, searching each vector by binary search. The first part is the model,
  operation by operation; then the sortedness invariant \<open>wf_usage\<close> and the lookup laws
  (what \<open>get_path_components\<close> returns after each operation), and the aggregation
  invariant \<open>aggregated\<close>: no directory is smaller than the sum of its subdirectories.
\<close>

section \<open>Model\<close>

record used_space =
  logical :: nat
  physical :: nat

definition default_space :: used_space where
  "default_space = \<lparr>logical = 0, physical = 0\<rparr>"

definition sub_logical :: "nat \<Rightarrow> used_space \<Rightarrow> used_space" where
  "sub_logical v s = s\<lparr>logical := saturating_sub (logical s) v\<rparr>"

definition add_logical :: "nat \<Rightarrow> used_space \<Rightarrow> used_space" where
  "add_logical v s = s\<lparr>logical := saturating_add (logical s) v\<rparr>"

definition sub_physical :: "nat \<Rightarrow> used_space \<Rightarrow> used_space" where
  "sub_physical v s = s\<lparr>physical := saturating_sub (physical s) v\<rparr>"

definition add_physical :: "nat \<Rightarrow> used_space \<Rightarrow> used_space" where
  "add_physical v s = s\<lparr>physical := saturating_add (physical s) v\<rparr>"

definition apply_delta :: "used_space \<Rightarrow> used_space \<Rightarrow> used_space \<Rightarrow> used_space" where
  "apply_delta add sub s =
     sub_physical (physical sub) (sub_logical (logical sub)
       (add_physical (physical add) (add_logical (logical add) s)))"

definition plus_space :: "used_space \<Rightarrow> used_space \<Rightarrow> used_space" where
  "plus_space a b = \<lparr>logical = saturating_add (logical a) (logical b),
                     physical = saturating_add (physical a) (physical b)\<rparr>"

definition sum_space :: "used_space list \<Rightarrow> used_space" where
  "sum_space xs = foldl plus_space default_space xs"

record space_delta =
  d_logical :: int
  d_physical :: int

definition only_logical :: "int \<Rightarrow> space_delta" where
  "only_logical l = \<lparr>d_logical = l, d_physical = 0\<rparr>"

definition delta_from :: "int \<Rightarrow> space_delta" where
  "delta_from v = \<lparr>d_logical = v, d_physical = v\<rparr>"

datatype disk_usage = DiskUsage (space: used_space) (entries: "(string \<times> disk_usage) list")

definition default_usage :: disk_usage where
  "default_usage = DiskUsage default_space []"

definition set_space :: "disk_usage \<Rightarrow> used_space \<Rightarrow> disk_usage" where
  "set_space d s = DiskUsage s (entries d)"

text \<open>
  A \<^verbatim>\<open>&mut DiskUsage\<close> into the entry vector is modelled by the entry's index: the operation
  that hands it out returns the index, and \<open>write_entry\<close> stores through it.
\<close>

definition upsert_entry :: "disk_usage \<Rightarrow> string \<Rightarrow> disk_usage \<times> nat" where
  "upsert_entry d key =
     (case search_entry key (entries d) of
        Inr idx \<Rightarrow> (d, idx)
      | Inl idx \<Rightarrow>
          (DiskUsage (space d)
             (take idx (entries d) @ (key, default_usage) # drop idx (entries d)), idx))"

definition read_entry :: "disk_usage \<Rightarrow> nat \<Rightarrow> disk_usage" where
  "read_entry d idx = snd (entries d ! idx)"

definition write_entry :: "disk_usage \<Rightarrow> nat \<Rightarrow> disk_usage \<Rightarrow> disk_usage" where
  "write_entry d idx e =
     DiskUsage (space d) ((entries d)[idx := (fst (entries d ! idx), e)])"

definition get_mut_entry :: "disk_usage \<Rightarrow> string \<Rightarrow> nat option" where
  "get_mut_entry d key =
     (case search_entry key (entries d) of
        Inr idx \<Rightarrow> if idx < length (entries d) then Some idx else None
      | Inl _ \<Rightarrow> None)"

definition remove_entry :: "disk_usage \<Rightarrow> string \<Rightarrow> (disk_usage \<times> disk_usage) option" where
  "remove_entry d key =
     (case search_entry key (entries d) of
        Inr idx \<Rightarrow>
          Some (snd (entries d ! idx),
                DiskUsage (space d) (take idx (entries d) @ drop (Suc idx) (entries d)))
      | Inl _ \<Rightarrow> None)"

fun get_path_components :: "disk_usage \<Rightarrow> string list \<Rightarrow> disk_usage option" where
  "get_path_components d [] = Some d"
| "get_path_components d (c # cs) =
     (case search_entry c (entries d) of
        Inr idx \<Rightarrow>
          if idx < length (entries d)
          then get_path_components (snd (entries d ! idx)) cs else None
      | Inl _ \<Rightarrow> None)"

text \<open>The \<^verbatim>\<open>Path\<close> variants walk the components and give up on a name that is not UTF-8.\<close>

fun walk_components :: "disk_usage \<Rightarrow> component list \<Rightarrow> disk_usage option" where
  "walk_components d [] = Some d"
| "walk_components d (c # cs) =
     (case to_str (as_os_str c) of
        None \<Rightarrow> None
      | Some name \<Rightarrow>
          (case search_entry name (entries d) of
             Inr idx \<Rightarrow>
               if idx < length (entries d)
               then walk_components (snd (entries d ! idx)) cs else None
           | Inl _ \<Rightarrow> None))"

definition get_size :: "disk_usage \<Rightarrow> string \<Rightarrow> used_space option" where
  "get_size d path =
     (if is_root_path path then Some (space d)
      else map_option space (walk_components d (components path)))"

definition get_path :: "disk_usage \<Rightarrow> string \<Rightarrow> disk_usage option" where
  "get_path d path =
     (if is_root_path path then Some d else walk_components d (components path))"

definition apply_space_delta :: "space_delta \<Rightarrow> used_space \<Rightarrow> used_space" where
  "apply_space_delta delta s =
     (let s1 = (if 0 \<le> d_logical delta then add_logical (nat (d_logical delta)) s
                else sub_logical (nat \<bar>d_logical delta\<bar>) s)
      in if 0 \<le> d_physical delta then add_physical (nat (d_physical delta)) s1
         else sub_physical (nat \<bar>d_physical delta\<bar>) s1)"

definition delta_node :: "space_delta \<Rightarrow> disk_usage \<Rightarrow> disk_usage" where
  "delta_node delta d = set_space d (apply_space_delta delta (space d))"

fun update_loop :: "disk_usage \<Rightarrow> string list \<Rightarrow> space_delta \<Rightarrow> disk_usage" where
  "update_loop d [] delta = d"
| "update_loop d (c # cs) delta =
     (case upsert_entry d c of
        (d', idx) \<Rightarrow>
          write_entry d' idx (update_loop (delta_node delta (read_entry d' idx)) cs delta))"

definition update_size_iterator :: "disk_usage \<Rightarrow> string list \<Rightarrow> space_delta \<Rightarrow> disk_usage" where
  "update_size_iterator d path delta = update_loop (delta_node delta d) path delta"

definition path_keys :: "string \<Rightarrow> string list" where
  "path_keys path = map (\<lambda>c. to_str_or_default (as_os_str c)) (components path)"

definition update_size :: "disk_usage \<Rightarrow> string \<Rightarrow> space_delta \<Rightarrow> disk_usage" where
  "update_size d path delta =
     (if is_root_path path then delta_node delta d
      else update_loop (delta_node delta d) (path_keys path) delta)"

definition sub_space :: "used_space \<Rightarrow> disk_usage \<Rightarrow> disk_usage" where
  "sub_space r d = set_space d (sub_physical (physical r) (sub_logical (logical r) (space d)))"

fun recursive_remove :: "disk_usage \<Rightarrow> string list \<Rightarrow> (disk_usage \<times> disk_usage) option" where
  "recursive_remove d [] = None"
| "recursive_remove d [name] =
     (case remove_entry d name of
        None \<Rightarrow> None
      | Some (removed, d') \<Rightarrow> Some (removed, sub_space (space removed) d'))"
| "recursive_remove d (name # n' # ns) =
     (case get_mut_entry d name of
        None \<Rightarrow> None
      | Some idx \<Rightarrow>
          (case recursive_remove (read_entry d idx) (n' # ns) of
             None \<Rightarrow> None
           | Some (removed, child) \<Rightarrow>
               Some (removed, sub_space (space removed) (write_entry d idx child))))"

definition remove_path :: "disk_usage \<Rightarrow> string \<Rightarrow> (disk_usage \<times> disk_usage) option" where
  "remove_path d path =
     (if is_root_path path then None else recursive_remove d (path_keys path))"

definition truncate_usage :: "disk_usage \<Rightarrow> disk_usage" where
  "truncate_usage d = DiskUsage (space d\<lparr>logical := 0, physical := 0\<rparr>) []"

fun add_loop ::
    "used_space \<Rightarrow> used_space \<Rightarrow> disk_usage \<Rightarrow> string list \<Rightarrow> string \<Rightarrow> disk_usage \<Rightarrow> disk_usage" where
  "add_loop new old d [] leaf source =
     (case upsert_entry (set_space d (apply_delta new old (space d))) leaf of
        (d', idx) \<Rightarrow> write_entry d' idx source)"
| "add_loop new old d (c # cs) leaf source =
     (case upsert_entry (set_space d (apply_delta new old (space d))) c of
        (d', idx) \<Rightarrow>
          write_entry d' idx (add_loop new old (read_entry d' idx) cs leaf source))"

definition add_directory :: "disk_usage \<Rightarrow> string list \<Rightarrow> disk_usage \<Rightarrow> bool \<times> disk_usage" where
  "add_directory d target source =
     (if target = [] then (False, d)
      else
        let old = (case get_path_components d target of
                     None \<Rightarrow> default_space | Some e \<Rightarrow> space e)
        in (True, add_loop (space source) old d (butlast target) (last target) source))"


section \<open>Sorted entry vectors\<close>

fun wf_usage :: "disk_usage \<Rightarrow> bool" where
  "wf_usage (DiskUsage s es) \<longleftrightarrow> sorted_keys es \<and> (\<forall>e \<in> set es. wf_usage (snd e))"

lemma get_path_Cons [lookup_simps]:
  assumes "sorted_keys (entries d)"
  shows "get_path_components d (c # cs) =
     (case map_of (entries d) c of None \<Rightarrow> None | Some e \<Rightarrow> get_path_components e cs)"
  using search_entry_map_of [OF assms, of c] search_entry_Inr [OF assms, of c]
  by (auto split: sum.splits)

declare get_path_components.simps(2) [simp del]

text \<open>
  Storing through the reference that \<open>upsert_entry\<close> hands out is a map update, and the
  vector stays sorted.
\<close>

lemma upsert_write:
  assumes "sorted_keys (entries d)" and "upsert_entry d key = (d', idx)"
  shows "space d' = space d \<and>
    read_entry d' idx = (case map_of (entries d) key of None \<Rightarrow> default_usage | Some e \<Rightarrow> e) \<and>
    map_of (entries (write_entry d' idx e)) = (map_of (entries d))(key \<mapsto> e) \<and>
    sorted_keys (entries (write_entry d' idx e)) \<and> sorted_keys (entries d')"
proof (cases "search_entry key (entries d)")
  case (Inr i)
  note f = search_entry_Inr [OF assms(1) Inr]
  have [simp]: "d' = d" "idx = i" using assms(2) Inr by (auto simp: upsert_entry_def)
  show ?thesis
    using f assms(1) map_of_nth_key [OF assms(1) f(1)] map_of_update_nth [OF assms(1) f(1)]
      sorted_keys_update_nth [OF f(1)]
    by (simp add: read_entry_def write_entry_def)
next
  case (Inl i)
  note f = search_entry_Inl [OF assms(1) Inl]
  have idx: "idx = i" and d': "space d' = space d"
    "entries d' = take i (entries d) @ (key, default_usage) # drop i (entries d)"
    using assms(2) Inl by (auto simp: upsert_entry_def)
  have nth: "entries d' ! i = (key, default_usage)" and len: "i < length (entries d')"
    using f(1) by (simp_all add: d' nth_append)
  have w: "entries (write_entry d' i e) = take i (entries d) @ (key, e) # drop i (entries d)"
    using f(1) by (simp add: write_entry_def nth) (simp add: d' list_update_append)
  show ?thesis
    using sorted_keys_insert [OF assms(1) Inl] map_of_insert [OF assms(1) Inl]
      search_entry_map_of [OF assms(1), of key] Inl
    by (simp add: idx d' w read_entry_def nth [unfolded d'])
qed

lemmas upsert_space = upsert_write [THEN conjunct1]
lemmas upsert_read = upsert_write [THEN conjunct2, THEN conjunct1]
lemmas upsert_map = upsert_write [THEN conjunct2, THEN conjunct2, THEN conjunct1]
lemmas upsert_sorted = upsert_write [THEN conjunct2, THEN conjunct2, THEN conjunct2, THEN conjunct1]

lemma write_entry_space [simp]: "space (write_entry d i e) = space d"
  by (simp add: write_entry_def)

lemma set_space_sel [simp]: "space (set_space d s) = s" "entries (set_space d s) = entries d"
  by (simp_all add: set_space_def)

lemma delta_node_sel [simp]:
  "space (delta_node t d) = apply_space_delta t (space d)" "entries (delta_node t d) = entries d"
  by (simp_all add: delta_node_def)

lemma default_usage_sel [simp]: "space default_usage = default_space" "entries default_usage = []"
  by (simp_all add: default_usage_def)

lemma wf_usage_iff:
  "wf_usage d \<longleftrightarrow> sorted_keys (entries d) \<and> (\<forall>k e. map_of (entries d) k = Some e \<longrightarrow> wf_usage e)"
proof (cases d)
  case (DiskUsage s es)
  then show ?thesis
    using sorted_keys_distinct [of es] by (fastforce simp: map_of_eq_Some_iff)
qed

lemma wf_usage_sorted [simp]: "wf_usage d \<Longrightarrow> sorted_keys (entries d)"
  by (cases d) simp

lemma wf_default [wf_intros]: "wf_usage default_usage"
  by (simp add: default_usage_def)

lemma wf_child: "wf_usage d \<Longrightarrow> map_of (entries d) k = Some e \<Longrightarrow> wf_usage e"
  using wf_usage_iff [of d] by blast

lemma wf_usageI:
  "sorted_keys (entries d) \<Longrightarrow> (\<And>k e. map_of (entries d) k = Some e \<Longrightarrow> wf_usage e) \<Longrightarrow> wf_usage d"
  using wf_usage_iff [of d] by blast

lemma wf_set_space [simp]: "wf_usage (set_space d s) \<longleftrightarrow> wf_usage d"
  by (cases d) (simp add: set_space_def)

lemma wf_delta_node [simp]: "wf_usage (delta_node t d) \<longleftrightarrow> wf_usage d"
  by (simp add: delta_node_def)

lemma wf_upsert_read [wf_intros]:
  "wf_usage d \<Longrightarrow> upsert_entry d key = (d', idx) \<Longrightarrow> wf_usage (read_entry d' idx)"
  using upsert_read [of d key d' idx]
  by (auto intro: wf_default wf_child split: option.splits)

lemma wf_upsert_write [wf_intros]:
  assumes "wf_usage d" and "upsert_entry d key = (d', idx)" and "wf_usage e"
  shows "wf_usage (write_entry d' idx e)"
  using upsert_map [of d key d' idx e] upsert_sorted [of d key d' idx e] assms
  by (subst wf_usage_iff) (auto dest: wf_child split: if_splits)


section \<open>Lookup laws of the update\<close>

text \<open>
  The abstract view of a tree is the space recorded for each path; \<open>update_loop\<close> changes it
  at the prefixes of the updated path and nowhere else.
\<close>

definition space_at :: "disk_usage \<Rightarrow> string list \<Rightarrow> used_space option" where
  "space_at d p = map_option space (get_path_components d p)"

lemma space_at_Nil [simp]: "space_at d [] = Some (space d)"
  by (simp add: space_at_def)

lemma space_at_Cons [lookup_simps]:
  "sorted_keys (entries d) \<Longrightarrow>
   space_at d (c # cs) = (case map_of (entries d) c of None \<Rightarrow> None | Some e \<Rightarrow> space_at e cs)"
  by (auto simp: space_at_def get_path_Cons split: option.splits)

lemma space_at_default: "space_at default_usage p = (if p = [] then Some default_space else None)"
  by (cases p) (simp_all add: space_at_Cons default_usage_def)

lemma wf_update_loop [wf_intros]: "wf_usage d \<Longrightarrow> wf_usage (update_loop d p t)"
proof (induction p arbitrary: d)
  case Nil
  then show ?case by simp
next
  case (Cons c cs)
  obtain d' idx where u: "upsert_entry d c = (d', idx)" by force
  with Cons show ?case by (simp add: wf_upsert_read wf_upsert_write)
qed

lemma space_update_loop [simp]:
  "wf_usage d \<Longrightarrow> space (update_loop d p t) = space d"
  by (cases p) (auto split: prod.splits simp: upsert_space)

lemma space_at_update_loop:
  assumes "wf_usage d"
  shows "space_at (update_loop d p t) q =
     (if q \<noteq> [] \<and> prefix q p
      then Some (apply_space_delta t (case space_at d q of None \<Rightarrow> default_space | Some s \<Rightarrow> s))
      else space_at d q)"
  using assms
proof (induction p arbitrary: d q)
  case Nil
  then show ?case by (cases q) auto
next
  case (Cons c cs)
  show ?case
  proof (cases q)
    case Nil
    with Cons.prems show ?thesis by (simp del: update_loop.simps)
  next
    case (Cons x xs)
    obtain d' idx where u: "upsert_entry d c = (d', idx)" by force
    note s = wf_usage_sorted [OF Cons.prems]
    have wf: "wf_usage (delta_node t (read_entry d' idx))"
      using Cons.prems u by (simp add: wf_upsert_read)
    have "space_at (update_loop d (c # cs) t) q =
        (case ((map_of (entries d))(c \<mapsto> update_loop (delta_node t (read_entry d' idx)) cs t)) x of
           None \<Rightarrow> None | Some e \<Rightarrow> space_at e xs)"
      using u by (simp add: Cons space_at_Cons upsert_sorted [OF s u] upsert_map [OF s u])
    also have "\<dots> = (if q \<noteq> [] \<and> prefix q (c # cs)
      then Some (apply_space_delta t (case space_at d q of None \<Rightarrow> default_space | Some s \<Rightarrow> s))
      else space_at d q)"
    proof (cases "x = c")
      case True
      have "space_at (update_loop (delta_node t (read_entry d' idx)) cs t) xs =
        (if xs \<noteq> [] \<and> prefix xs cs
         then Some (apply_space_delta t
           (case space_at (delta_node t (read_entry d' idx)) xs of None \<Rightarrow> default_space | Some s \<Rightarrow> s))
         else space_at (delta_node t (read_entry d' idx)) xs)"
        by (rule Cons.IH [OF wf])
      moreover have "space_at (delta_node t (read_entry d' idx)) xs =
        (if xs = [] then Some (apply_space_delta t (space (read_entry d' idx)))
         else space_at (read_entry d' idx) xs)"
        using wf by (cases xs) (auto simp: space_at_Cons)
      ultimately show ?thesis
        using True by (auto simp: Cons space_at_Cons s upsert_read [OF s u] space_at_default
            split: option.splits)
    next
      case False
      then show ?thesis by (simp add: Cons space_at_Cons s)
    qed
    finally show ?thesis .
  qed
qed

lemma space_at_update_size_iterator:
  assumes "wf_usage d"
  shows "wf_usage (update_size_iterator d p t) \<and>
    space_at (update_size_iterator d p t) q =
     (if prefix q p
      then Some (apply_space_delta t (case space_at d q of None \<Rightarrow> default_space | Some s \<Rightarrow> s))
      else space_at d q)"
proof -
  have "space_at (delta_node t d) q =
      (if q = [] then Some (apply_space_delta t (space d)) else space_at d q)"
    using assms by (cases q) (auto simp: space_at_Cons)
  then show ?thesis
    using assms space_at_update_loop [of "delta_node t d" p t q]
    by (auto simp: update_size_iterator_def wf_update_loop)
qed

text \<open>
  C3. Adding a delta along a path (\<^verbatim>\<open>update_size_iterator\<close>) changes the recorded size of exactly
  the prefixes of that path, the root included: each gets the delta, saturating, on top of
  what it had (nothing, for a directory seen for the first time); every other path keeps its
  size, and the entry vectors stay sorted.
\<close>

theorem update_size_iterator_lookup:
  assumes "wf_usage d"
  shows "wf_usage (update_size_iterator d p t) \<and>
    space_at (update_size_iterator d p t) q =
     (if prefix q p
      then Some (apply_space_delta t (case space_at d q of None \<Rightarrow> default_space | Some s \<Rightarrow> s))
      else space_at d q)"
  by (rule space_at_update_size_iterator [OF assms])


section \<open>Removing a subtree\<close>

lemma remove_entry_spec:
  assumes "sorted_keys (entries d)"
  shows "case remove_entry d key of
      None \<Rightarrow> map_of (entries d) key = None
    | Some (r, d') \<Rightarrow> map_of (entries d) key = Some r \<and> space d' = space d \<and>
        sorted_keys (entries d') \<and> map_of (entries d') = (map_of (entries d))(key := None)"
proof (cases "search_entry key (entries d)")
  case (Inl idx)
  then show ?thesis
    using search_entry_map_of [OF assms, of key] by (simp add: remove_entry_def)
next
  case (Inr idx)
  let ?es = "entries d"
  note f = search_entry_Inr [OF assms Inr]
  have sp: "?es = take idx ?es @ ?es ! idx # drop (Suc idx) ?es"
    using f(1) by (rule id_take_nth_drop)
  have "sorted_keys (take idx ?es @ ?es ! idx # drop (Suc idx) ?es)"
    using assms sp by simp
  then have srt: "sorted_keys (take idx ?es @ drop (Suc idx) ?es)"
    and ne: "key \<notin> fst ` set (take idx ?es @ drop (Suc idx) ?es)"
    using f(2) by (auto simp: sorted_keys_append sorted_keys_Cons)
  have none: "map_of (take idx ?es) key = None" "map_of (drop (Suc idx) ?es) key = None"
    using ne by (auto simp: map_of_eq_None_iff image_Un)
  have "map_of (take idx ?es @ drop (Suc idx) ?es)
      = (map_of (take idx ?es @ ?es ! idx # drop (Suc idx) ?es))(key := None)"
    using none f(2) by (cases "?es ! idx")
      (auto simp: map_add_def fun_eq_iff split: option.splits)
  then show ?thesis
    using Inr srt sp search_entry_map_of [OF assms, of key] by (simp add: remove_entry_def)
qed

lemma get_mut_entry_spec:
  assumes "sorted_keys (entries d)"
  shows "case get_mut_entry d key of
      None \<Rightarrow> map_of (entries d) key = None
    | Some idx \<Rightarrow> map_of (entries d) key = Some (read_entry d idx) \<and>
        sorted_keys (entries (write_entry d idx e)) \<and>
        map_of (entries (write_entry d idx e)) = (map_of (entries d))(key \<mapsto> e)"
proof (cases "search_entry key (entries d)")
  case (Inl idx)
  then show ?thesis
    using search_entry_map_of [OF assms, of key] by (simp add: get_mut_entry_def)
next
  case (Inr idx)
  note f = search_entry_Inr [OF assms Inr]
  show ?thesis
    using f Inr map_of_nth_key [OF assms f(1)] map_of_update_nth [OF assms f(1), of e]
      sorted_keys_update_nth [OF f(1)] assms
    by (simp add: get_mut_entry_def read_entry_def write_entry_def)
qed

lemma sub_space_sel [simp]:
  "entries (sub_space r d) = entries d"
  "logical (space (sub_space r d)) = logical (space d) - logical r"
  "physical (space (sub_space r d)) = physical (space d) - physical r"
  by (simp_all add: sub_space_def sub_physical_def sub_logical_def saturating_sub_def)

lemma wf_sub_space [simp]: "wf_usage (sub_space r d) \<longleftrightarrow> wf_usage d"
  by (simp add: sub_space_def)

definition minus_space :: "used_space \<Rightarrow> used_space \<Rightarrow> used_space" where
  "minus_space r s = sub_physical (physical r) (sub_logical (logical r) s)"

lemma space_sub_space [simp]: "space (sub_space r d) = minus_space r (space d)"
  by (simp add: sub_space_def minus_space_def)

lemma minus_space_sel [simp]:
  "logical (minus_space r s) = logical s - logical r"
  "physical (minus_space r s) = physical s - physical r"
  by (simp_all add: minus_space_def sub_physical_def sub_logical_def saturating_sub_def)

lemma recursive_remove_spec:
  assumes "wf_usage d"
  shows "case recursive_remove d p of
      None \<Rightarrow> p = [] \<or> get_path_components d p = None
    | Some (r, d') \<Rightarrow> p \<noteq> [] \<and> get_path_components d p = Some r \<and> wf_usage d' \<and> wf_usage r \<and>
        space d' = minus_space (space r) (space d) \<and>
        (\<forall>q. space_at d' q =
          (if prefix p q then None
           else if prefix q p then map_option (minus_space (space r)) (space_at d q)
           else space_at d q))"
  using assms
proof (induction d p rule: recursive_remove.induct)
  case (1 d)
  then show ?case by simp
next
  case (2 d name)
  note s = wf_usage_sorted [OF "2.prems"]
  note spec = remove_entry_spec [OF s, of name]
  show ?case
  proof (cases "remove_entry d name")
    case None
    with spec show ?thesis by (simp add: get_path_Cons s)
  next
    case (Some rd)
    obtain r d' where rd: "rd = (r, d')" by force
    have d': "map_of (entries d) name = Some r" "space d' = space d" "sorted_keys (entries d')"
      "map_of (entries d') = (map_of (entries d))(name := None)"
      using spec by (simp_all add: Some rd)
    have wf: "wf_usage d'"
      using d' "2.prems" by - (rule wf_usageI, auto dest: wf_child split: if_splits)
    have wfr: "wf_usage r" using "2.prems" d'(1) by (rule wf_child)
    have "space_at (sub_space (space r) d') q =
          (if prefix [name] q then None
           else if prefix q [name] then map_option (minus_space (space r)) (space_at d q)
           else space_at d q)" for q
      using d' s by (cases q) (auto simp: space_at_Cons)
    then show ?thesis
      using wf wfr d' by (simp add: Some rd get_path_Cons s)
  qed
next
  case (3 d name n' ns)
  note s = wf_usage_sorted [OF "3.prems"]
  show ?case
  proof (cases "get_mut_entry d name")
    case None
    with get_mut_entry_spec [OF s, of name] show ?thesis by (simp add: get_path_Cons s)
  next
    case (Some idx)
    have m: "map_of (entries d) name = Some (read_entry d idx)"
      "sorted_keys (entries (write_entry d idx e))"
      "map_of (entries (write_entry d idx e)) = (map_of (entries d))(name \<mapsto> e)" for e
      using get_mut_entry_spec [OF s, of name e] by (simp_all add: Some)
    have wfc: "wf_usage (read_entry d idx)" using m(1) "3.prems" by (rule wf_child [rotated])
    note IH = "3.IH" [OF Some wfc]
    show ?thesis
    proof (cases "recursive_remove (read_entry d idx) (n' # ns)")
      case None
      with IH m(1) show ?thesis by (simp add: Some get_path_Cons s)
    next
      case (Some rc)
      obtain r c where rc: "rc = (r, c)" by force
      have c: "get_path_components (read_entry d idx) (n' # ns) = Some r" "wf_usage c" "wf_usage r"
        "\<And>q. space_at c q =
          (if prefix (n' # ns) q then None
           else if prefix q (n' # ns) then map_option (minus_space (space r)) (space_at (read_entry d idx) q)
           else space_at (read_entry d idx) q)"
        using IH by (simp_all add: Some rc)
      have wf: "wf_usage (write_entry d idx c)"
        using m(1) m(2,3) [of c] c(2) "3.prems"
        by - (rule wf_usageI, auto dest: wf_child split: if_splits)
      have "space_at (sub_space (space r) (write_entry d idx c)) q =
          (if prefix (name # n' # ns) q then None
           else if prefix q (name # n' # ns) then map_option (minus_space (space r)) (space_at d q)
           else space_at d q)" for q
        using m(1) m(2,3) [of c] s c(4) by (cases q) (auto simp: space_at_Cons)
      then show ?thesis
        using wf c m(1) \<open>get_mut_entry d name = Some idx\<close>
        by (simp add: Some rc get_path_Cons s)
    qed
  qed
qed

text \<open>
  C4. Removing a path (\<^verbatim>\<open>remove_path\<close>) fails exactly on the root and on paths that are not
  recorded; otherwise it returns the subtree that was stored there, forgets that path and
  everything below it, subtracts the subtree's size (saturating) from each ancestor and
  leaves every other path alone.
\<close>

theorem remove_path_lookup:
  assumes "wf_usage d" and "\<not> is_root_path path"
  shows "case remove_path d path of
      None \<Rightarrow> get_path_components d (path_keys path) = None
    | Some (r, d') \<Rightarrow> get_path_components d (path_keys path) = Some r \<and> wf_usage d' \<and>
        (\<forall>q. space_at d' q =
          (if prefix (path_keys path) q then None
           else if prefix q (path_keys path) then map_option (minus_space (space r)) (space_at d q)
           else space_at d q))"
proof -
  have "path_keys path \<noteq> []"
    using assms(2) by (simp add: is_root_path_iff path_keys_def)
  then show ?thesis
    using recursive_remove_spec [OF assms(1), of "path_keys path"] assms(2)
    by (auto simp: remove_path_def split: option.splits)
qed


section \<open>Inserting a subtree\<close>

lemma wf_upsert_set_space [wf_intros]:
  assumes "wf_usage d" and "upsert_entry (set_space d s) key = (d', idx)"
  shows "wf_usage (read_entry d' idx)" and "wf_usage e \<Longrightarrow> wf_usage (write_entry d' idx e)"
  using wf_upsert_read [of "set_space d s"] wf_upsert_write [of "set_space d s"] assms by simp_all

lemma wf_add_loop [wf_intros]:
  "wf_usage d \<Longrightarrow> wf_usage source \<Longrightarrow> wf_usage (add_loop new old d ps leaf source)"
proof (induction new old d ps leaf source rule: add_loop.induct)
  case (1 new old d leaf source)
  obtain d' idx where "upsert_entry (set_space d (apply_delta new old (space d))) leaf = (d', idx)"
    by force
  with 1 show ?case by (simp add: wf_upsert_set_space)
next
  case (2 new old d c cs leaf source)
  obtain d' idx where "upsert_entry (set_space d (apply_delta new old (space d))) c = (d', idx)"
    by force
  with 2 show ?case by (simp add: wf_upsert_set_space)
qed

lemma space_add_loop: "wf_usage d \<Longrightarrow> space (add_loop new old d ps leaf source) = apply_delta new old (space d)"
  by (cases ps) (auto split: prod.splits dest: upsert_space [rotated])

lemma get_path_add_loop:
  assumes "wf_usage d" and "wf_usage source"
  shows "get_path_components (add_loop new old d ps leaf source) (ps @ [leaf] @ q) =
    get_path_components source q"
  using assms
proof (induction new old d ps leaf source rule: add_loop.induct)
  case (1 new old d leaf source)
  let ?d = "set_space d (apply_delta new old (space d))"
  obtain d' idx where u: "upsert_entry ?d leaf = (d', idx)" by force
  have s: "sorted_keys (entries ?d)" using 1 by simp
  show ?case
    using u by (simp add: get_path_Cons upsert_sorted [OF s u] upsert_map [OF s u])
next
  case (2 new old d c cs leaf source)
  let ?d = "set_space d (apply_delta new old (space d))"
  obtain d' idx where u: "upsert_entry ?d c = (d', idx)" by force
  have s: "sorted_keys (entries ?d)" using 2 by simp
  have wf: "wf_usage (read_entry d' idx)" using 2 u by (auto intro: wf_upsert_set_space)
  show ?case
    using u 2 wf by (simp add: get_path_Cons upsert_sorted [OF s u] upsert_map [OF s u])
qed

lemma space_at_add_loop:
  assumes "wf_usage d" and "wf_usage source" and "\<not> prefix (ps @ [leaf]) q"
  shows "space_at (add_loop new old d ps leaf source) q =
    (if prefix q ps
     then Some (apply_delta new old (case space_at d q of None \<Rightarrow> default_space | Some s \<Rightarrow> s))
     else space_at d q)"
  using assms
proof (induction new old d ps leaf source arbitrary: q rule: add_loop.induct)
  case (1 new old d leaf source)
  let ?d = "set_space d (apply_delta new old (space d))"
  obtain d' idx where u: "upsert_entry ?d leaf = (d', idx)" by force
  have s: "sorted_keys (entries ?d)" using 1 by simp
  show ?case
    using u s upsert_space [OF s u] 1
    by (cases q) (auto simp: space_at_Cons upsert_sorted [OF s u] upsert_map [OF s u])
next
  case (2 new old d c cs leaf source)
  let ?d = "set_space d (apply_delta new old (space d))"
  obtain d' idx where u: "upsert_entry ?d c = (d', idx)" by force
  have s: "sorted_keys (entries ?d)" using 2 by simp
  have wf: "wf_usage (read_entry d' idx)" using 2 u by (auto intro: wf_upsert_set_space)
  have IH: "\<not> prefix (cs @ [leaf]) xs \<Longrightarrow>
      space_at (add_loop new old (read_entry d' idx) cs leaf source) xs =
      (if prefix xs cs
       then Some (apply_delta new old
          (case space_at (read_entry d' idx) xs of None \<Rightarrow> default_space | Some s \<Rightarrow> s))
       else space_at (read_entry d' idx) xs)" for xs
    using "2.IH" [OF u [symmetric] wf "2.prems"(2), of xs] by simp
  show ?case
    using u s upsert_space [OF s u] 2 IH upsert_read [OF s u] prefix_def
    by (cases q)
      (auto simp: space_at_Cons upsert_sorted [OF s u] upsert_map [OF s u] space_at_default
        split: option.splits)
qed

text \<open>
  Inserting a directory tree (\<^verbatim>\<open>add_directory\<close>) at a non-empty path succeeds, makes the
  given tree the subtree at that path, replaces the size the path had by the new size in
  every ancestor (creating missing ones), and leaves every other path alone; at the empty
  path it refuses and changes nothing.
\<close>

lemma add_directory_lookup:
  assumes "wf_usage d" and "wf_usage source"
  shows "case add_directory d p source of (ok, d') \<Rightarrow>
    (ok \<longleftrightarrow> p \<noteq> []) \<and> wf_usage d' \<and>
    (if p = [] then d' = d
     else (\<forall>q. get_path_components d' (p @ q) = get_path_components source q) \<and>
       (\<forall>q. \<not> prefix p q \<longrightarrow> space_at d' q =
          (if prefix q p
           then Some (apply_delta (space source)
                  (case space_at d p of None \<Rightarrow> default_space | Some s \<Rightarrow> s)
                  (case space_at d q of None \<Rightarrow> default_space | Some s \<Rightarrow> s))
           else space_at d q)))"
proof (cases "p = []")
  case True
  with assms show ?thesis by (simp add: add_directory_def)
next
  case False
  define old where "old = (case get_path_components d p of None \<Rightarrow> default_space | Some e \<Rightarrow> space e)"
  have old: "old = (case space_at d p of None \<Rightarrow> default_space | Some s \<Rightarrow> s)"
    by (simp add: old_def space_at_def split: option.splits)
  have p: "p = butlast p @ [last p]" using False by simp
  let ?d' = "add_loop (space source) old d (butlast p) (last p) source"
  have "get_path_components ?d' (p @ q) = get_path_components source q" for q
    using get_path_add_loop [OF assms, of "space source" old "butlast p" "last p" q] p
    by (metis append.assoc)
  moreover have "space_at ?d' q =
      (if prefix q p then Some (apply_delta (space source) old
           (case space_at d q of None \<Rightarrow> default_space | Some s \<Rightarrow> s)) else space_at d q)"
    if "\<not> prefix p q" for q
  proof -
    have "prefix q p \<longleftrightarrow> prefix q (butlast p)"
      using that p by (metis prefix_order.dual_order.refl prefix_snoc)
    then show ?thesis
      using space_at_add_loop [OF assms, of "butlast p" "last p" q] that p by simp
  qed
  ultimately show ?thesis
    using False assms
    by (simp add: add_directory_def Let_def wf_add_loop old_def [symmetric]) (simp add: old)
qed


section \<open>Aggregation: directories contain their subdirectories\<close>

definition child_sum :: "(used_space \<Rightarrow> nat) \<Rightarrow> (string \<times> disk_usage) list \<Rightarrow> nat" where
  "child_sum f es = (\<Sum>e\<leftarrow>es. f (space (snd e)))"

fun aggregated :: "disk_usage \<Rightarrow> bool" where
  "aggregated (DiskUsage s es) \<longleftrightarrow>
     child_sum logical es \<le> logical s \<and> child_sum physical es \<le> physical s \<and>
     logical s \<le> u64_max \<and> physical s \<le> u64_max \<and> (\<forall>e \<in> set es. aggregated (snd e))"

definition map_sum :: "('b \<Rightarrow> nat) \<Rightarrow> ('a \<rightharpoonup> 'b) \<Rightarrow> nat" where
  "map_sum f m = (\<Sum>k \<in> dom m. f (the (m k)))"

lemma map_sum_None:
  "finite (dom m) \<Longrightarrow> map_sum f m = map_sum f (m(k := None)) + (case m k of None \<Rightarrow> 0 | Some e \<Rightarrow> f e)"
proof (cases "m k")
  case None
  then have "m(k := None) = m" by (simp add: fun_eq_iff)
  with None show ?thesis by simp
next
  case (Some e)
  assume fin: "finite (dom m)"
  have "map_sum f m = f e + (\<Sum>i \<in> dom m - {k}. f (the (m i)))"
    using fin Some unfolding map_sum_def by (subst sum.remove [of _ k]) auto
  also have "(\<Sum>i \<in> dom m - {k}. f (the (m i))) = map_sum f (m(k := None))"
    unfolding map_sum_def by (rule sum.cong) auto
  finally show ?thesis using Some by simp
qed

lemma map_sum_upd:
  assumes "finite (dom m)"
  shows "map_sum f (m(k \<mapsto> e)) + (case m k of None \<Rightarrow> 0 | Some e' \<Rightarrow> f e') = map_sum f m + f e"
proof -
  have "(m(k \<mapsto> e))(k := None) = m(k := None)" by simp
  then show ?thesis
    using map_sum_None [of "m(k \<mapsto> e)" f k] map_sum_None [OF assms, of f k] assms by simp
qed

lemma child_sum_map_sum:
  assumes "sorted_keys es"
  shows "child_sum f es = map_sum (\<lambda>e. f (space e)) (map_of es)"
proof -
  have d: "distinct (map fst es)" using assms by (rule sorted_keys_distinct)
  have "child_sum f es = (\<Sum>e \<in> set es. f (space (snd e)))"
    using d by (simp add: child_sum_def sum_list_distinct_conv_sum_set distinct_map)
  also have "\<dots> = (\<Sum>k \<in> fst ` set es. f (space (the (map_of es k))))"
    using d by (subst sum.reindex) (auto simp: distinct_map intro!: sum.cong)
  finally show ?thesis by (simp add: map_sum_def dom_map_of_conv_image_fst)
qed

lemma aggregated_iff:
  assumes "sorted_keys (entries d)"
  shows "aggregated d \<longleftrightarrow>
     map_sum (\<lambda>e. logical (space e)) (map_of (entries d)) \<le> logical (space d) \<and>
     map_sum (\<lambda>e. physical (space e)) (map_of (entries d)) \<le> physical (space d) \<and>
     logical (space d) \<le> u64_max \<and> physical (space d) \<le> u64_max \<and>
     (\<forall>k e. map_of (entries d) k = Some e \<longrightarrow> aggregated e)"
proof (cases d)
  case (DiskUsage s es)
  with assms show ?thesis
    using sorted_keys_distinct [of es] child_sum_map_sum [of es]
    by (fastforce simp: map_of_eq_Some_iff)
qed

lemma aggregated_child:
  assumes "aggregated d" and "sorted_keys (entries d)" and "map_of (entries d) k = Some e"
  shows "aggregated e" and "logical (space e) \<le> logical (space d)"
    and "physical (space e) \<le> physical (space d)"
proof -
  have fin: "finite (dom (map_of (entries d)))" by (rule finite_dom_map_of)
  show "aggregated e" using assms aggregated_iff [OF assms(2)] by blast
  show "logical (space e) \<le> logical (space d)"
    using assms aggregated_iff [OF assms(2)]
      map_sum_None [OF fin, of "\<lambda>e. logical (space e)" k] by simp
  show "physical (space e) \<le> physical (space d)"
    using assms aggregated_iff [OF assms(2)]
      map_sum_None [OF fin, of "\<lambda>e. physical (space e)" k] by simp
qed

lemma aggregated_default [simp]: "aggregated default_usage"
  by (simp add: default_usage_def default_space_def child_sum_def)

text \<open>
  Replacing one child keeps the invariant when the node's own total moves at least as far
  as the child's.
\<close>

lemma aggregated_upsert:
  assumes "aggregated d" and "wf_usage d" and "upsert_entry (set_space d s) key = (d', idx)"
    and "aggregated e" and "logical s \<le> u64_max" and "physical s \<le> u64_max"
    and "logical (space d) + logical (space e) \<le> logical s + logical (space (read_entry d' idx))"
    and "physical (space d) + physical (space e) \<le> physical s + physical (space (read_entry d' idx))"
  shows "aggregated (write_entry d' idx e)"
proof -
  let ?m = "map_of (entries d)"
  have s: "sorted_keys (entries (set_space d s))" using assms(2) by simp
  have fin: "finite (dom ?m)" by (rule finite_dom_map_of)
  have m: "map_of (entries (write_entry d' idx e)) = ?m(key \<mapsto> e)"
    using upsert_map [OF s assms(3)] by simp
  have sp: "space (write_entry d' idx e) = s" using upsert_space [OF s assms(3)] by simp
  have r: "read_entry d' idx = (case ?m key of None \<Rightarrow> default_usage | Some e \<Rightarrow> e)"
    using upsert_read [OF s assms(3)] by simp
  note agg = assms(1) [unfolded aggregated_iff [OF wf_usage_sorted [OF assms(2)]]]
  show ?thesis
    unfolding aggregated_iff [OF upsert_sorted [OF s assms(3)]] m sp
    using agg assms(4-8) r
      map_sum_upd [OF fin, of "\<lambda>e. logical (space e)" key e]
      map_sum_upd [OF fin, of "\<lambda>e. physical (space e)" key e]
    by (auto simp: default_space_def split: option.splits)
qed

lemma read_entry_bounds:
  assumes "aggregated d" and "wf_usage d" and "upsert_entry (set_space d s) key = (d', idx)"
  shows "aggregated (read_entry d' idx)" and "logical (space (read_entry d' idx)) \<le> logical (space d)"
    and "physical (space (read_entry d' idx)) \<le> physical (space d)"
  using upsert_read [of "set_space d s" key d' idx] assms
    aggregated_child [OF assms(1) wf_usage_sorted [OF assms(2)]]
  by (auto simp: default_space_def split: option.splits)

lemma apply_space_delta_nonneg:
  assumes "d_logical t = int a" and "d_physical t = int b"
    and "logical s + a \<le> u64_max" and "physical s + b \<le> u64_max"
  shows "apply_space_delta t s = \<lparr>logical = logical s + a, physical = physical s + b\<rparr>"
  using assms by (cases s)
    (simp add: apply_space_delta_def add_logical_def add_physical_def saturating_add_exact)

lemma aggregated_update_loop:
  assumes "aggregated d" and "wf_usage d" and "d_logical t = int a" and "d_physical t = int b"
    and "logical (space d) + a \<le> u64_max" and "physical (space d) + b \<le> u64_max"
  shows "aggregated (update_loop (delta_node t d) p t)"
  using assms
proof (induction p arbitrary: d)
  case Nil
  then show ?case
    by (cases d) (simp add: delta_node_def set_space_def apply_space_delta_nonneg)
next
  case (Cons c cs)
  let ?s = "apply_space_delta t (space d)"
  obtain d' idx where u: "upsert_entry (set_space d ?s) c = (d', idx)" by force
  note rb = read_entry_bounds [OF Cons.prems(1,2) u]
  let ?r = "read_entry d' idx"
  have wf: "wf_usage ?r" using Cons.prems(2) u by (rule wf_upsert_set_space)
  have bnd: "logical (space ?r) + a \<le> u64_max" "physical (space ?r) + b \<le> u64_max"
    using rb Cons.prems(5,6) by auto
  note eqs = apply_space_delta_nonneg [OF Cons.prems(3,4)]
  have "aggregated (update_loop (delta_node t ?r) cs t)"
    by (rule Cons.IH [OF rb(1) wf Cons.prems(3,4) bnd])
  then have "aggregated (write_entry d' idx (update_loop (delta_node t ?r) cs t))"
    using Cons.prems wf bnd
    by (intro aggregated_upsert [OF Cons.prems(1,2) u]) (simp_all add: eqs)
  then show ?case using u by (simp add: delta_node_def)
qed

text \<open>
  A non-negative delta that fits into the root's 64-bit counters keeps the aggregation
  invariant: afterwards every directory is still at least as large as its subdirectories
  together, whatever path was updated.
\<close>

lemma update_size_iterator_aggregated:
  assumes "aggregated d" and "wf_usage d" and "0 \<le> d_logical t" and "0 \<le> d_physical t"
    and "int (logical (space d)) + d_logical t \<le> int u64_max"
    and "int (physical (space d)) + d_physical t \<le> int u64_max"
  shows "aggregated (update_size_iterator d p t)"
  unfolding update_size_iterator_def
  by (rule aggregated_update_loop [OF assms(1,2), of t "nat (d_logical t)" "nat (d_physical t)"])
    (use assms(3-6) in auto)

lemma apply_delta_exact:
  assumes "logical s + logical new \<le> u64_max" and "physical s + physical new \<le> u64_max"
  shows "apply_delta new old s =
    \<lparr>logical = logical s + logical new - logical old, physical = physical s + physical new - physical old\<rparr>"
  using assms by (cases s)
    (simp add: apply_delta_def add_logical_def add_physical_def sub_logical_def
      sub_physical_def saturating_add_exact saturating_sub_def)

lemma aggregated_add_loop:
  assumes "aggregated d" and "wf_usage d" and "aggregated source"
    and "logical (space d) + logical (space source) \<le> u64_max"
    and "physical (space d) + physical (space source) \<le> u64_max"
    and "old = (case space_at d (ps @ [leaf]) of None \<Rightarrow> default_space | Some s \<Rightarrow> s)"
  shows "aggregated (add_loop (space source) old d ps leaf source) \<and>
    logical old \<le> logical (space d) \<and> physical old \<le> physical (space d) \<and>
    apply_delta (space source) old (space d) =
      \<lparr>logical = logical (space d) + logical (space source) - logical old,
       physical = physical (space d) + physical (space source) - physical old\<rparr>"
  using assms
proof (induction ps arbitrary: d)
  case Nil
  let ?s = "apply_delta (space source) old (space d)"
  obtain d' idx where u: "upsert_entry (set_space d ?s) leaf = (d', idx)" by force
  note s = wf_usage_sorted [OF Nil.prems(2)]
  have r: "space (read_entry d' idx) = old"
    using upsert_read [of "set_space d ?s", OF _ u] s Nil.prems(6)
    by (auto simp: space_at_Cons split: option.splits)
  note rb = read_entry_bounds [OF Nil.prems(1,2) u, unfolded r]
  note eq = apply_delta_exact [OF Nil.prems(4,5), of old]
  have "aggregated (write_entry d' idx source)"
    using Nil.prems(4,5) rb by (intro aggregated_upsert [OF Nil.prems(1,2) u Nil.prems(3)]) (simp_all add: r eq)
  then show ?case using u rb eq by simp
next
  case (Cons c cs)
  let ?s = "apply_delta (space source) old (space d)"
  obtain d' idx where u: "upsert_entry (set_space d ?s) c = (d', idx)" by force
  note s = wf_usage_sorted [OF Cons.prems(2)]
  let ?r = "read_entry d' idx"
  note rb = read_entry_bounds [OF Cons.prems(1,2) u]
  have wf: "wf_usage ?r" using Cons.prems(2) u by (rule wf_upsert_set_space)
  have o: "old = (case space_at ?r (cs @ [leaf]) of None \<Rightarrow> default_space | Some s \<Rightarrow> s)"
    using upsert_read [of "set_space d ?s", OF _ u] s Cons.prems(6)
    by (auto simp: space_at_Cons space_at_default split: option.splits)
  have IH: "aggregated (add_loop (space source) old ?r cs leaf source) \<and>
    logical old \<le> logical (space ?r) \<and> physical old \<le> physical (space ?r) \<and>
    apply_delta (space source) old (space ?r) =
      \<lparr>logical = logical (space ?r) + logical (space source) - logical old,
       physical = physical (space ?r) + physical (space source) - physical old\<rparr>"
    using rb Cons.prems(4,5) by (intro Cons.IH [OF rb(1) wf Cons.prems(3) _ _ o]) auto
  note eq = apply_delta_exact [OF Cons.prems(4,5), of old]
  have "aggregated (write_entry d' idx (add_loop (space source) old ?r cs leaf source))"
    using IH Cons.prems(4,5) rb
    by (intro aggregated_upsert [OF Cons.prems(1,2) u]) (simp_all add: space_add_loop wf eq)
  then show ?case using u rb IH eq by auto
qed


lemma aggregated_replace:
  assumes "aggregated d" and "sorted_keys (entries d)" and "sorted_keys (entries d')"
    and "map_of (entries d) key = Some e"
    and "case x of None \<Rightarrow> map_of (entries d') = (map_of (entries d))(key := None)
         | Some c \<Rightarrow> map_of (entries d') = (map_of (entries d))(key \<mapsto> c) \<and> aggregated c"
    and "logical (space d') + logical r = logical (space d)"
    and "physical (space d') + physical r = physical (space d)"
    and "case x of None \<Rightarrow> space e = r
         | Some c \<Rightarrow> logical (space c) + logical r = logical (space e) \<and>
             physical (space c) + physical r = physical (space e)"
  shows "aggregated d'"
proof -
  let ?m = "map_of (entries d)"
  have fin: "finite (dom ?m)" by (rule finite_dom_map_of)
  note agg = assms(1) [unfolded aggregated_iff [OF assms(2)]]
  note sums = map_sum_None [OF fin, of "\<lambda>e. logical (space e)" key]
    map_sum_None [OF fin, of "\<lambda>e. physical (space e)" key]
  show ?thesis
  proof (cases x)
    case None
    then show ?thesis
      unfolding aggregated_iff [OF assms(3)] using agg assms(4-8) sums by auto
  next
    case (Some c)
    then show ?thesis
      unfolding aggregated_iff [OF assms(3)]
      using agg assms(4-8) map_sum_upd [OF fin, of "\<lambda>e. logical (space e)" key c]
        map_sum_upd [OF fin, of "\<lambda>e. physical (space e)" key c]
      by auto
  qed
qed

lemma aggregated_recursive_remove:
  assumes "aggregated d" and "wf_usage d" and "recursive_remove d p = Some (r, d')"
  shows "aggregated d' \<and> aggregated r \<and>
    logical (space d') + logical (space r) = logical (space d) \<and>
    physical (space d') + physical (space r) = physical (space d)"
  using assms
proof (induction d p arbitrary: r d' rule: recursive_remove.induct)
  case (1 d)
  then show ?case by simp
next
  case (2 d name)
  note s = wf_usage_sorted [OF "2.prems"(2)]
  obtain d1 where re: "remove_entry d name = Some (r, d1)" and d': "d' = sub_space (space r) d1"
    using "2.prems"(3) by (auto split: option.splits)
  have m: "map_of (entries d) name = Some r" "space d1 = space d" "sorted_keys (entries d1)"
    "map_of (entries d1) = (map_of (entries d))(name := None)"
    using remove_entry_spec [OF s, of name] by (simp_all add: re)
  note ch = aggregated_child [OF "2.prems"(1) s m(1)]
  have "aggregated d'"
    using m ch(2,3) by (intro aggregated_replace [OF "2.prems"(1) s, of d' name r None "space r"]) (simp_all add: d')
  then show ?case using m ch by (simp add: d')
next
  case (3 d name n' ns)
  note s = wf_usage_sorted [OF "3.prems"(2)]
  obtain idx c where gm: "get_mut_entry d name = Some idx"
    and rc: "recursive_remove (read_entry d idx) (n' # ns) = Some (r, c)"
    and d': "d' = sub_space (space r) (write_entry d idx c)"
    using "3.prems"(3) by (auto split: option.splits)
  have m: "map_of (entries d) name = Some (read_entry d idx)"
      "sorted_keys (entries (write_entry d idx c))"
      "map_of (entries (write_entry d idx c)) = (map_of (entries d))(name \<mapsto> c)"
    using get_mut_entry_spec [OF s, of name c] by (simp_all add: gm)
  note ch = aggregated_child [OF "3.prems"(1) s m(1)]
  have IH: "aggregated c \<and> aggregated r \<and>
    logical (space c) + logical (space r) = logical (space (read_entry d idx)) \<and>
    physical (space c) + physical (space r) = physical (space (read_entry d idx))"
    by (rule "3.IH" [OF gm ch(1) wf_child [OF "3.prems"(2) m(1)] rc])
  have "aggregated d'"
    using m ch(2,3) IH
    by (intro aggregated_replace [OF "3.prems"(1) s, of d' name "read_entry d idx" "Some c" "space r"])
      (simp_all add: d')
  then show ?case using ch IH by (simp add: d')
qed

lemma space_at_path: "get_path_components d p = Some e \<Longrightarrow> space_at d p = Some (space e)"
  by (simp add: space_at_def)

lemma move_directory:
  assumes "aggregated d" and "wf_usage d" and "recursive_remove d p = Some (r, d1)"
    and "q \<noteq> []" and "add_directory d1 q r = (ok, d2)"
  shows "aggregated d2 \<and> wf_usage d2 \<and> get_path_components d2 q = Some r \<and>
    (get_path_components d1 q = None \<longrightarrow> space d2 = space d)"
proof -
  note rem = aggregated_recursive_remove [OF assms(1-3)]
  have wf: "wf_usage d1" "wf_usage r"
    using recursive_remove_spec [OF assms(2), of p] by (simp_all add: assms(3))
  have q: "q = butlast q @ [last q]" using assms(4) by simp
  define old where "old = (case get_path_components d1 q of None \<Rightarrow> default_space | Some e \<Rightarrow> space e)"
  have old: "old = (case space_at d1 (butlast q @ [last q]) of None \<Rightarrow> default_space | Some s \<Rightarrow> s)"
    using q by (simp add: old_def space_at_def split: option.splits)
  have d2: "d2 = add_loop (space r) old d1 (butlast q) (last q) r"
    using assms(4,5) by (simp add: add_directory_def Let_def old_def)
  have bnd: "logical (space d) \<le> u64_max" "physical (space d) \<le> u64_max"
    using assms(1) by (cases d; simp)+
  have agg: "aggregated d2 \<and> logical old \<le> logical (space d1) \<and> physical old \<le> physical (space d1) \<and>
    apply_delta (space r) old (space d1) =
      \<lparr>logical = logical (space d1) + logical (space r) - logical old,
       physical = physical (space d1) + physical (space r) - physical old\<rparr>"
    using rem bnd unfolding d2
    by (intro aggregated_add_loop [OF _ wf(1) _ _ _ old]) auto
  have "get_path_components d2 q = Some r"
    using get_path_add_loop [OF wf, of "space r" old "butlast q" "last q" "[]"] q by (simp add: d2)
  moreover have "wf_usage d2" using wf by (simp add: d2 wf_add_loop)
  moreover have "space d2 = space d" if "get_path_components d1 q = None"
    using that agg rem by (simp add: d2 space_add_loop wf old_def default_space_def)
  ultimately show ?thesis using agg by simp
qed

section \<open>The path forms\<close>

lemma walk_components_keys:
  assumes "\<forall>c \<in> set cs. to_str (as_os_str c) \<noteq> None"
  shows "walk_components d cs = get_path_components d (map (\<lambda>c. to_str_or_default (as_os_str c)) cs)"
  using assms
  by (induction d cs rule: walk_components.induct)
    (auto simp: to_str_or_default_def get_path_components.simps(2) split: sum.splits)

text \<open>
  The path forms agree with the component forms: for a path that is not the root and
  whose components are UTF-8, \<^verbatim>\<open>update_size\<close> is \<^verbatim>\<open>update_size_iterator\<close> over the component
  names, \<^verbatim>\<open>get_size\<close> reads back the size recorded for those names, and \<^verbatim>\<open>get_path\<close> the node.
  An absolute path has the name \<open>/\<close> as its first component, so it is a different key than the
  relative path to the same directory.
\<close>

lemma path_forms_agree:
  assumes "\<not> is_root_path path" and "\<forall>c \<in> set (components path). to_str (as_os_str c) \<noteq> None"
  shows "update_size d path t = update_size_iterator d (path_keys path) t \<and>
    get_size d path = space_at d (path_keys path) \<and>
    get_path d path = get_path_components d (path_keys path)"
  using assms walk_components_keys [OF assms(2), of d]
  by (simp add: update_size_def update_size_iterator_def get_size_def get_path_def space_at_def
      path_keys_def)

text \<open>Concrete trees for the witnesses: two directories, one nested.\<close>

definition sample_usage :: disk_usage where
  "sample_usage =
     DiskUsage \<lparr>logical = 120, physical = 120\<rparr>
       [(''a'', DiskUsage \<lparr>logical = 100, physical = 100\<rparr>
                 [(''b'', DiskUsage \<lparr>logical = 60, physical = 60\<rparr> [])]),
        (''x'', DiskUsage \<lparr>logical = 20, physical = 20\<rparr> [])]"

lemma sample_usage_ok: "wf_usage sample_usage" "aggregated sample_usage"
  by (simp_all add: sample_usage_def sorted_keys_def child_sum_def u64_max_def)

theorem update_size_iterator_lookup_witness:
  "wf_usage (update_size_iterator sample_usage [''a'', ''c''] (delta_from 5)) \<and>
   space_at (update_size_iterator sample_usage [''a'', ''c''] (delta_from 5)) [''a'', ''c'']
     = Some \<lparr>logical = 5, physical = 5\<rparr>"
proof -
  have s: "space_at sample_usage [''a'', ''c''] = None" by code_simp
  have d: "apply_space_delta (delta_from 5) default_space = \<lparr>logical = 5, physical = 5\<rparr>"
    by (simp add: apply_space_delta_def delta_from_def default_space_def add_logical_def
        add_physical_def saturating_add_def u64_max_def)
  show ?thesis
    using update_size_iterator_lookup
      [OF sample_usage_ok(1), of "[''a'', ''c'']" "delta_from 5" "[''a'', ''c'']"]
    by (simp add: s d)
qed

theorem remove_path_lookup_witness:
  "\<not> is_root_path ''a/b'' \<and> remove_path sample_usage ''a/b'' \<noteq> None \<and>
   (case remove_path sample_usage ''a/b'' of None \<Rightarrow> True
    | Some (r, d') \<Rightarrow> get_path_components sample_usage (path_keys ''a/b'') = Some r \<and> wf_usage d')"
proof -
  have r: "\<not> is_root_path ''a/b''" "remove_path sample_usage ''a/b'' \<noteq> None" by code_simp+
  show ?thesis
    using remove_path_lookup [OF sample_usage_ok(1) r(1)] r by (auto split: option.splits)
qed

section \<open>The type of a tree\<close>

text \<open>
  What the Rust types and the binary searches rely on, for a tree reached by any series of calls:
  every vector is strictly sorted by name, and every size is a 64-bit number. A subtree that
  \<open>add_directory\<close> grafts has itself been built by such calls or was taken out of the tree before.
\<close>

definition fits :: "used_space \<Rightarrow> bool" where
  "fits s \<longleftrightarrow> logical s \<le> u64_max \<and> physical s \<le> u64_max"

definition typed_usage :: "disk_usage \<Rightarrow> bool" where
  "typed_usage d \<longleftrightarrow> wf_usage d \<and> (\<forall>p s. space_at d p = Some s \<longrightarrow> fits s)"

datatype usage_op =
    UpdateSize string space_delta
  | UpdateIterator "string list" space_delta
  | RemovePath string
  | MovePath string "string list"
  | Graft "string list" "usage_op list"
  | Truncate

fun run_op :: "usage_op \<Rightarrow> disk_usage \<Rightarrow> disk_usage" where
  "run_op (UpdateSize path t) d = update_size d path t"
| "run_op (UpdateIterator ks t) d = update_size_iterator d ks t"
| "run_op (RemovePath path) d = (case remove_path d path of None \<Rightarrow> d | Some (_, d') \<Rightarrow> d')"
| "run_op (MovePath path target) d =
     (case remove_path d path of None \<Rightarrow> d | Some (r, d') \<Rightarrow> snd (add_directory d' target r))"
| "run_op (Graft target ops) d = snd (add_directory d target (fold run_op ops default_usage))"
| "run_op Truncate d = truncate_usage d"

lemma fits_default [simp]: "fits default_space"
  by (simp add: fits_def default_space_def)

lemma fits_apply_delta: "fits s \<Longrightarrow> fits (apply_delta a b s)"
  by (auto simp: fits_def apply_delta_def add_logical_def add_physical_def sub_logical_def sub_physical_def
      saturating_sub_def intro: le_trans [OF diff_le_self])

lemma fits_apply_space_delta: "fits s \<Longrightarrow> fits (apply_space_delta t s)"
  by (auto simp: fits_def apply_space_delta_def Let_def add_logical_def add_physical_def sub_logical_def
      sub_physical_def saturating_sub_def intro: le_trans [OF diff_le_self])

lemma fits_minus_space: "fits s \<Longrightarrow> fits (minus_space r s)"
  by (auto simp: fits_def)

lemma typed_fits: "typed_usage d \<Longrightarrow> fits (case space_at d p of None \<Rightarrow> default_space | Some s \<Rightarrow> s)"
  by (auto simp: typed_usage_def split: option.splits)

lemma typed_default [wf_intros]: "typed_usage default_usage"
  by (auto simp: typed_usage_def wf_default space_at_default split: if_splits)

lemma typed_update_iterator [wf_intros]:
  assumes "typed_usage d"
  shows "typed_usage (update_size_iterator d p t)"
proof -
  have wf: "wf_usage d" using assms by (simp add: typed_usage_def)
  note upd = space_at_update_size_iterator [OF wf, of p t]
  have "fits s" if "space_at (update_size_iterator d p t) q = Some s" for q s
  proof (cases "prefix q p")
    case True
    with that upd have "s = apply_space_delta t (case space_at d q of None \<Rightarrow> default_space | Some s \<Rightarrow> s)"
      by simp
    then show ?thesis using typed_fits [OF assms, of q] by (simp add: fits_apply_space_delta)
  next
    case False
    with that upd assms show ?thesis by (auto simp: typed_usage_def)
  qed
  with upd show ?thesis by (simp add: typed_usage_def)
qed

lemma typed_update_size [wf_intros]: "typed_usage d \<Longrightarrow> typed_usage (update_size d path t)"
  using typed_update_iterator [of d "[]" t] typed_update_iterator [of d "path_keys path" t]
  by (simp add: update_size_def update_size_iterator_def)

lemma typed_subtree:
  assumes "typed_usage d" and "get_path_components d p = Some r" and "wf_usage r"
  shows "typed_usage r"
proof -
  have "space_at d (p @ q) = space_at r q" for q
    using assms(2) by (induction p arbitrary: d) (auto simp: space_at_def get_path_components.simps(2) split: sum.splits if_splits)
  with assms(1,3) show ?thesis by (metis typed_usage_def)
qed

lemma typed_remove_path:
  assumes "typed_usage d" and "remove_path d path = Some (r, d')"
  shows "typed_usage r" and "typed_usage d'"
proof -
  have wf: "wf_usage d" using assms(1) by (simp add: typed_usage_def)
  have "recursive_remove d (path_keys path) = Some (r, d')"
    using assms(2) by (simp add: remove_path_def split: if_splits)
  with recursive_remove_spec [OF wf, of "path_keys path"]
  have r: "get_path_components d (path_keys path) = Some r" "wf_usage r" "wf_usage d'"
    and d': "space_at d' q = (if prefix (path_keys path) q then None
        else if prefix q (path_keys path) then map_option (minus_space (space r)) (space_at d q)
        else space_at d q)" for q
    by simp_all
  show "typed_usage r" by (rule typed_subtree [OF assms(1) r(1,2)])
  show "typed_usage d'"
    using r(3) assms(1) by (auto simp: typed_usage_def d' fits_minus_space split: if_splits)
qed

lemma typed_add_directory:
  assumes "typed_usage d" and "typed_usage source"
  shows "typed_usage (snd (add_directory d p source))"
proof (cases p rule: rev_cases)
  case Nil
  with assms show ?thesis by (simp add: add_directory_def)
next
  case (snoc ps leaf)
  have wf: "wf_usage d" "wf_usage source" using assms by (simp_all add: typed_usage_def)
  define old where "old = (case get_path_components d p of None \<Rightarrow> default_space | Some e \<Rightarrow> space e)"
  let ?d' = "add_loop (space source) old d ps leaf source"
  have "fits s" if s: "space_at ?d' q = Some s" for q s
  proof (cases "prefix (ps @ [leaf]) q")
    case True
    then obtain q' where "q = ps @ [leaf] @ q'" by (auto simp: prefix_def)
    with s get_path_add_loop [OF wf, of "space source" old ps leaf q'] have "space_at source q' = Some s"
      by (simp add: space_at_def)
    with assms(2) show ?thesis by (auto simp: typed_usage_def)
  next
    case False
    show ?thesis
    proof (cases "prefix q ps")
      case True
      with s space_at_add_loop [OF wf False, of "space source" old] typed_fits [OF assms(1), of q]
      show ?thesis by (auto intro: fits_apply_delta)
    next
      case False
      with \<open>\<not> prefix (ps @ [leaf]) q\<close> s space_at_add_loop [OF wf, of ps leaf q "space source" old] assms(1)
      show ?thesis by (auto simp: typed_usage_def)
    qed
  qed
  then have "typed_usage ?d'" using wf by (simp add: typed_usage_def wf_add_loop)
  then show ?thesis using snoc by (simp add: add_directory_def Let_def old_def)
qed

lemma typed_truncate: "typed_usage (truncate_usage d)"
proof -
  have "space_at (truncate_usage d) p = Some s \<Longrightarrow> s = space (truncate_usage d)" for p s
    by (cases p) (auto simp: truncate_usage_def space_at_Cons)
  moreover have "wf_usage (truncate_usage d)" "fits (space (truncate_usage d))"
    by (simp_all add: truncate_usage_def fits_def)
  ultimately show ?thesis unfolding typed_usage_def by metis
qed

lemma typed_run_op: "typed_usage d \<Longrightarrow> typed_usage (run_op op d)"
proof (induction op arbitrary: d)
  case (Graft target ops)
  have "typed_usage e \<Longrightarrow> typed_usage (fold run_op xs e)" if "set xs \<subseteq> set ops" for xs e
    using that Graft.IH by (induction xs arbitrary: e) auto
  then have "typed_usage (fold run_op ops default_usage)" by (simp add: typed_default)
  with Graft.prems show ?case by (simp add: typed_add_directory)
qed (auto simp: typed_update_size typed_update_iterator typed_truncate
    split: option.splits intro: typed_add_directory dest: typed_remove_path)

text \<open>
  C5. Every tree that calls of the public operations build from the empty one, in any order and with
  any arguments, is well typed: the entry vectors are sorted without duplicates at every level, so
  the binary searches are sound, and every recorded size is a 64-bit value, whatever deltas were
  applied.
\<close>

theorem operations_keep_type:
  "wf_usage (fold run_op ops default_usage) \<and>
   (\<forall>p s. space_at (fold run_op ops default_usage) p = Some s \<longrightarrow> logical s < 2 ^ 64 \<and> physical s < 2 ^ 64)"
proof -
  have "typed_usage d \<Longrightarrow> typed_usage (fold run_op ops d)" for d
    by (induction ops arbitrary: d) (auto intro: typed_run_op)
  then have t: "typed_usage (fold run_op ops default_usage)" by (simp add: typed_default)
  then have "fits s" if "space_at (fold run_op ops default_usage) p = Some s" for p s
    using that by (auto simp: typed_usage_def)
  moreover have "n \<le> u64_max \<longleftrightarrow> n < 2 ^ 64" for n by (auto simp: u64_max_def)
  ultimately show ?thesis using t by (auto simp: typed_usage_def fits_def)
qed

theorem operations_keep_type_witness:
  "space_at (fold run_op [UpdateIterator [''a''] (delta_from 5)] default_usage) [''a''] = Some \<lparr>logical = 5, physical = 5\<rparr> \<and>
   (5::nat) < 2 ^ 64"
proof -
  have "space_at (fold run_op [UpdateIterator [''a''] (delta_from 5)] default_usage) [''a''] =
      Some \<lparr>logical = 5, physical = 5\<rparr>"
    by (simp add: space_at_update_size_iterator [OF wf_default, THEN conjunct2] space_at_default delta_from_def
        apply_space_delta_def default_space_def add_logical_def add_physical_def saturating_add_def u64_max_def)
  with operations_keep_type [of "[UpdateIterator [''a''] (delta_from 5)]"] show ?thesis by fastforce
qed

end
