(* ===== verification/CapPath.thy ===== *)
theory CapPath
  imports RustPath
begin

text \<open>
  Path normalisation in front of the sandboxed filesystem
  (\<^verbatim>\<open>CapFilesystem::resolve_path\<close> and \<^verbatim>\<open>relative_path\<close> of \<^verbatim>\<open>server/filesystem/cap/mod.rs\<close>)
  and the reduction of a set of modified paths to the directories that must be rescanned
  (\<^verbatim>\<open>deduplicate_paths\<close> of \<^verbatim>\<open>utils.rs\<close>). A \<^verbatim>\<open>PathBuf\<close> is handled through its component
  list, which is what its equality, order, \<^verbatim>\<open>push\<close>, \<^verbatim>\<open>pop\<close> and \<^verbatim>\<open>starts_with\<close> look at.
\<close>

section \<open>Model\<close>

type_synonym path = "component list"

text \<open>\<^verbatim>\<open>PathBuf::push\<close>: an absolute component replaces the buffer.\<close>

definition push_component :: "path \<Rightarrow> component \<Rightarrow> path" where
  "push_component result c = (if c = RootDir then [RootDir] else result @ [c])"

definition next_back :: "path \<Rightarrow> component option" where
  "next_back p = (if p = [] then None else Some (last p))"

definition resolve_step :: "path \<Rightarrow> component \<Rightarrow> path" where
  "resolve_step result c =
     (case c of
        ParentDir \<Rightarrow>
          if result \<noteq> [] \<and> next_back result \<noteq> Some RootDir then butlast result else result
      | CurDir \<Rightarrow> result
      | _ \<Rightarrow> push_component result c)"

definition resolve_path :: "path \<Rightarrow> path" where
  "resolve_path p = foldl resolve_step [] p"

definition strip_prefix :: "path \<Rightarrow> path \<Rightarrow> path option" where
  "strip_prefix base p = (if prefix base p then Some (drop (length base) p) else None)"

definition relative_path :: "path \<Rightarrow> path \<Rightarrow> path" where
  "relative_path base_path p =
     resolve_path
       (case strip_prefix base_path p of
          Some q \<Rightarrow> q
        | None \<Rightarrow> (case strip_prefix [RootDir] p of Some q \<Rightarrow> q | None \<Rightarrow> p))"

text \<open>
  The order of components is the derived one of \<^verbatim>\<open>std::path::Component\<close>: by constructor, then
  by name; paths are ordered lexicographically over it.
\<close>

fun component_rank :: "component \<Rightarrow> nat \<times> string" where
  "component_rank RootDir = (0, '''')"
| "component_rank CurDir = (1, '''')"
| "component_rank ParentDir = (2, '''')"
| "component_rank (Normal s) = (3, s)"

definition component_less :: "component \<Rightarrow> component \<Rightarrow> bool" where
  "component_less a b \<longleftrightarrow>
     fst (component_rank a) < fst (component_rank b) \<or>
     fst (component_rank a) = fst (component_rank b) \<and> snd (component_rank a) < snd (component_rank b)"

lemma component_rank_inj: "component_rank a = component_rank b \<Longrightarrow> a = b"
  by (cases a; cases b) auto

instantiation component :: linorder
begin

definition less_component :: "component \<Rightarrow> component \<Rightarrow> bool" where
  "a < b \<longleftrightarrow> component_less a b"

definition less_eq_component :: "component \<Rightarrow> component \<Rightarrow> bool" where
  "a \<le> b \<longleftrightarrow> a = b \<or> component_less a b"

instance
proof
  fix a b c :: component
  show "a < b \<longleftrightarrow> a \<le> b \<and> \<not> b \<le> a"
    by (auto simp: less_component_def less_eq_component_def component_less_def)
  show "a \<le> a" by (simp add: less_eq_component_def)
  show "a \<le> b \<Longrightarrow> b \<le> c \<Longrightarrow> a \<le> c"
    by (auto simp: less_eq_component_def component_less_def)
  show "a \<le> b \<Longrightarrow> b \<le> a \<Longrightarrow> a = b"
    by (auto simp: less_eq_component_def component_less_def)
  have "component_less a b \<or> component_rank a = component_rank b \<or> component_less b a"
    by (auto simp: component_less_def prod_eq_iff)
  then show "a \<le> b \<or> b \<le> a"
    by (auto simp: less_eq_component_def dest: component_rank_inj)
qed

end

fun dedup :: "'a list \<Rightarrow> 'a list" where
  "dedup [] = []"
| "dedup [x] = [x]"
| "dedup (x # y # zs) = (if x = y then dedup (y # zs) else x # dedup (y # zs))"

fun dedup_loop :: "path list \<Rightarrow> path list \<Rightarrow> path list" where
  "dedup_loop unique [] = unique"
| "dedup_loop unique (p # ps) =
     (if unique \<noteq> [] \<and> prefix (last unique) p then dedup_loop unique ps
      else dedup_loop (unique @ [p]) ps)"

definition deduplicate_paths :: "path list \<Rightarrow> path list" where
  "deduplicate_paths paths = (if paths = [] then [] else dedup_loop [] (dedup (sort paths)))"


section \<open>Normalisation stays inside the base directory\<close>

definition is_normal :: "component \<Rightarrow> bool" where
  "is_normal c \<longleftrightarrow> (\<exists>s. c = Normal s)"

lemma is_normal_Normal [simp]: "is_normal (Normal s)"
  by (simp add: is_normal_def)

lemma resolve_step_normal:
  assumes "\<forall>c \<in> set r. is_normal c" and "c \<noteq> RootDir"
  shows "\<forall>c \<in> set (resolve_step r c). is_normal c"
  using assms
  by (cases c) (auto simp: resolve_step_def push_component_def dest: in_set_butlastD)

lemma resolve_fold_normal:
  "\<forall>c \<in> set r. is_normal c \<Longrightarrow> RootDir \<notin> set p \<Longrightarrow> \<forall>c \<in> set (foldl resolve_step r p). is_normal c"
proof (induction p arbitrary: r)
  case (Cons c cs)
  then have "\<forall>c \<in> set (resolve_step r c). is_normal c"
    by (intro resolve_step_normal) auto
  with Cons show ?case by simp
qed simp

lemma resolve_fold_append: "\<forall>c \<in> set p. is_normal c \<Longrightarrow> foldl resolve_step r p = r @ p"
  by (induction p arbitrary: r) (auto simp: is_normal_def resolve_step_def push_component_def)

lemma parse_segments_no_root: "RootDir \<notin> set (parse_segments ss)"
  by (induction ss) auto

lemma components_root_only_first:
  "components p = RootDir # cs \<Longrightarrow> RootDir \<notin> set cs"
  "RootDir \<in> set (components p) \<Longrightarrow> \<exists>cs. components p = RootDir # cs"
  using parse_segments_no_root
  by (auto simp: components_def split: list.splits if_splits)

lemma relative_path_arg:
  assumes "\<exists>bs. base_path = RootDir # bs"
  shows "RootDir \<notin> set (case strip_prefix base_path (components p) of
      Some q \<Rightarrow> q
    | None \<Rightarrow> (case strip_prefix [RootDir] (components p) of Some q \<Rightarrow> q | None \<Rightarrow> components p))"
proof (cases "RootDir \<in> set (components p)")
  case False
  then show ?thesis
    by (auto simp: strip_prefix_def dest: in_set_dropD split: option.splits)
next
  case True
  then obtain cs where cs: "components p = RootDir # cs" "RootDir \<notin> set cs"
    using components_root_only_first by blast
  with assms show ?thesis
    by (auto simp: strip_prefix_def dest: in_set_dropD split: option.splits)
qed

text \<open>
  C10. Whatever path a client sends, the path handed to the sandboxed directory
  (\<^verbatim>\<open>CapFilesystem::relative_path\<close>, with an absolute base directory) consists of plain names
  only: no \<open>..\<close>, no \<open>.\<close>, no root component is left, so it cannot climb above the base.
  Normalising it again changes nothing.
\<close>

theorem relative_path_confined:
  assumes "\<exists>bs. base_path = RootDir # bs"
  shows "(\<forall>c \<in> set (relative_path base_path (components p)). is_normal c) \<and>
    resolve_path (relative_path base_path (components p)) = relative_path base_path (components p)"
proof (rule conjI)
  show normal: "\<forall>c \<in> set (relative_path base_path (components p)). is_normal c"
    unfolding relative_path_def resolve_path_def
    by (rule resolve_fold_normal [OF _ relative_path_arg [OF assms]]) simp
  show "resolve_path (relative_path base_path (components p)) = relative_path base_path (components p)"
    using resolve_fold_append [OF normal, of "[]"] by (simp add: resolve_path_def)
qed

theorem relative_path_confined_witness:
  "relative_path [RootDir, Normal ''srv''] (components ''/../etc/passwd'') = [Normal ''etc'', Normal ''passwd''] \<and>
   list_all is_normal (relative_path [RootDir, Normal ''srv''] (components ''/../etc/passwd''))"
proof -
  have "relative_path [RootDir, Normal ''srv''] (components ''/../etc/passwd'') = [Normal ''etc'', Normal ''passwd'']"
    by code_simp
  then show ?thesis
    using relative_path_confined [of "[RootDir, Normal ''srv'']" "''/../etc/passwd''"]
    by (auto simp: list_all_iff)
qed


section \<open>Directories to rescan\<close>

lemma lex_between:
  fixes u v w :: "'a::linorder list"
  shows "u \<le> v \<Longrightarrow> v \<le> w \<Longrightarrow> prefix u w \<Longrightarrow> prefix u v"
proof (induction u arbitrary: v w)
  case Nil
  then show ?case by simp
next
  case (Cons a u)
  obtain w' where w: "w = a # w'" "prefix u w'" using Cons.prems(3) by (cases w) auto
  obtain b v' where v: "v = b # v'" using Cons.prems(1) by (cases v) auto
  from Cons.prems(1,2) v w have "b = a" "u \<le> v'" "v' \<le> w'" by auto
  with Cons.IH [OF _ _ w(2)] v show ?case by simp
qed

lemma set_dedup [simp]: "set (dedup xs) = set xs"
  by (induction xs rule: dedup.induct) auto

lemma strict_sorted_dedup: "sorted xs \<Longrightarrow> sorted_wrt (<) (dedup xs)"
  by (induction xs rule: dedup.induct) (auto simp: order.strict_iff_order dest: order.antisym)

definition antichain :: "path set \<Rightarrow> bool" where
  "antichain A \<longleftrightarrow> (\<forall>r \<in> A. \<forall>s \<in> A. prefix r s \<longrightarrow> r = s)"

lemma prefix_imp_le: "prefix u v \<Longrightarrow> u \<le> v"
  for u v :: "'a::linorder list"
proof (induction u arbitrary: v)
  case (Cons a u)
  then show ?case by (cases v) auto
qed simp

lemma dedup_loop_antichain_step:
  assumes "sorted_wrt (<) (us @ p # ps)" and "antichain (set us)"
    and "\<not> (us \<noteq> [] \<and> prefix (last us) p)"
  shows "antichain (set (us @ [p]))"
proof -
  have "\<not> prefix r p" if r: "r \<in> set us" for r
  proof
    assume pre: "prefix r p"
    from r have "us \<noteq> []" by auto
    then obtain vs l where us: "us = vs @ [l]" by (cases us rule: rev_cases) auto
    have l: "l \<le> p" "\<not> prefix l p" using assms(1,3) us by (auto simp: sorted_wrt_append)
    have "r \<le> l" using r assms(1) us by (auto simp: sorted_wrt_append)
    then have "prefix r l" using l(1) pre by (rule lex_between)
    then have "r = l" using assms(2) r us by (auto simp: antichain_def)
    with l(2) pre show False by simp
  qed
  moreover have "\<not> prefix p r" if "r \<in> set us" for r
  proof
    assume "prefix p r"
    then have "p \<le> r" by (rule prefix_imp_le)
    moreover have "r < p" using that assms(1) by (auto simp: sorted_wrt_append)
    ultimately show False by simp
  qed
  ultimately show ?thesis using assms(2) by (auto simp: antichain_def)
qed

lemma dedup_loop_spec:
  assumes "sorted_wrt (<) (us @ ps)" and "antichain (set us)"
  shows "antichain (set (dedup_loop us ps)) \<and> sorted_wrt (<) (dedup_loop us ps) \<and>
     set us \<subseteq> set (dedup_loop us ps) \<and> set (dedup_loop us ps) \<subseteq> set us \<union> set ps \<and>
     (\<forall>p \<in> set ps. \<exists>r \<in> set (dedup_loop us ps). prefix r p)"
  using assms
proof (induction us ps rule: dedup_loop.induct)
  case (1 us)
  then show ?case by simp
next
  case (2 us p ps)
  show ?case
  proof (cases "us \<noteq> [] \<and> prefix (last us) p")
    case True
    have "sorted_wrt (<) (us @ ps)" using "2.prems"(1) by (simp add: sorted_wrt_append)
    with "2.IH"(1) [OF True _ "2.prems"(2)] True show ?thesis
      by (auto intro!: bexI [of _ "last us"])
  next
    case False
    have "antichain (set (us @ [p]))"
      by (rule dedup_loop_antichain_step [OF "2.prems" False])
    with "2.IH"(2) [OF False] "2.prems"(1) False show ?thesis by auto
  qed
qed

lemma deduplicate_paths_spec:
  "set (deduplicate_paths paths) \<subseteq> set paths \<and>
   (\<forall>p \<in> set paths. \<exists>r \<in> set (deduplicate_paths paths). prefix r p) \<and>
   (\<forall>r \<in> set (deduplicate_paths paths). \<forall>s \<in> set (deduplicate_paths paths). prefix r s \<longrightarrow> r = s) \<and>
   sorted_wrt (<) (deduplicate_paths paths)"
  using dedup_loop_spec [of "[]" "dedup (sort paths)"] strict_sorted_dedup [of "sort paths"]
  by (auto simp: deduplicate_paths_def antichain_def)

text \<open>
  \<^verbatim>\<open>deduplicate_paths\<close> returns, in strictly increasing order, some of the given paths
  such that every given path lies under one of them and none of them lies under another:
  rescanning these subtrees covers every modified path and visits none twice.
\<close>

lemma deduplicate_paths_cover:
  "set (deduplicate_paths paths) \<subseteq> set paths \<and>
   (\<forall>p \<in> set paths. \<exists>r \<in> set (deduplicate_paths paths). prefix r p) \<and>
   (\<forall>r \<in> set (deduplicate_paths paths). \<forall>s \<in> set (deduplicate_paths paths). prefix r s \<longrightarrow> r = s) \<and>
   sorted_wrt (<) (deduplicate_paths paths)"
  by (rule deduplicate_paths_spec)

end
