(* ===== verification/Accounting.thy ===== *)
theory Accounting
  imports DiskUsage CapPath
begin

text \<open>
  Disk accounting of a server's filesystem (\<^verbatim>\<open>server/filesystem/mod.rs\<close>): the cached totals,
  the limit check \<^verbatim>\<open>try_update_atomics\<close>, the \<^verbatim>\<open>allocate_in_path\<close> family, and the operations
  that move bytes (\<^verbatim>\<open>truncate_path\<close>, \<^verbatim>\<open>rename_path\<close>, \<^verbatim>\<open>truncate_root\<close>). The system calls of
  the sandboxed directory are parameters (the record \<open>fs_calls\<close>): each returns an error or a
  result. The lemmas show that the limit holds for every sequence and every interleaving of
  checked allocations, and that the cached totals agree with the root of the directory tree.
\<close>

section \<open>Model\<close>

record fs_state =
  disk_limit :: int
  delta_cached :: int
  cached_logical :: nat
  cached_physical :: nat
  usage :: disk_usage
  published :: nat

definition get_physical_cached_size :: "fs_state \<Rightarrow> nat" where
  "get_physical_cached_size st = cached_physical st"

definition update_disk_limit :: "fs_state \<Rightarrow> nat \<Rightarrow> fs_state" where
  "update_disk_limit st limit = st\<lparr>disk_limit := as_i64 limit\<rparr>"

definition publish_disk_usage :: "nat \<Rightarrow> fs_state \<Rightarrow> fs_state" where
  "publish_disk_usage disk_bytes st =
     (if published st = disk_bytes then st else st\<lparr>published := disk_bytes\<rparr>)"

text \<open>
  The atomic updates of \<^verbatim>\<open>try_update_atomics\<close>, in program order. The first is one
  compare-and-swap on the physical total and may refuse.
\<close>

definition reserve_physical :: "fs_state \<Rightarrow> int \<Rightarrow> bool \<Rightarrow> fs_state option" where
  "reserve_physical st d ignorant =
     (if 0 < d then
        let delta_u64 = as_u64 d
        in if \<not> ignorant \<and> disk_limit st \<noteq> 0 then
             let limit = as_u64 (disk_limit st)
             in if limit < wrapping_add (cached_physical st) delta_u64 then None
                else Some (st\<lparr>cached_physical := wrapping_add (cached_physical st) delta_u64\<rparr>)
           else Some (st\<lparr>cached_physical := wrapping_add (cached_physical st) delta_u64\<rparr>)
      else if d < 0 then
        Some (st\<lparr>cached_physical := saturating_sub (cached_physical st) (nat \<bar>d\<bar>)\<rparr>)
      else Some st)"

definition update_logical :: "fs_state \<Rightarrow> int \<Rightarrow> fs_state" where
  "update_logical st d =
     (if 0 < d then st\<lparr>cached_logical := wrapping_add (cached_logical st) (as_u64 d)\<rparr>
      else if d < 0 then st\<lparr>cached_logical := saturating_sub (cached_logical st) (nat \<bar>d\<bar>)\<rparr>
      else st)"

definition add_delta_cached :: "fs_state \<Rightarrow> int \<Rightarrow> fs_state" where
  "add_delta_cached st d = st\<lparr>delta_cached := wrap_i64 (delta_cached st + d)\<rparr>"

definition try_update_atomics :: "fs_state \<Rightarrow> space_delta \<Rightarrow> bool \<Rightarrow> bool \<times> fs_state" where
  "try_update_atomics st delta ignorant =
     (if d_logical delta = 0 \<and> d_physical delta = 0 then (True, st)
      else case reserve_physical st (d_physical delta) ignorant of
             None \<Rightarrow> (False, st)
           | Some st1 \<Rightarrow>
               let st2 = update_logical st1 (d_logical delta);
                   st3 = add_delta_cached st2 (d_logical delta)
               in (True, publish_disk_usage (get_physical_cached_size st3) st3))"

definition allocate_in_path :: "fs_state \<Rightarrow> string \<Rightarrow> int \<Rightarrow> bool \<Rightarrow> bool \<times> fs_state" where
  "allocate_in_path st path delta ignorant =
     (case try_update_atomics st (delta_from delta) ignorant of
        (False, st1) \<Rightarrow> (False, st1)
      | (True, st1) \<Rightarrow> (True, st1\<lparr>usage := update_size (usage st1) path (delta_from delta)\<rparr>))"

definition allocate_in_path_iterator ::
    "fs_state \<Rightarrow> string list \<Rightarrow> int \<Rightarrow> bool \<Rightarrow> bool \<times> fs_state" where
  "allocate_in_path_iterator st path delta ignorant =
     (case try_update_atomics st (delta_from delta) ignorant of
        (False, st1) \<Rightarrow> (False, st1)
      | (True, st1) \<Rightarrow>
          (True, st1\<lparr>usage := update_size_iterator (usage st1) path (delta_from delta)\<rparr>))"

text \<open>The asynchronous variants differ only in how they wait for the lock.\<close>

definition async_allocate_in_path :: "fs_state \<Rightarrow> string \<Rightarrow> int \<Rightarrow> bool \<Rightarrow> bool \<times> fs_state" where
  "async_allocate_in_path = allocate_in_path"

definition async_allocate_in_path_iterator ::
    "fs_state \<Rightarrow> string list \<Rightarrow> int \<Rightarrow> bool \<Rightarrow> bool \<times> fs_state" where
  "async_allocate_in_path_iterator = allocate_in_path_iterator"

subsection \<open>Operations on files and directories\<close>

datatype fs_error = IoErr io_error | Anyhow string

record metadata =
  is_dir :: bool
  len :: nat

text \<open>What the sandboxed directory answers to each system call of one operation.\<close>

record fs_calls =
  sys_symlink_metadata :: "path \<Rightarrow> io_error + metadata"
  sys_metadata :: "path \<Rightarrow> io_error + metadata"
  sys_remove_dir_all :: "path \<Rightarrow> io_error + unit"
  sys_remove_file :: "path \<Rightarrow> io_error + unit"
  sys_create_dir_all :: "path \<Rightarrow> io_error + unit"
  sys_canonicalize :: "path \<Rightarrow> io_error + path"
  sys_rename :: "path \<Rightarrow> path \<Rightarrow> io_error + unit"

definition parent :: "path \<Rightarrow> path option" where
  "parent p = (if p = [] then None else Some (butlast p))"

definition file_name :: "path \<Rightarrow> string option" where
  "file_name p = (if p = [] then None else case last p of Normal s \<Rightarrow> Some s | _ \<Rightarrow> None)"

text \<open>The text of a \<^verbatim>\<open>PathBuf\<close> built by pushing names one after the other.\<close>

definition path_string :: "path \<Rightarrow> string" where
  "path_string p = join_slash (map as_os_str p)"

definition truncate_path ::
    "fs_calls \<Rightarrow> path \<Rightarrow> fs_state \<Rightarrow> string \<Rightarrow> (fs_error + unit) \<times> fs_state" where
  "truncate_path io base_path st raw =
     (let path = relative_path base_path (components raw) in
      case sys_symlink_metadata io path of
        Inl e \<Rightarrow> (Inl (IoErr e), st)
      | Inr m \<Rightarrow>
          if is_dir m then
            (case sys_remove_dir_all io path of
               Inl e \<Rightarrow> (Inl (IoErr e), st)
             | Inr _ \<Rightarrow>
                 (case remove_path (usage st) (path_string path) of
                    None \<Rightarrow> (Inr (), st)
                  | Some (removed, d) \<Rightarrow>
                      (Inr (), snd (try_update_atomics (st\<lparr>usage := d\<rparr>)
                         \<lparr>d_logical = wrap_i64 (- as_i64 (logical (space removed))),
                          d_physical = wrap_i64 (- as_i64 (physical (space removed)))\<rparr> False))))
          else
            let sz = as_i64 (len m) in
            (case sys_remove_file io path of
               Inl e \<Rightarrow> (Inl (IoErr e), st)
             | Inr _ \<Rightarrow>
                 (case parent path of
                    None \<Rightarrow> (Inr (), st)
                  | Some p \<Rightarrow>
                      (Inr (), snd (async_allocate_in_path st (path_string p) (wrap_i64 (- sz)) False)))))"

definition ok :: "'e + 'a \<Rightarrow> 'a option" where
  "ok r = (case r of Inl _ \<Rightarrow> None | Inr v \<Rightarrow> Some v)"

definition unwrap_or :: "'a \<Rightarrow> 'e + 'a \<Rightarrow> 'a" where
  "unwrap_or d r = (case r of Inl _ \<Rightarrow> d | Inr v \<Rightarrow> v)"

text \<open>The bookkeeping of \<^verbatim>\<open>rename_path\<close> once the rename itself has succeeded.\<close>

definition rename_directory :: "fs_state \<Rightarrow> path \<Rightarrow> path \<Rightarrow> fs_state" where
  "rename_directory st old_path abs_new_path =
     (case remove_path (usage st) (path_string old_path) of
        None \<Rightarrow> st
      | Some (removed, d) \<Rightarrow>
          st\<lparr>usage := snd (add_directory d (map (to_string_lossy \<circ> as_os_str) abs_new_path) removed)\<rparr>)"

definition rename_file :: "fs_state \<Rightarrow> path \<Rightarrow> path \<Rightarrow> nat \<Rightarrow> nat option \<Rightarrow> fs_state" where
  "rename_file st old_parent new_parent old_len new_len =
     (let sz = as_i64 old_len;
          st1 = snd (async_allocate_in_path st (path_string old_parent) (wrap_i64 (- sz)) True)
      in case new_len of
           Some n \<Rightarrow>
             let new_size = as_i64 n;
                 size_delta = wrap_i64 (new_size - sz)
             in snd (async_allocate_in_path st1 (path_string new_parent) size_delta True)
         | None \<Rightarrow> snd (async_allocate_in_path st1 (path_string new_parent) sz True))"

definition rename_path ::
    "fs_calls \<Rightarrow> path \<Rightarrow> fs_state \<Rightarrow> string \<Rightarrow> string \<Rightarrow> (fs_error + unit) \<times> fs_state" where
  "rename_path io base_path st old_raw new_raw =
     (let old_path = relative_path base_path (components old_raw);
          new_path = relative_path base_path (components new_raw)
      in case (case parent new_path of None \<Rightarrow> Inr () | Some p \<Rightarrow> sys_create_dir_all io p) of
           Inl e \<Rightarrow> (Inl (IoErr e), st)
         | Inr _ \<Rightarrow>
      (case sys_metadata io old_path of
         Inl e \<Rightarrow> (Inl (IoErr e), st)
       | Inr old_metadata \<Rightarrow>
      (let new_metadata = ok (sys_metadata io new_path) in
       case parent old_path of
         None \<Rightarrow> (Inl (Anyhow ''failed to get old path parent''), st)
       | Some old_p \<Rightarrow>
      (let old_parent = unwrap_or [] (sys_canonicalize io old_p) in
       case parent new_path of
         None \<Rightarrow> (Inl (Anyhow ''failed to get new path parent''), st)
       | Some new_p \<Rightarrow>
      (let new_parent = unwrap_or [] (sys_canonicalize io new_p) in
       case file_name new_path of
         None \<Rightarrow> (Inl (Anyhow ''failed to get new path file name''), st)
       | Some name \<Rightarrow>
      (case sys_rename io old_path new_path of
         Inl e \<Rightarrow> (Inl (IoErr e), st)
       | Inr _ \<Rightarrow>
          (Inr (), if is_dir old_metadata then rename_directory st old_path (new_parent @ [Normal name])
                   else rename_file st old_parent new_parent (len old_metadata)
                          (map_option len new_metadata))))))))"

text \<open>
  \<^verbatim>\<open>truncate_root\<close> resets the books first and then deletes the directory entries one by one;
  \<open>entries\<close> is what the directory listing yields (an error ends the loop silently, as the
  \<^verbatim>\<open>while let Some(Ok(..))\<close> does).
\<close>

fun truncate_entries :: "fs_calls \<Rightarrow> (io_error + (bool \<times> path)) list \<Rightarrow> io_error + unit" where
  "truncate_entries io [] = Inr ()"
| "truncate_entries io (Inl e # es) = Inr ()"
| "truncate_entries io (Inr (dir, p) # es) =
     (case (if dir then sys_remove_dir_all io p else sys_remove_file io p) of
        Inl e \<Rightarrow> Inl e
      | Inr _ \<Rightarrow> truncate_entries io es)"

definition truncate_root ::
    "fs_calls \<Rightarrow> fs_state \<Rightarrow> io_error + (io_error + (bool \<times> path)) list \<Rightarrow> (io_error + unit) \<times> fs_state" where
  "truncate_root io st listing =
     (let st1 = publish_disk_usage 0
                  (st\<lparr>usage := truncate_usage (usage st), cached_logical := 0, cached_physical := 0\<rparr>)
      in case listing of
           Inl e \<Rightarrow> (Inl e, st1)
         | Inr es \<Rightarrow> (truncate_entries io es, st1))"


section \<open>Cached totals and the root of the tree\<close>

definition cached :: "fs_state \<Rightarrow> used_space" where
  "cached st = \<lparr>logical = cached_logical st, physical = cached_physical st\<rparr>"

definition synced :: "fs_state \<Rightarrow> bool" where
  "synced st \<longleftrightarrow> wf_usage (usage st) \<and> cached st = space (usage st) \<and> fits (cached st)"

definition delta_fits :: "space_delta \<Rightarrow> used_space \<Rightarrow> bool" where
  "delta_fits t s \<longleftrightarrow> is_i64 (d_logical t) \<and> is_i64 (d_physical t) \<and>
     int (logical s) + d_logical t \<le> int u64_max \<and> int (physical s) + d_physical t \<le> int u64_max"

lemma used_space_eqI: "logical a = logical b \<Longrightarrow> physical a = physical b \<Longrightarrow> a = b" for a b :: used_space
  by simp

lemma cached_sel [simp]:
  "logical (cached st) = cached_logical st" "physical (cached st) = cached_physical st"
  by (simp_all add: cached_def)

lemma as_u64_i64: "is_i64 d \<Longrightarrow> 0 \<le> d \<Longrightarrow> as_u64 d = nat d"
  by (simp add: as_u64_exact is_i64_def)

lemma apply_space_delta_sel:
  assumes "fits s"
  shows "logical (apply_space_delta t s) =
     (if 0 \<le> d_logical t then min (logical s + nat (d_logical t)) u64_max
      else logical s - nat (- d_logical t))"
    and "physical (apply_space_delta t s) =
     (if 0 \<le> d_physical t then min (physical s + nat (d_physical t)) u64_max
      else physical s - nat (- d_physical t))"
  by (simp_all add: apply_space_delta_def Let_def add_logical_def sub_logical_def add_physical_def
      sub_physical_def saturating_add_def saturating_sub_def)

lemma publish_sel [simp]:
  "usage (publish_disk_usage n st) = usage st"
  "disk_limit (publish_disk_usage n st) = disk_limit st"
  "cached (publish_disk_usage n st) = cached st"
  "cached_physical (publish_disk_usage n st) = cached_physical st"
  "cached_logical (publish_disk_usage n st) = cached_logical st"
  "published (publish_disk_usage n st) = n"
  by (simp_all add: publish_disk_usage_def cached_def)

lemma add_delta_cached_sel [simp]:
  "usage (add_delta_cached st d) = usage st"
  "disk_limit (add_delta_cached st d) = disk_limit st"
  "cached (add_delta_cached st d) = cached st"
  "cached_physical (add_delta_cached st d) = cached_physical st"
  "cached_logical (add_delta_cached st d) = cached_logical st"
  by (simp_all add: add_delta_cached_def cached_def)

lemma update_logical_sel [simp]:
  "usage (update_logical st d) = usage st"
  "disk_limit (update_logical st d) = disk_limit st"
  "cached_physical (update_logical st d) = cached_physical st"
  by (simp_all add: update_logical_def)

lemma reserve_physical_sel:
  assumes "reserve_physical st d ignorant = Some st'"
  shows "usage st' = usage st" and "disk_limit st' = disk_limit st"
    and "cached_logical st' = cached_logical st"
  using assms by (auto simp: reserve_physical_def Let_def split: if_splits)

lemma reserve_physical_effect:
  assumes "reserve_physical st d ignorant = Some st'" and "is_i64 d"
    and "int (cached_physical st) + d \<le> int u64_max"
  shows "cached_physical st' =
     (if 0 \<le> d then cached_physical st + nat d else cached_physical st - nat (- d))"
  using assms
  by (auto simp: reserve_physical_def Let_def as_u64_i64 wrapping_add_exact saturating_sub_def
      split: if_splits)

lemma update_logical_effect:
  assumes "is_i64 d" and "int (cached_logical st) + d \<le> int u64_max"
  shows "cached_logical (update_logical st d) =
     (if 0 \<le> d then cached_logical st + nat d else cached_logical st - nat (- d))"
  using assms
  by (auto simp: update_logical_def Let_def as_u64_i64 wrapping_add_exact saturating_sub_def)

lemma try_update_atomics_fail: "try_update_atomics st t ignorant = (False, st') \<Longrightarrow> st' = st"
  by (auto simp: try_update_atomics_def Let_def split: if_splits option.splits)

lemma try_update_atomics_sel:
  assumes "try_update_atomics st t ignorant = (b, st')"
  shows "usage st' = usage st" and "disk_limit st' = disk_limit st"
  using assms reserve_physical_sel
  by (auto simp: try_update_atomics_def Let_def split: if_splits option.splits)

lemma try_update_atomics_effect:
  assumes "try_update_atomics st t ignorant = (True, st')" and "delta_fits t (cached st)"
    and "fits (cached st)"
  shows "cached st' = apply_space_delta t (cached st)"
proof (cases "d_logical t = 0 \<and> d_physical t = 0")
  case True
  with assms show ?thesis
    by (auto simp: try_update_atomics_def apply_space_delta_sel fits_def intro!: used_space_eqI)
next
  case False
  with assms(1) obtain st1 where
    r: "reserve_physical st (d_physical t) ignorant = Some st1" and
    st': "cached_physical st' = cached_physical st1"
      "cached_logical st' = cached_logical (update_logical st1 (d_logical t))"
    by (auto simp: try_update_atomics_def Let_def split: option.splits if_splits)
  show ?thesis
    using assms(2,3) reserve_physical_effect [OF r] update_logical_effect [of "d_logical t" st1]
      reserve_physical_sel [OF r] st'
    by (auto simp: delta_fits_def apply_space_delta_sel fits_def intro!: used_space_eqI)
qed

lemma space_delta_node [simp]: "space (delta_node t d) = apply_space_delta t (space d)"
  by (simp add: delta_node_def set_space_def)

lemma update_size_root:
  assumes "wf_usage d"
  shows "wf_usage (update_size d path t)" and "space (update_size d path t) = apply_space_delta t (space d)"
  using assms by (simp_all add: update_size_def wf_update_loop)

lemma update_size_iterator_root:
  assumes "wf_usage d"
  shows "wf_usage (update_size_iterator d ks t)"
    and "space (update_size_iterator d ks t) = apply_space_delta t (space d)"
  using assms by (simp_all add: update_size_iterator_def wf_update_loop)

lemma synced_update:
  assumes "synced st" and "try_update_atomics st t ignorant = (True, st1)" and "delta_fits t (cached st)"
    and "wf_usage d" and "space d = apply_space_delta t (space (usage st))"
  shows "synced (st1\<lparr>usage := d\<rparr>)"
  using assms try_update_atomics_effect [OF assms(2,3)]
  by (auto simp: synced_def cached_def fits_apply_space_delta)

lemma synced_fits: "synced st \<Longrightarrow> fits (cached st)"
  by (auto simp: synced_def)

lemma allocate_in_path_synced:
  assumes "synced st" and "delta_fits (delta_from delta) (cached st)"
  shows "synced (snd (allocate_in_path st path delta ignorant))"
proof (cases "try_update_atomics st (delta_from delta) ignorant")
  case (Pair b st1)
  then show ?thesis
    using assms try_update_atomics_fail [of st "delta_from delta" ignorant st1]
      synced_update [of st "delta_from delta" ignorant st1 "update_size (usage st) path (delta_from delta)"]
      update_size_root [of "usage st"] try_update_atomics_sel [OF Pair]
    by (cases b) (auto simp: allocate_in_path_def synced_def)
qed

lemma allocate_in_path_iterator_synced:
  assumes "synced st" and "delta_fits (delta_from delta) (cached st)"
  shows "synced (snd (allocate_in_path_iterator st ks delta ignorant))"
proof (cases "try_update_atomics st (delta_from delta) ignorant")
  case (Pair b st1)
  then show ?thesis
    using assms try_update_atomics_fail [of st "delta_from delta" ignorant st1]
      synced_update [of st "delta_from delta" ignorant st1 "update_size_iterator (usage st) ks (delta_from delta)"]
      update_size_iterator_root [of "usage st"] try_update_atomics_sel [OF Pair]
    by (cases b) (auto simp: allocate_in_path_iterator_def synced_def)
qed


lemma removed_delta:
  assumes "logical r < 2 ^ 63" and "physical r < 2 ^ 63"
  shows "wrap_i64 (- as_i64 (logical r)) = - int (logical r)"
    and "wrap_i64 (- as_i64 (physical r)) = - int (physical r)"
  using assms by (simp_all add: as_i64_exact wrap_i64_exact is_i64_def)

lemma minus_space_delta:
  assumes "fits s"
  shows "apply_space_delta \<lparr>d_logical = - int (logical r), d_physical = - int (physical r)\<rparr> s = minus_space r s"
  using assms by (intro used_space_eqI) (auto simp: apply_space_delta_sel fits_def)

lemma try_update_atomics_shrink:
  "d_physical t \<le> 0 \<Longrightarrow> fst (try_update_atomics st t ignorant)"
  by (auto simp: try_update_atomics_def reserve_physical_def Let_def)

lemma shrink_synced:
  assumes "synced st" and "logical r < 2 ^ 63" and "physical r < 2 ^ 63"
    and "wf_usage d" and "space d = minus_space r (space (usage st))"
  shows "synced (snd (try_update_atomics (st\<lparr>usage := d\<rparr>)
     \<lparr>d_logical = wrap_i64 (- as_i64 (logical r)), d_physical = wrap_i64 (- as_i64 (physical r))\<rparr> False))"
proof -
  let ?t = "\<lparr>d_logical = - int (logical r), d_physical = - int (physical r)\<rparr>"
  let ?st = "st\<lparr>usage := d\<rparr>"
  have f: "fits (cached ?st)" and c: "cached ?st = space (usage st)"
    using assms(1) by (auto simp: synced_def cached_def)
  obtain st1 where u: "try_update_atomics ?st ?t False = (True, st1)"
    using try_update_atomics_shrink [of ?t ?st False]
    by (cases "try_update_atomics ?st ?t False") auto
  have "delta_fits ?t (cached ?st)"
    using assms(2,3) f unfolding delta_fits_def is_i64_def fits_def by simp
  from try_update_atomics_effect [OF u this f]
  have "cached st1 = space d" using f c assms(5) by (simp add: minus_space_delta)
  then show ?thesis
    using assms try_update_atomics_sel [OF u] f c
    by (auto simp: removed_delta u synced_def fits_def)
qed

lemma recursive_remove_bound:
  assumes "aggregated d" and "wf_usage d" and "recursive_remove d ks = Some (r, d')"
    and "logical (space d) < 2 ^ 63" and "physical (space d) < 2 ^ 63"
  shows "logical (space r) < 2 ^ 63" and "physical (space r) < 2 ^ 63" and "wf_usage d'"
    and "space d' = minus_space (space r) (space d)"
proof -
  note rem = aggregated_recursive_remove [OF assms(1-3)]
  with assms(4,5) show "logical (space r) < 2 ^ 63" "physical (space r) < 2 ^ 63" by linarith+
  show "wf_usage d'" "space d' = minus_space (space r) (space d)"
    using recursive_remove_spec [OF assms(2), of ks] by (simp_all add: assms(3))
qed

definition accountable :: "fs_state \<Rightarrow> bool" where
  "accountable st \<longleftrightarrow> synced st \<and> aggregated (usage st) \<and>
     cached_logical st < 2 ^ 63 \<and> cached_physical st < 2 ^ 63"

lemma accountable_root:
  "accountable st \<Longrightarrow> logical (space (usage st)) < 2 ^ 63 \<and> physical (space (usage st)) < 2 ^ 63"
  by (auto simp: accountable_def synced_def cached_def)
    (metis used_space.select_convs)+

lemma delta_fits_neg:
  "fits s \<Longrightarrow> n < 2 ^ 63 \<Longrightarrow> delta_fits (delta_from (wrap_i64 (- as_i64 n))) s"
  by (simp add: delta_fits_def delta_from_def as_i64_exact wrap_i64_exact is_i64_def fits_def)

text \<open>
  C11. Deleting a path keeps the books: when the cached totals agree with the root of an
  aggregated tree, they still agree after \<^verbatim>\<open>truncate_path\<close> on any path, whatever the system
  calls answer; and an operation that reports an error has changed nothing.
\<close>

theorem truncate_path_synced:
  assumes "accountable st" and "\<And>p m. sys_symlink_metadata io p = Inr m \<Longrightarrow> len m < 2 ^ 63"
  shows "synced (snd (truncate_path io base_path st raw)) \<and>
    (\<forall>e. fst (truncate_path io base_path st raw) = Inl e \<longrightarrow>
      snd (truncate_path io base_path st raw) = st)"
proof -
  let ?p = "relative_path base_path (components raw)"
  have s: "synced st" "fits (cached st)" using assms(1) by (auto simp: accountable_def synced_def)
  have dir: "synced (snd (try_update_atomics (st\<lparr>usage := d\<rparr>)
       \<lparr>d_logical = wrap_i64 (- as_i64 (logical (space r))), d_physical = wrap_i64 (- as_i64 (physical (space r)))\<rparr>
       False))" if "remove_path (usage st) (path_string ?p) = Some (r, d)" for r d
  proof -
    have "recursive_remove (usage st) (path_keys (path_string ?p)) = Some (r, d)"
      using that by (simp add: remove_path_def split: if_splits)
    from recursive_remove_bound [OF _ _ this] accountable_root [OF assms(1)] assms(1) s(1)
    show ?thesis by (intro shrink_synced) (auto simp: accountable_def synced_def)
  qed
  show ?thesis
  proof (cases "sys_symlink_metadata io ?p")
    case (Inr m)
    have "synced (snd (async_allocate_in_path st q (wrap_i64 (- as_i64 (len m))) False))" for q
      using allocate_in_path_synced [OF s(1) delta_fits_neg [OF s(2) assms(2) [OF Inr]]]
      by (simp add: async_allocate_in_path_def)
    with dir s Inr show ?thesis
      by (auto simp: truncate_path_def Let_def split: sum.splits option.splits)
  qed (use s in \<open>simp add: truncate_path_def\<close>)
qed


definition sample_state :: fs_state where
  "sample_state = \<lparr>disk_limit = 1000, delta_cached = 0, cached_logical = 120, cached_physical = 120,
     usage = sample_usage, published = 120\<rparr>"

definition sample_calls :: "bool \<Rightarrow> nat \<Rightarrow> fs_calls" where
  "sample_calls dir n = \<lparr>sys_symlink_metadata = (\<lambda>_. Inr \<lparr>is_dir = dir, len = n\<rparr>),
     sys_metadata = (\<lambda>_. Inr \<lparr>is_dir = dir, len = n\<rparr>), sys_remove_dir_all = (\<lambda>_. Inr ()),
     sys_remove_file = (\<lambda>_. Inr ()), sys_create_dir_all = (\<lambda>_. Inr ()), sys_canonicalize = Inr,
     sys_rename = (\<lambda>_ _. Inr ())\<rparr>"

lemma sample_state_accountable: "accountable sample_state"
  by (simp add: accountable_def synced_def cached_def sample_state_def sample_usage_def fits_def
      u64_max_def sorted_keys_def child_sum_def)

theorem truncate_path_synced_witness:
  "synced (snd (truncate_path (sample_calls True 0) [RootDir] sample_state ''/a'')) \<and>
   cached_logical (snd (truncate_path (sample_calls True 0) [RootDir] sample_state ''/a'')) = 20"
proof (rule conjI)
  show "synced (snd (truncate_path (sample_calls True 0) [RootDir] sample_state ''/a''))"
    using truncate_path_synced [OF sample_state_accountable, of "sample_calls True 0" "[RootDir]" "''/a''"]
    by (auto simp: sample_calls_def)
  show "cached_logical (snd (truncate_path (sample_calls True 0) [RootDir] sample_state ''/a'')) = 20"
    by code_simp
qed

section \<open>Renames\<close>

definition rename_target :: "fs_calls \<Rightarrow> path \<Rightarrow> string \<Rightarrow> path" where
  "rename_target io base_path raw =
     (let p = relative_path base_path (components raw)
      in unwrap_or [] (sys_canonicalize io (butlast p)) @ [last p])"

lemma rename_directory_synced:
  assumes "accountable st" and "target \<noteq> []"
    and "\<And>r d. remove_path (usage st) (path_string old_path) = Some (r, d) \<Longrightarrow>
       get_path_components d (map (to_string_lossy \<circ> as_os_str) target) = None"
  shows "synced (rename_directory st old_path target)"
proof (cases "remove_path (usage st) (path_string old_path)")
  case None
  with assms show ?thesis by (simp add: rename_directory_def accountable_def)
next
  case (Some rd)
  then obtain r d where rd: "remove_path (usage st) (path_string old_path) = Some (r, d)" by (cases rd) auto
  let ?q = "map (to_string_lossy \<circ> as_os_str) target"
  obtain b d2 where add: "add_directory d ?q r = (b, d2)" by force
  have rr: "recursive_remove (usage st) (path_keys (path_string old_path)) = Some (r, d)"
    using rd by (simp add: remove_path_def split: if_splits)
  have "wf_usage d2 \<and> space d2 = space (usage st)"
    using move_directory [OF _ _ rr _ add] assms(1,2) assms(3) [OF rd]
    by (auto simp: accountable_def synced_def)
  with assms(1) rd add show ?thesis
    by (auto simp: rename_directory_def accountable_def synced_def cached_def)
qed

lemma allocate_cached:
  assumes "synced st" and "delta_fits (delta_from delta) (cached st)"
  shows "cached (snd (async_allocate_in_path st path delta True)) = apply_space_delta (delta_from delta) (cached st)"
    and "synced (snd (async_allocate_in_path st path delta True))"
proof -
  obtain b st1 where u: "try_update_atomics st (delta_from delta) True = (b, st1)" by force
  have b: b
    using u by (auto simp: try_update_atomics_def reserve_physical_def Let_def split: if_splits)
  show "cached (snd (async_allocate_in_path st path delta True)) = apply_space_delta (delta_from delta) (cached st)"
    using try_update_atomics_effect [of st "delta_from delta" True st1] assms(2) synced_fits [OF assms(1)] u b
    by (simp add: async_allocate_in_path_def allocate_in_path_def) (simp add: cached_def)
  show "synced (snd (async_allocate_in_path st path delta True))"
    using allocate_in_path_synced [OF assms] by (simp add: async_allocate_in_path_def)
qed

lemma rename_file_cached:
  assumes "synced st" and "cached_logical st < 2 ^ 63" and "cached_physical st < 2 ^ 63" and "s < 2 ^ 63"
    and "\<And>n. nl = Some n \<Longrightarrow> n < 2 ^ 63"
  defines "delta \<equiv> case nl of None \<Rightarrow> int s | Some n \<Rightarrow> int n - int s"
  shows "synced (rename_file st old_p new_p s nl)"
    and "cached (rename_file st old_p new_p s nl) =
      apply_space_delta (delta_from delta) (apply_space_delta (delta_from (- int s)) (cached st))"
proof -
  let ?st1 = "snd (async_allocate_in_path st (path_string old_p) (- int s) True)"
  have neg: "wrap_i64 (- as_i64 s) = - int s"
    using assms(4) by (simp add: as_i64_exact wrap_i64_exact is_i64_def)
  have f: "fits (cached st)" using assms(1) by (rule synced_fits)
  note st1 = allocate_cached [OF assms(1) delta_fits_neg [OF f assms(4)], unfolded neg, of "path_string old_p"]
  have le: "cached_logical ?st1 \<le> cached_logical st" "cached_physical ?st1 \<le> cached_physical st"
    using arg_cong [OF st1(1), of logical] arg_cong [OF st1(1), of physical] f
    by (auto simp: apply_space_delta_sel delta_from_def fits_def split: if_splits)
  have d: "is_i64 delta" "delta_fits (delta_from delta) (cached ?st1)"
    using assms(2-5) le
    by (auto simp: delta_def delta_fits_def delta_from_def is_i64_def u64_max_def split: option.splits)
  have eq: "rename_file st old_p new_p s nl = snd (async_allocate_in_path ?st1 (path_string new_p) delta True)"
    using assms(4,5) d(1) neg
    by (simp add: rename_file_def Let_def delta_def as_i64_exact wrap_i64_exact split: option.splits)
  show "synced (rename_file st old_p new_p s nl)"
    "cached (rename_file st old_p new_p s nl) =
      apply_space_delta (delta_from delta) (apply_space_delta (delta_from (- int s)) (cached st))"
    unfolding eq using allocate_cached [OF st1(2) d(2)] st1(1) by simp_all
qed

text \<open>
  C12. A rename keeps the cached totals and the root of the tree in agreement, for files and
  directories alike, provided no directory was recorded at the target; a failed rename changes
  nothing. (Both sides of the agreement can be wrong together: see the next property.)
\<close>

theorem rename_path_synced:
  assumes "accountable st" and "\<And>p m. sys_metadata io p = Inr m \<Longrightarrow> len m < 2 ^ 63"
    and "\<And>r d. remove_path (usage st) (path_string (relative_path base_path (components old_raw))) = Some (r, d) \<Longrightarrow>
       get_path_components d (map (to_string_lossy \<circ> as_os_str) (rename_target io base_path new_raw)) = None"
  shows "synced (snd (rename_path io base_path st old_raw new_raw)) \<and>
    (\<forall>e. fst (rename_path io base_path st old_raw new_raw) = Inl e \<longrightarrow>
      snd (rename_path io base_path st old_raw new_raw) = st)"
proof -
  let ?old = "relative_path base_path (components old_raw)"
  let ?new = "relative_path base_path (components new_raw)"
  have s: "synced st" "cached_logical st < 2 ^ 63" "cached_physical st < 2 ^ 63"
    using assms(1) by (auto simp: accountable_def)
  have dir: "synced (rename_directory st ?old (unwrap_or [] (sys_canonicalize io p) @ [Normal name]))"
    if "parent ?new = Some p" "file_name ?new = Some name" for p name
  proof -
    have "rename_target io base_path new_raw = unwrap_or [] (sys_canonicalize io p) @ [Normal name]"
      using that
      by (auto simp: rename_target_def parent_def file_name_def split: if_splits component.splits)
    then show ?thesis using rename_directory_synced [OF assms(1) _ assms(3)] by simp
  qed
  have regular: "synced (rename_file st op np (len m) (map_option len (ok (sys_metadata io ?new))))"
    if "sys_metadata io ?old = Inr m" for m op np
    using assms(2) [of ?new]
    by (intro rename_file_cached(1) [OF s assms(2) [OF that]]) (auto simp: ok_def split: sum.splits)
  show ?thesis
    unfolding rename_path_def Let_def
    using s(1) dir regular by (auto split: sum.splits option.splits)
qed

theorem rename_path_synced_witness:
  "synced (snd (rename_path (sample_calls True 0) [RootDir] sample_state ''/a'' ''/z''))"
proof -
  have "get_path_components d (map (to_string_lossy \<circ> as_os_str) (rename_target (sample_calls True 0) [RootDir] ''/z'')) = None"
    if "remove_path (usage sample_state) (path_string (relative_path [RootDir] (components ''/a''))) = Some (r, d)" for r d
  proof -
    have "map_option (\<lambda>(r, d). get_path_components d (map (to_string_lossy \<circ> as_os_str)
        (rename_target (sample_calls True 0) [RootDir] ''/z'')))
      (remove_path (usage sample_state) (path_string (relative_path [RootDir] (components ''/a'')))) = Some None"
      by code_simp
    with that show ?thesis by simp
  qed
  with rename_path_synced [OF sample_state_accountable, of "sample_calls True 0" "[RootDir]" "''/a''" "''/z''"]
  show ?thesis by (auto simp: sample_calls_def)
qed

text \<open>
  C13. Renaming a file of \<open>s\<close> bytes over an existing file of \<open>n\<close> bytes changes the totals by
  \<open>n - 2 s\<close>, while the disk now holds \<open>n\<close> bytes less: the second adjustment has the
  operands of its subtraction exchanged. Both cached totals and the root of the tree drift by
  \<open>2 (n - s)\<close>.
\<close>

theorem rename_over_existing_drift:
  assumes "synced st" and "cached_logical st < 2 ^ 63" and "cached_physical st < 2 ^ 63"
    and "s < 2 ^ 63" and "n < 2 ^ 63"
    and "s \<le> cached_logical st" and "s \<le> cached_physical st"
    and "2 * s \<le> cached_logical st + n" and "2 * s \<le> cached_physical st + n"
  shows "int (cached_logical (rename_file st old_p new_p s (Some n))) = int (cached_logical st) + int n - 2 * int s \<and>
    int (cached_physical (rename_file st old_p new_p s (Some n))) = int (cached_physical st) + int n - 2 * int s"
proof -
  have f: "fits (cached st)" using assms(1) by (rule synced_fits)
  let ?c1 = "apply_space_delta (delta_from (- int s)) (cached st)"
  have c1: "fits ?c1" "logical ?c1 = cached_logical st - s" "physical ?c1 = cached_physical st - s"
    using f by (auto simp: fits_apply_space_delta apply_space_delta_sel delta_from_def fits_def)
  have "n + cached_logical st - s \<le> u64_max" "n + cached_physical st - s \<le> u64_max"
    using assms by (simp_all add: u64_max_def)
  note bnd = this
  let ?st = "rename_file st old_p new_p s (Some n)"
  have c: "cached ?st = apply_space_delta (delta_from (int n - int s)) ?c1"
    using rename_file_cached(2) [OF assms(1-4), of "Some n" old_p new_p] assms(5) by simp
  have "cached_logical ?st = cached_logical st + n - 2 * s"
    using arg_cong [OF c, of logical] c1 bnd(1) assms(6,8)
    by (auto simp: apply_space_delta_sel(1) delta_from_def nat_diff_distrib split: if_splits)
  moreover have "cached_physical ?st = cached_physical st + n - 2 * s"
    using arg_cong [OF c, of physical] c1 bnd(2) assms(7,9)
    by (auto simp: apply_space_delta_sel(2) delta_from_def nat_diff_distrib split: if_splits)
  ultimately show ?thesis using assms(8,9) by simp
qed

theorem rename_over_existing_drift_witness:
  "int (cached_logical (rename_file sample_state [] [] 10 (Some 30))) = 130 \<and>
   int (cached_logical sample_state) - 30 = 90"
  using rename_over_existing_drift [of sample_state 10 30 "[]" "[]"] sample_state_accountable
  by (simp add: accountable_def) (simp add: sample_state_def)


section \<open>Interleaved allocations\<close>

text \<open>
  Allocations run concurrently. Each atomic of \<^verbatim>\<open>try_update_atomics\<close>, the load and the publication
  of the total, and the update of the tree under its lock is one step of the task; the steps of
  different tasks interleave freely. The delta is the same for both totals.
\<close>

datatype alloc_pc = Reserve | Logical | Delta | Load | Publish nat | Tree | Done bool

record alloc_task =
  t_path :: "string list"
  t_delta :: int
  t_ignorant :: bool
  t_pc :: alloc_pc

definition task_step :: "fs_state \<Rightarrow> alloc_task \<Rightarrow> (fs_state \<times> alloc_task) option" where
  "task_step st t =
     (case t_pc t of
        Reserve \<Rightarrow>
          if t_delta t = 0 then Some (st, t\<lparr>t_pc := Tree\<rparr>)
          else (case reserve_physical st (t_delta t) (t_ignorant t) of
                  None \<Rightarrow> Some (st, t\<lparr>t_pc := Done False\<rparr>)
                | Some st' \<Rightarrow> Some (st', t\<lparr>t_pc := Logical\<rparr>))
      | Logical \<Rightarrow> Some (update_logical st (t_delta t), t\<lparr>t_pc := Delta\<rparr>)
      | Delta \<Rightarrow> Some (add_delta_cached st (t_delta t), t\<lparr>t_pc := Load\<rparr>)
      | Load \<Rightarrow> Some (st, t\<lparr>t_pc := Publish (get_physical_cached_size st)\<rparr>)
      | Publish n \<Rightarrow> Some (publish_disk_usage n st, t\<lparr>t_pc := Tree\<rparr>)
      | Tree \<Rightarrow>
          Some (st\<lparr>usage := update_size_iterator (usage st) (t_path t) (delta_from (t_delta t))\<rparr>,
                t\<lparr>t_pc := Done True\<rparr>)
      | Done _ \<Rightarrow> None)"

inductive alloc_step :: "fs_state \<times> alloc_task list \<Rightarrow> fs_state \<times> alloc_task list \<Rightarrow> bool" where
  alloc_stepI: "task_step st t = Some (st', t') \<Longrightarrow> alloc_step (st, xs @ t # ys) (st', xs @ t' # ys)"

inductive_cases alloc_stepE: "alloc_step c c'"

text \<open>Run alone, a task does exactly what \<^verbatim>\<open>allocate_in_path_iterator\<close> does.\<close>

fun run_task :: "nat \<Rightarrow> fs_state \<Rightarrow> alloc_task \<Rightarrow> fs_state \<times> alloc_task" where
  "run_task 0 st t = (st, t)"
| "run_task (Suc n) st t =
     (case task_step st t of None \<Rightarrow> (st, t) | Some (st', t') \<Rightarrow> run_task n st' t')"

lemma run_task_alone:
  assumes "t_pc t = Reserve"
  shows "run_task 6 st t =
    (case allocate_in_path_iterator st (t_path t) (t_delta t) (t_ignorant t) of
       (b, st') \<Rightarrow> (st', t\<lparr>t_pc := Done b\<rparr>))"
proof -
  note defs = task_step_def allocate_in_path_iterator_def try_update_atomics_def
  have six: "6 = Suc (Suc (Suc (Suc (Suc (Suc 0)))))" by simp
  consider "t_delta t = 0" | "t_delta t \<noteq> 0" "reserve_physical st (t_delta t) (t_ignorant t) = None"
    | st' where "t_delta t \<noteq> 0" "reserve_physical st (t_delta t) (t_ignorant t) = Some st'"
    by (cases "reserve_physical st (t_delta t) (t_ignorant t)") auto
  then show ?thesis
    by cases (simp_all add: six defs assms delta_from_def Let_def)
qed

definition in_flight :: "alloc_task \<Rightarrow> nat" where
  "in_flight t = (case t_pc t of Reserve \<Rightarrow> 0 | Done _ \<Rightarrow> 0 | _ \<Rightarrow> nat (t_delta t))"

definition task_ok :: "alloc_task \<Rightarrow> bool" where
  "task_ok t \<longleftrightarrow> \<not> t_ignorant t \<and> 0 \<le> t_delta t \<and> t_delta t < 2 ^ 63"

definition alloc_inv :: "int \<Rightarrow> fs_state \<times> alloc_task list \<Rightarrow> bool" where
  "alloc_inv limit c \<longleftrightarrow>
     (case c of (st, ts) \<Rightarrow> disk_limit st = limit \<and> wf_usage (usage st) \<and> list_all task_ok ts \<and>
        int (cached_physical st) \<le> limit \<and> fits (space (usage st)) \<and>
        cached_physical st = physical (space (usage st)) + sum_list (map in_flight ts))"

lemma reserve_physical_limit:
  assumes "reserve_physical st d False = Some st'" and "disk_limit st \<noteq> 0" and "0 < d"
  shows "cached_physical st' \<le> as_u64 (disk_limit st)"
  using assms by (auto simp: reserve_physical_def Let_def split: if_splits)

lemma task_step_reserve:
  assumes "task_step st t = Some (st', t')" and "t_pc t = Reserve" and "task_ok t"
    and "disk_limit st = limit" and "is_i64 limit" and "0 < limit" and "int (cached_physical st) \<le> limit"
  shows "cached_physical st' = cached_physical st + in_flight t' \<and> usage st' = usage st \<and>
    disk_limit st' = limit \<and> int (cached_physical st') \<le> limit \<and> task_ok t' \<and> in_flight t = 0"
proof (cases "t_delta t = 0 \<or> reserve_physical st (t_delta t) False = None")
  case True
  then show ?thesis using assms
    by (auto simp: task_step_def task_ok_def in_flight_def split: if_splits)
next
  case False
  with assms(1-3) have r: "reserve_physical st (t_delta t) False = Some st'" and t': "t' = t\<lparr>t_pc := Logical\<rparr>"
    and d: "0 < t_delta t" by (auto simp: task_step_def task_ok_def)
  have "as_u64 limit = nat limit" using assms(5,6) by (simp add: as_u64_i64)
  then have "int (cached_physical st') \<le> limit"
    using reserve_physical_limit [OF r _ d] assms(4,6) by simp
  moreover have "cached_physical st' = cached_physical st + nat (t_delta t)"
    using reserve_physical_effect [OF r] assms d
    by (auto simp: task_ok_def is_i64_def u64_max_def)
  ultimately show ?thesis
    using reserve_physical_sel [OF r] assms t' by (simp add: in_flight_def task_ok_def)
qed

lemma task_step_later:
  assumes "task_step st t = Some (st', t')" and "t_pc t \<noteq> Reserve" and "task_ok t"
    and "wf_usage (usage st)" and "fits (space (usage st))"
    and "physical (space (usage st)) + in_flight t \<le> u64_max"
  shows "cached_physical st' = cached_physical st \<and> disk_limit st' = disk_limit st \<and> task_ok t' \<and>
    wf_usage (usage st') \<and> fits (space (usage st')) \<and>
    physical (space (usage st')) + in_flight t' = physical (space (usage st)) + in_flight t"
  using assms
  by (cases "t_pc t")
    (auto simp: task_step_def in_flight_def task_ok_def get_physical_cached_size_def
      update_size_iterator_root fits_apply_space_delta apply_space_delta_sel delta_from_def)

lemma alloc_inv_step:
  assumes "alloc_inv limit c" and "alloc_step c c'" and "is_i64 limit" and "0 < limit"
  shows "alloc_inv limit c'"
  using assms(2)
proof (rule alloc_stepE)
  fix st t st' t' xs ys
  assume c: "c = (st, xs @ t # ys)" "c' = (st', xs @ t' # ys)" and step: "task_step st t = Some (st', t')"
  have ok: "task_ok t" using assms(1) c by (simp add: alloc_inv_def)
  show ?thesis
  proof (cases "t_pc t = Reserve")
    case True
    have lim: "disk_limit st = limit" "int (cached_physical st) \<le> limit"
      using assms(1) c by (simp_all add: alloc_inv_def)
    show ?thesis
      using task_step_reserve [OF step True ok lim(1) assms(3,4) lim(2)] assms(1) c
      by (simp add: alloc_inv_def)
  next
    case False
    have b: "wf_usage (usage st)" "fits (space (usage st))"
      "physical (space (usage st)) + in_flight t \<le> u64_max"
      using assms(1,3) c by (auto simp: alloc_inv_def is_i64_def u64_max_def)
    show ?thesis
      using task_step_later [OF step False ok b] assms(1) c by (simp add: alloc_inv_def)
  qed
qed

text \<open>
  C1. The disk limit is safe under concurrency: from a state in which the physical total agrees
  with the tree and is within a positive limit, every interleaving of checked allocations stays
  within the limit at every moment; the total always equals the root of the tree plus the bytes
  in flight, so once all tasks are done it equals the root again.
\<close>

theorem concurrent_allocations_within_limit:
  assumes "alloc_step\<^sup>*\<^sup>* (st0, ts0) (st, ts)"
    and "0 < disk_limit st0" and "is_i64 (disk_limit st0)" and "int (cached_physical st0) \<le> disk_limit st0"
    and "synced st0" and "list_all (\<lambda>t. task_ok t \<and> t_pc t = Reserve) ts0"
  shows "int (cached_physical st) \<le> disk_limit st0 \<and>
    cached_physical st = physical (space (usage st)) + sum_list (map in_flight ts) \<and>
    (list_all (\<lambda>t. \<exists>b. t_pc t = Done b) ts \<longrightarrow> cached_physical st = physical (space (usage st)))"
proof -
  let ?l = "disk_limit st0"
  have "cached_physical st0 = physical (space (usage st0))" "fits (space (usage st0))"
    using assms(5) synced_fits [OF assms(5)] by (metis cached_sel(2) synced_def)+
  moreover have "sum_list (map in_flight ts0) = 0"
    using assms(6) by (induction ts0) (auto simp: in_flight_def)
  ultimately have "alloc_inv ?l (st0, ts0)"
    using assms(4-6) by (auto simp: alloc_inv_def synced_def list_all_iff)
  with assms(1) have inv: "alloc_inv ?l (st, ts)"
    by (induction rule: rtranclp_induct) (auto intro: alloc_inv_step [OF _ _ assms(3,2)])
  moreover have "sum_list (map in_flight ts) = 0" if "list_all (\<lambda>t. \<exists>b. t_pc t = Done b) ts"
    using that by (induction ts) (auto simp: in_flight_def)
  ultimately show ?thesis by (auto simp: alloc_inv_def)
qed

theorem concurrent_allocations_within_limit_witness:
  "\<exists>st ts. alloc_step\<^sup>*\<^sup>* (sample_state,
       [\<lparr>t_path = [''a''], t_delta = 500, t_ignorant = False, t_pc = Reserve\<rparr>,
        \<lparr>t_path = [''b''], t_delta = 600, t_ignorant = False, t_pc = Reserve\<rparr>]) (st, ts) \<and>
     map t_pc ts = [Logical, Done False] \<and> int (cached_physical st) \<le> 1000 \<and> cached_physical st = 620"
proof -
  let ?a = "\<lparr>t_path = [''a''], t_delta = 500, t_ignorant = False, t_pc = Reserve\<rparr>"
  let ?b = "\<lparr>t_path = [''b''], t_delta = 600, t_ignorant = False, t_pc = Reserve\<rparr>"
  let ?st = "sample_state\<lparr>cached_physical := 620\<rparr>"
  have "task_step sample_state ?a = Some (?st, ?a\<lparr>t_pc := Logical\<rparr>)"
    "task_step ?st ?b = Some (?st, ?b\<lparr>t_pc := Done False\<rparr>)"
    by (simp_all add: task_step_def reserve_physical_def sample_state_def as_u64_def wrapping_add_def)
  then have "alloc_step (sample_state, [?a, ?b]) (?st, [?a\<lparr>t_pc := Logical\<rparr>, ?b])"
    "alloc_step (?st, [?a\<lparr>t_pc := Logical\<rparr>, ?b]) (?st, [?a\<lparr>t_pc := Logical\<rparr>, ?b\<lparr>t_pc := Done False\<rparr>])"
    using alloc_stepI [of sample_state ?a ?st _ "[]" "[?b]"]
      alloc_stepI [of ?st ?b ?st _ "[?a\<lparr>t_pc := Logical\<rparr>]" "[]"] by simp_all
  then have run: "alloc_step\<^sup>*\<^sup>* (sample_state, [?a, ?b]) (?st, [?a\<lparr>t_pc := Logical\<rparr>, ?b\<lparr>t_pc := Done False\<rparr>])"
    by (rule converse_rtranclp_into_rtranclp [OF _ r_into_rtranclp])
  have lim: "0 < disk_limit sample_state" "is_i64 (disk_limit sample_state)"
    "int (cached_physical sample_state) \<le> disk_limit sample_state"
    by (simp_all add: sample_state_def is_i64_def)
  have "synced sample_state" using sample_state_accountable by (simp add: accountable_def)
  from concurrent_allocations_within_limit [OF run lim this] run show ?thesis
    by (intro exI [of _ ?st] exI conjI) (auto simp: sample_state_def task_ok_def)
qed

end
