(* ===== verification/WalkDir.thy ===== *)
theory WalkDir
  imports CapPath
begin

text \<open>
  The directory walker of \<^verbatim>\<open>server/filesystem/cap/utils.rs\<close>. \<^verbatim>\<open>WalkDir\<close> keeps a stack of open
  directory listings; \<open>next_entry\<close> takes the next entry of the topmost one and opens it
  when it is a directory. Reading a directory is a system call and a parameter
  (\<open>read_dir\<close>); the filter \<open>is_ignored\<close> is the closure the caller installs. The lemmas
  show that the walk over a finite tree ends and yields every entry once, parents before
  children.
\<close>

section \<open>Model\<close>

datatype file_type = File | Dir | Symlink | Unknown

type_synonym dir_entry = "io_error + (file_type \<times> string)"

text \<open>The head of the list is the last element of the \<^verbatim>\<open>Vec\<close>, where it is pushed and popped.\<close>

type_synonym walk_stack = "(path \<times> dir_entry list) list"

definition walk_new :: "(path \<Rightarrow> io_error + dir_entry list) \<Rightarrow> path \<Rightarrow> io_error + walk_stack" where
  "walk_new read_dir p =
     (case read_dir p of Inl e \<Rightarrow> Inl e | Inr es \<Rightarrow> Inr [(p, es)])"

definition stack_measure :: "walk_stack \<Rightarrow> nat" where
  "stack_measure stk = sum_list (map (\<lambda>(p, es). Suc (length es)) stk)"

function next_entry ::
    "(path \<Rightarrow> io_error + dir_entry list) \<Rightarrow> (file_type \<Rightarrow> path \<Rightarrow> path option) \<Rightarrow> walk_stack \<Rightarrow>
     (io_error + (file_type \<times> path)) option \<times> walk_stack" where
  "next_entry read_dir is_ignored [] = (None, [])"
| "next_entry read_dir is_ignored ((parent_path, []) # rest) = next_entry read_dir is_ignored rest"
| "next_entry read_dir is_ignored ((parent_path, Inl e # es) # rest) =
     (Some (Inl e), (parent_path, es) # rest)"
| "next_entry read_dir is_ignored ((parent_path, Inr (ft, name) # es) # rest) =
     (case is_ignored ft (parent_path @ [Normal name]) of
        None \<Rightarrow> next_entry read_dir is_ignored ((parent_path, es) # rest)
      | Some full_path \<Rightarrow>
          if ft = Dir then
            (case read_dir full_path of
               Inr d \<Rightarrow> (Some (Inr (ft, full_path)), (full_path, d) # (parent_path, es) # rest)
             | Inl e \<Rightarrow> (Some (Inl e), (parent_path, es) # rest))
          else (Some (Inr (ft, full_path)), (parent_path, es) # rest))"
  by pat_completeness auto
termination
  by (relation "measure (\<lambda>(_, _, stk). stack_measure stk)") (auto simp: stack_measure_def)

text \<open>
  The callers' loop \<^verbatim>\<open>while let Some(entry) = walker.next_entry()\<close>, up to the first error; the
  fuel bounds the number of entries taken.
\<close>

fun walk_all ::
    "nat \<Rightarrow> (path \<Rightarrow> io_error + dir_entry list) \<Rightarrow> (file_type \<Rightarrow> path \<Rightarrow> path option) \<Rightarrow> walk_stack \<Rightarrow>
     (io_error + (file_type \<times> path)) list option" where
  "walk_all 0 read_dir is_ignored stk = None"
| "walk_all (Suc n) read_dir is_ignored stk =
     (case next_entry read_dir is_ignored stk of
        (None, _) \<Rightarrow> Some []
      | (Some (Inl e), _) \<Rightarrow> Some [Inl e]
      | (Some (Inr e), stk') \<Rightarrow> map_option (\<lambda>es. Inr e # es) (walk_all n read_dir is_ignored stk'))"

definition never_ignored :: "file_type \<Rightarrow> path \<Rightarrow> path option" where
  "never_ignored ft p = Some p"


section \<open>The walk enumerates the tree\<close>

text \<open>A finite directory tree, what \<open>read_dir\<close> says when it serves it, and its listing.\<close>

datatype node = Leaf file_type | Node "(string \<times> node) list"

fun kind :: "node \<Rightarrow> file_type" where
  "kind (Leaf ft) = ft"
| "kind (Node es) = Dir"

fun serves :: "(path \<Rightarrow> io_error + dir_entry list) \<Rightarrow> path \<Rightarrow> node \<Rightarrow> bool" where
  "serves read_dir p (Leaf ft) \<longleftrightarrow> ft \<noteq> Dir"
| "serves read_dir p (Node es) \<longleftrightarrow>
     read_dir p = Inr (map (\<lambda>(name, t). Inr (kind t, name)) es) \<and>
     (\<forall>(name, t) \<in> set es. serves read_dir (p @ [Normal name]) t)"

fun listing :: "path \<Rightarrow> node \<Rightarrow> (file_type \<times> path) list" where
  "listing p (Leaf ft) = []"
| "listing p (Node es) =
     concat (map (\<lambda>(name, t). (kind t, p @ [Normal name]) # listing (p @ [Normal name]) t) es)"

definition open_dir :: "path \<times> (string \<times> node) list \<Rightarrow> path \<times> dir_entry list" where
  "open_dir = (\<lambda>(p, es). (p, map (\<lambda>(name, t). Inr (kind t, name)) es))"

definition pending :: "(path \<times> (string \<times> node) list) list \<Rightarrow> (file_type \<times> path) list" where
  "pending fs = concat (map (\<lambda>(p, es). listing p (Node es)) fs)"

definition served :: "(path \<Rightarrow> io_error + dir_entry list) \<Rightarrow> (path \<times> (string \<times> node) list) list \<Rightarrow> bool" where
  "served read_dir fs \<longleftrightarrow>
     (\<forall>(p, es) \<in> set fs. \<forall>(name, t) \<in> set es. serves read_dir (p @ [Normal name]) t)"

text \<open>One call takes the first entry of what is still pending.\<close>

lemma next_entry_pending:
  assumes "served read_dir fs"
  shows "\<exists>fs'. served read_dir fs' \<and>
    (case pending fs of
       [] \<Rightarrow> next_entry read_dir never_ignored (map open_dir fs) = (None, [])
     | e # rest \<Rightarrow> next_entry read_dir never_ignored (map open_dir fs) = (Some (Inr e), map open_dir fs') \<and>
         pending fs' = rest)"
  using assms
proof (induction fs)
  case Nil
  then show ?case by (intro exI [of _ "[]"]) (simp add: pending_def served_def)
next
  case (Cons f fs)
  obtain p es where f: "f = (p, es)" by force
  show ?case
  proof (cases es)
    case Nil
    have "pending (f # fs) = pending fs"
      "next_entry read_dir never_ignored (map open_dir (f # fs)) =
         next_entry read_dir never_ignored (map open_dir fs)"
      using Nil f by (simp_all add: pending_def open_dir_def)
    note eqs = this
    have "served read_dir fs" using Cons.prems by (simp add: served_def)
    then show ?thesis unfolding eqs by (rule Cons.IH)
  next
    case (Cons e es')
    obtain name t where e: "e = (name, t)" by force
    note srv = Cons.prems [unfolded f Cons e]
    show ?thesis
    proof (cases t)
      case (Leaf ft)
      then have "ft \<noteq> Dir" using srv by (simp add: served_def)
      with Leaf srv f Cons e show ?thesis
        by (intro exI [of _ "(p, es') # fs"])
          (simp add: served_def pending_def open_dir_def never_ignored_def)
    next
      case (Node ns)
      then have "read_dir (p @ [Normal name]) = Inr (map (\<lambda>(name, t). Inr (kind t, name)) ns)"
        using srv by (simp add: served_def)
      with Node srv f Cons e show ?thesis
        by (intro exI [of _ "(p @ [Normal name], ns) # (p, es') # fs"])
          (simp add: served_def pending_def open_dir_def never_ignored_def)
    qed
  qed
qed

lemma walk_all_pending:
  "served read_dir fs \<Longrightarrow> length (pending fs) < n \<Longrightarrow>
   walk_all n read_dir never_ignored (map open_dir fs) = Some (map Inr (pending fs))"
proof (induction n arbitrary: fs)
  case (Suc n)
  obtain fs' where fs': "served read_dir fs'" "case pending fs of
       [] \<Rightarrow> next_entry read_dir never_ignored (map open_dir fs) = (None, [])
     | e # rest \<Rightarrow> next_entry read_dir never_ignored (map open_dir fs) = (Some (Inr e), map open_dir fs') \<and>
         pending fs' = rest"
    using next_entry_pending [OF Suc.prems(1)] by blast
  with Suc.prems(2) Suc.IH [OF fs'(1)] show ?case by (cases "pending fs") auto
qed simp

text \<open>
  C14. Walking a finite directory tree ends and lists every entry below the start directory exactly
  once, a directory before its contents; the start directory itself is not listed. Fuel one
  above the number of entries is enough.
\<close>

theorem walk_lists_tree:
  assumes "serves read_dir p (Node es)" and "length (listing p (Node es)) < n"
  shows "\<exists>stk. walk_new read_dir p = Inr stk \<and>
    walk_all n read_dir never_ignored stk = Some (map Inr (listing p (Node es)))"
  using walk_all_pending [of read_dir "[(p, es)]" n] assms
  by (simp add: walk_new_def served_def pending_def open_dir_def)

definition sample_read_dir :: "path \<Rightarrow> io_error + dir_entry list" where
  "sample_read_dir p =
     (if p = [] then Inr [Inr (Dir, ''a''), Inr (File, ''f'')]
      else if p = [Normal ''a''] then Inr [Inr (File, ''g'')] else Inl 2)"

theorem walk_lists_tree_witness:
  "walk_all 4 sample_read_dir never_ignored [([], [Inr (Dir, ''a''), Inr (File, ''f'')])] =
     Some [Inr (Dir, [Normal ''a'']), Inr (File, [Normal ''a'', Normal ''g'']), Inr (File, [Normal ''f''])]"
  using walk_lists_tree [of sample_read_dir "[]" "[(''a'', Node [(''g'', Leaf File)]), (''f'', Leaf File)]" 4]
  by (auto simp: walk_new_def sample_read_dir_def)

end
