(* ===== verification/DiskChecker.thy ===== *)
theory DiskChecker
  imports Accounting WalkDir
begin

text \<open>
  The periodic disk checker (\<^verbatim>\<open>server/filesystem/disk_checker.rs\<close>): a full scan rebuilds the
  size tree from a walk over the server's directory, a selective scan re-reads the directories
  that the notifier reported as modified and grafts them into the tree. The walk is the one of
  theory \<^verbatim>\<open>WalkDir\<close>; the metadata calls are parameters. The lemmas give the size of every
  directory after a full scan as a sum over the entries below it, count hard links once, and
  show that every scan leaves the cached totals equal to the root of the tree.
\<close>

section \<open>Model\<close>

record scan_meta =
  m_is_dir :: bool
  size_logical :: nat
  size_physical :: nat
  nlink :: nat
  ino :: nat

record disk_calls =
  c_read_dir :: "path \<Rightarrow> io_error + dir_entry list"
  c_symlink_metadata :: "path \<Rightarrow> io_error + scan_meta"

definition meta_delta :: "scan_meta \<Rightarrow> space_delta" where
  "meta_delta m = \<lparr>d_logical = as_i64 (size_logical m), d_physical = as_i64 (size_physical m)\<rparr>"

definition is_duplicate :: "scan_meta \<Rightarrow> nat list \<Rightarrow> bool" where
  "is_duplicate m seen \<longleftrightarrow> \<not> m_is_dir m \<and> 1 < nlink m \<and> ino m \<in> set seen"

text \<open>
  The body of both scan loops for an entry at path \<open>rel\<close> (relative to the scanned directory):
  a further link to a counted inode adds its logical size only.
\<close>

definition account_entry :: "path \<Rightarrow> scan_meta \<Rightarrow> disk_usage \<times> nat list \<Rightarrow> disk_usage \<times> nat list" where
  "account_entry rel m = (\<lambda>(d, seen).
     (let delta = meta_delta m in
      if is_duplicate m seen then
        ((case parent rel of
            Some p \<Rightarrow> update_size d (path_string p) (only_logical (d_logical delta))
          | None \<Rightarrow> d), seen)
      else
        ((if m_is_dir m then update_size d (path_string rel) delta
          else case parent rel of
                 Some p \<Rightarrow> update_size d (path_string p) delta
               | None \<Rightarrow> d),
         if \<not> m_is_dir m \<and> 1 < nlink m then ino m # seen else seen)))"

fun scan_dir ::
    "(path \<Rightarrow> io_error + scan_meta) \<Rightarrow> path \<Rightarrow> (io_error + (file_type \<times> path)) list \<Rightarrow>
     disk_usage \<times> nat list \<Rightarrow> io_error + disk_usage" where
  "scan_dir md dir [] (d, seen) = Inr d"
| "scan_dir md dir (Inl e # es) (d, seen) = Inl e"
| "scan_dir md dir (Inr (ft, p) # es) (d, seen) =
     (case md p of
        Inl _ \<Rightarrow> scan_dir md dir es (d, seen)
      | Inr m \<Rightarrow>
          (case strip_prefix dir p of
             None \<Rightarrow> scan_dir md dir es (d, seen)
           | Some rel \<Rightarrow> scan_dir md dir es (account_entry rel m (d, seen))))"

record scan_totals =
  total_size :: nat
  total_size_physical :: nat

definition add_totals :: "scan_meta \<Rightarrow> nat list \<Rightarrow> scan_totals \<Rightarrow> scan_totals" where
  "add_totals m seen t =
     (if is_duplicate m seen then t\<lparr>total_size := wrapping_add (total_size t) (size_logical m)\<rparr>
      else t\<lparr>total_size := wrapping_add (total_size t) (size_logical m),
             total_size_physical := wrapping_add (total_size_physical t) (size_physical m)\<rparr>)"

fun scan_full ::
    "(path \<Rightarrow> io_error + scan_meta) \<Rightarrow> (io_error + (file_type \<times> path)) list \<Rightarrow>
     disk_usage \<times> nat list \<Rightarrow> scan_totals \<Rightarrow> io_error + (disk_usage \<times> scan_totals)" where
  "scan_full md [] (d, seen) t = Inr (d, t)"
| "scan_full md (Inl e # es) (d, seen) t = Inl e"
| "scan_full md (Inr (ft, p) # es) (d, seen) t =
     (case md p of
        Inl _ \<Rightarrow> scan_full md es (d, seen) t
      | Inr m \<Rightarrow> scan_full md es (account_entry p m (d, seen)) (add_totals m seen t))"

text \<open>The directories to rescan for a list of modified (absolute) paths.\<close>

definition is_directory :: "io_error + scan_meta \<Rightarrow> bool" where
  "is_directory r = (case r of Inr m \<Rightarrow> m_is_dir m | Inl _ \<Rightarrow> False)"

function nearest_dir :: "(path \<Rightarrow> io_error + scan_meta) \<Rightarrow> path \<Rightarrow> path list" where
  "nearest_dir md p =
     (if p = [] then [p]
      else if is_directory (md (butlast p)) then [butlast p, butlast p]
      else nearest_dir md (butlast p))"
  by pat_completeness auto
termination
  by (relation "measure (\<lambda>(md, p). length p)") auto

declare nearest_dir.simps [simp del]

definition dirs_of_modified :: "(path \<Rightarrow> io_error + scan_meta) \<Rightarrow> path \<Rightarrow> path \<Rightarrow> path list" where
  "dirs_of_modified md base_path modified =
     (case strip_prefix base_path modified of
        None \<Rightarrow> []
      | Some relative \<Rightarrow>
          (case md relative of
             Inr m \<Rightarrow>
               if m_is_dir m then [relative]
               else (case parent relative of Some p \<Rightarrow> [p] | None \<Rightarrow> [])
           | Inl _ \<Rightarrow> nearest_dir md relative))"

definition dirs_to_scan :: "(path \<Rightarrow> io_error + scan_meta) \<Rightarrow> path \<Rightarrow> path list \<Rightarrow> path list" where
  "dirs_to_scan md base_path modified_paths =
     deduplicate_paths (concat (map (dirs_of_modified md base_path) modified_paths))"

definition walk_entries ::
    "nat \<Rightarrow> disk_calls \<Rightarrow> path \<Rightarrow> io_error + (io_error + (file_type \<times> path)) list option" where
  "walk_entries fuel io dir =
     (case walk_new (c_read_dir io) dir of
        Inl e \<Rightarrow> Inl e
      | Inr stk \<Rightarrow> Inr (walk_all fuel (c_read_dir io) never_ignored stk))"

definition store_root :: "disk_usage \<Rightarrow> nat \<Rightarrow> nat \<Rightarrow> fs_state \<Rightarrow> fs_state" where
  "store_root d l p st =
     publish_disk_usage p (st\<lparr>usage := d, cached_logical := l, cached_physical := p\<rparr>)"

definition graft_dir :: "path \<Rightarrow> disk_usage \<Rightarrow> fs_state \<Rightarrow> fs_state" where
  "graft_dir dir tmp st =
     (let d1 = (case remove_path (usage st) (path_string dir) of Some (_, d) \<Rightarrow> d | None \<Rightarrow> usage st);
          d2 = snd (add_directory d1 (map (to_string_lossy \<circ> as_os_str) dir) tmp)
      in store_root d2 (logical (space d2)) (physical (space d2)) st)"

text \<open>\<open>None\<close> is a walk that did not end within the fuel.\<close>

fun selective_scan ::
    "nat \<Rightarrow> disk_calls \<Rightarrow> path list \<Rightarrow> fs_state \<Rightarrow> ((io_error + unit) \<times> fs_state) option" where
  "selective_scan fuel io [] st = Some (Inr (), st)"
| "selective_scan fuel io (dir # dirs) st =
     (case walk_entries fuel io dir of
        Inl e \<Rightarrow> Some (Inl e, st)
      | Inr None \<Rightarrow> None
      | Inr (Some es) \<Rightarrow>
          (case scan_dir (c_symlink_metadata io) dir es (default_usage, []) of
             Inl e \<Rightarrow> Some (Inl e, st)
           | Inr tmp \<Rightarrow> selective_scan fuel io dirs (graft_dir dir tmp st)))"

definition full_scan :: "nat \<Rightarrow> disk_calls \<Rightarrow> fs_state \<Rightarrow> ((io_error + unit) \<times> fs_state) option" where
  "full_scan fuel io st =
     (case walk_entries fuel io [] of
        Inl e \<Rightarrow> Some (Inl e, st)
      | Inr None \<Rightarrow> None
      | Inr (Some es) \<Rightarrow>
          (case scan_full (c_symlink_metadata io) es (default_usage, []) \<lparr>total_size = 0, total_size_physical = 0\<rparr> of
             Inl e \<Rightarrow> Some (Inl e, st)
           | Inr (d, t) \<Rightarrow> Some (Inr (), store_root d (total_size t) (total_size_physical t) st)))"

definition run_inner ::
    "nat \<Rightarrow> disk_calls \<Rightarrow> path \<Rightarrow> path list option \<Rightarrow> fs_state \<Rightarrow> ((io_error + unit) \<times> fs_state) option" where
  "run_inner fuel io base_path paths_to_scan st =
     (case paths_to_scan of
        Some modified_paths \<Rightarrow>
          if modified_paths = [] then Some (Inr (), st)
          else
            let dirs = dirs_to_scan (c_symlink_metadata io) base_path modified_paths
            in if dirs \<noteq> [] \<and> hd dirs = [] then full_scan fuel io st
               else selective_scan fuel io dirs st
      | None \<Rightarrow> full_scan fuel io st)"


subsection \<open>The change notifier\<close>

record notifier =
  n_path :: path
  modified_paths :: "path list"
  is_trusted :: bool

definition notifier_new :: "path \<Rightarrow> notifier" where
  "notifier_new p = \<lparr>n_path = p, modified_paths = [p], is_trusted = True\<rparr>"

definition MAX_PATHS_BEFORE_DEDUP :: nat where
  "MAX_PATHS_BEFORE_DEDUP = 512"

definition add_path :: "notifier \<Rightarrow> path \<Rightarrow> notifier" where
  "add_path n p =
     (if modified_paths n \<noteq> [] \<and> hd (modified_paths n) = n_path n then n
      else
        let paths = modified_paths n @ [p];
            paths = (if MAX_PATHS_BEFORE_DEDUP \<le> length paths then deduplicate_paths paths else paths);
            paths = (if MAX_PATHS_BEFORE_DEDUP \<le> length paths then [n_path n] else paths)
        in n\<lparr>modified_paths := paths\<rparr>)"

definition clear_modified_paths :: "notifier \<Rightarrow> notifier" where
  "clear_modified_paths n = n\<lparr>modified_paths := []\<rparr>"

definition take_modified_paths :: "notifier \<Rightarrow> path list \<times> notifier" where
  "take_modified_paths n = (deduplicate_paths (modified_paths n), n\<lparr>modified_paths := []\<rparr>)"

text \<open>
  The watcher callback. Events that are accesses or of kind other are dropped; each path of an
  event goes to the first notifier (of those iterated) whose directory contains it; hitting the
  watch limit marks every notifier untrusted.
\<close>

datatype watch_event = Event bool "path list" | MaxFilesWatch | OtherError

fun notify_path :: "notifier list \<Rightarrow> path \<Rightarrow> notifier list" where
  "notify_path [] p = []"
| "notify_path (n # ns) p = (if prefix (n_path n) p then add_path n p # ns else n # notify_path ns p)"

definition on_event :: "notifier list \<Rightarrow> watch_event \<Rightarrow> notifier list" where
  "on_event ns ev =
     (case ev of
        Event access_or_other paths \<Rightarrow> if access_or_other then ns else foldl notify_path ns paths
      | MaxFilesWatch \<Rightarrow> map (\<lambda>n. n\<lparr>is_trusted := False\<rparr>) ns
      | OtherError \<Rightarrow> ns)"

subsection \<open>The checker loop\<close>

record checker =
  fs :: fs_state
  notif :: notifier
  state_dirty :: bool
  force_scan :: bool
  full_disk_check_counter :: nat
  use_server_notifier :: bool
  last_disk_check :: nat

datatype panic = RemainderByZero

definition rerun_disk_checker :: "checker \<Rightarrow> checker" where
  "rerun_disk_checker c = c\<lparr>notif := clear_modified_paths (notif c), force_scan := True\<rparr>"

definition choose_paths :: "nat \<Rightarrow> checker \<Rightarrow> path list option \<times> checker" where
  "choose_paths every c =
     (if full_disk_check_counter c mod every = 0 then (None, c)
      else if use_server_notifier c \<and> is_trusted (notif c) then
        (case take_modified_paths (notif c) of (paths, n) \<Rightarrow> (Some paths, c\<lparr>notif := n\<rparr>))
      else (None, c))"

text \<open>
  One round of the loop in \<^verbatim>\<open>run\<close>; \<open>every\<close> is the setting \<^verbatim>\<open>full_disk_check_every\<close> and
  \<open>now\<close> the clock. A zero setting panics at the remainder. \<open>force_scan\<close> is set by the
  notification that ends the wait of the previous round (\<open>rerun_disk_checker\<close>).
\<close>

definition tick :: "nat \<Rightarrow> disk_calls \<Rightarrow> path \<Rightarrow> nat \<Rightarrow> nat \<Rightarrow> checker \<Rightarrow> (panic + checker) option" where
  "tick fuel io base_path every now c =
     (let dirty = state_dirty c; c1 = c\<lparr>state_dirty := False\<rparr> in
      if \<not> dirty \<and> \<not> force_scan c1 then Some (Inr (c1\<lparr>force_scan := False\<rparr>))
      else if every = 0 then Some (Inl RemainderByZero)
      else
        (case choose_paths every c1 of (paths, c2) \<Rightarrow>
          (let c3 = c2\<lparr>full_disk_check_counter := wrapping_add (full_disk_check_counter c2) 1\<rparr> in
           case run_inner fuel io base_path paths (fs c3) of
             None \<Rightarrow> None
           | Some (Inr _, st) \<Rightarrow> Some (Inr (c3\<lparr>fs := st, last_disk_check := now, force_scan := False\<rparr>))
           | Some (Inl _, st) \<Rightarrow> Some (Inr (c3\<lparr>fs := st, force_scan := False\<rparr>)))))"


section \<open>What a scan records\<close>

definition good_path :: "path \<Rightarrow> bool" where
  "good_path p \<longleftrightarrow> (\<forall>c \<in> set p. \<exists>s. c = Normal s \<and> plain_name s \<and> to_str s = Some s)"

definition keys :: "path \<Rightarrow> string list" where
  "keys p = map as_os_str p"

lemma components_path_string:
  assumes "good_path p"
  shows "components (path_string p) = p"
proof -
  have "\<forall>s \<in> set (map as_os_str p). plain_name s"
    using assms by (auto simp: good_path_def)
  moreover have "map Normal (map as_os_str p) = p"
    using assms by (induction p) (auto simp: good_path_def)
  ultimately show ?thesis by (metis components_join_slash path_string_def)
qed

lemma path_keys_path_string: "good_path p \<Longrightarrow> path_keys (path_string p) = keys p"
  by (auto simp: path_keys_def components_path_string keys_def good_path_def to_str_or_default_def)

lemma is_root_path_string: "good_path p \<Longrightarrow> is_root_path (path_string p) \<longleftrightarrow> p = []"
  by (auto simp: is_root_path_iff components_path_string good_path_def)

lemma update_size_path:
  "good_path p \<Longrightarrow> update_size d (path_string p) t = update_size_iterator d (keys p) t"
  by (auto simp: update_size_def update_size_iterator_def is_root_path_string path_keys_path_string keys_def)

text \<open>
  What one entry contributes: the directory it is charged to, its logical size, and its physical
  size, which a further link to an inode already seen does not add.
\<close>

type_synonym charge = "string list \<times> nat \<times> nat"

definition c_logical :: "charge \<Rightarrow> nat" where
  "c_logical c = fst (snd c)"

definition c_physical :: "charge \<Rightarrow> nat" where
  "c_physical c = snd (snd c)"

lemma c_sel [simp]: "c_logical (k, l, p) = l" "c_physical (k, l, p) = p"
  by (simp_all add: c_logical_def c_physical_def)

definition charge_of :: "path \<Rightarrow> scan_meta \<Rightarrow> nat list \<Rightarrow> charge" where
  "charge_of p m seen =
     (keys (if m_is_dir m then p else butlast p), size_logical m, if is_duplicate m seen then 0 else size_physical m)"

fun charges :: "(path \<times> scan_meta) list \<Rightarrow> nat list \<Rightarrow> charge list" where
  "charges [] seen = []"
| "charges ((p, m) # es) seen =
     charge_of p m seen # charges es (if \<not> m_is_dir m \<and> 1 < nlink m \<and> ino m \<notin> set seen then ino m # seen else seen)"

definition apply_charge :: "disk_usage \<Rightarrow> charge \<Rightarrow> disk_usage" where
  "apply_charge d c = update_size_iterator d (fst c) \<lparr>d_logical = int (c_logical c), d_physical = int (c_physical c)\<rparr>"

definition good_entry :: "path \<times> scan_meta \<Rightarrow> bool" where
  "good_entry = (\<lambda>(p, m). p \<noteq> [] \<and> good_path p \<and> size_logical m < 2 ^ 63 \<and> size_physical m < 2 ^ 63)"

lemma good_path_butlast: "good_path p \<Longrightarrow> good_path (butlast p)"
  by (auto simp: good_path_def dest: in_set_butlastD)

lemma account_entry_charge:
  assumes "good_entry (p, m)"
  shows "account_entry p m (d, seen) =
    (apply_charge d (charge_of p m seen),
     if \<not> m_is_dir m \<and> 1 < nlink m \<and> ino m \<notin> set seen then ino m # seen else seen)"
  using assms good_path_butlast [of p]
  by (auto simp: good_entry_def account_entry_def charge_of_def apply_charge_def meta_delta_def Let_def
      is_duplicate_def parent_def only_logical_def update_size_path as_i64_exact)

definition charge_sum :: "(charge \<Rightarrow> nat) \<Rightarrow> string list \<Rightarrow> charge list \<Rightarrow> nat" where
  "charge_sum f q cs = sum_list (map f (filter (\<lambda>c. prefix q (fst c)) cs))"

definition charged :: "string list \<Rightarrow> charge list \<Rightarrow> used_space option" where
  "charged q cs =
     (if q = [] \<or> (\<exists>c \<in> set cs. prefix q (fst c))
      then Some \<lparr>logical = charge_sum c_logical q cs, physical = charge_sum c_physical q cs\<rparr> else None)"

lemma charge_sum_simps [simp]:
  "charge_sum f q [] = 0"
  "charge_sum f q (c # cs) = (if prefix q (fst c) then f c else 0) + charge_sum f q cs"
  "charge_sum f q (cs @ [c]) = charge_sum f q cs + (if prefix q (fst c) then f c else 0)"
  by (simp_all add: charge_sum_def)

lemma charge_sum_le: "charge_sum f q cs \<le> charge_sum f [] cs"
  by (induction cs) (auto simp: charge_sum_def)

lemma space_at_apply_charges:
  assumes "charge_sum c_logical [] cs \<le> u64_max" and "charge_sum c_physical [] cs \<le> u64_max"
  shows "wf_usage (foldl apply_charge default_usage cs) \<and>
    space_at (foldl apply_charge default_usage cs) q = charged q cs"
  using assms
proof (induction cs arbitrary: q rule: rev_induct)
  case Nil
  then show ?case by (auto simp: wf_default space_at_default charged_def charge_sum_def default_space_def)
next
  case (snoc c cs)
  let ?d = "foldl apply_charge default_usage cs"
  let ?t = "\<lparr>d_logical = int (c_logical c), d_physical = int (c_physical c)\<rparr>"
  have sums: "charge_sum c_logical [] cs + c_logical c \<le> u64_max" "charge_sum c_physical [] cs + c_physical c \<le> u64_max"
    using snoc.prems by (simp_all add: charge_sum_def)
  have IH: "wf_usage ?d" "space_at ?d q = charged q cs" using snoc.IH sums by auto
  have le: "charge_sum c_logical q cs + c_logical c \<le> u64_max" "charge_sum c_physical q cs + c_physical c \<le> u64_max"
    using sums charge_sum_le [of c_logical q cs] charge_sum_le [of c_physical q cs] by simp_all
  have zero: "charged q cs = None \<Longrightarrow> charge_sum f q cs = 0" for f
    by (auto simp: charged_def charge_sum_def split: if_splits)
  have upd: "wf_usage (apply_charge ?d c)" "space_at (apply_charge ?d c) q =
     (if prefix q (fst c)
      then Some (apply_space_delta ?t (case charged q cs of None \<Rightarrow> default_space | Some s \<Rightarrow> s))
      else charged q cs)"
    using space_at_update_size_iterator [OF IH(1), of "fst c" ?t q] IH(2) by (auto simp: apply_charge_def)
  show ?case
  proof (cases "prefix q (fst c)")
    case False
    then have "charged q (cs @ [c]) = charged q cs" by (auto simp: charged_def charge_sum_def)
    with upd False show ?thesis by simp
  next
    case True
    let ?s = "case charged q cs of None \<Rightarrow> default_space | Some s \<Rightarrow> s"
    have s: "logical ?s = charge_sum c_logical q cs" "physical ?s = charge_sum c_physical q cs"
      using zero [of c_logical] zero [of c_physical]
      by (auto simp: charged_def default_space_def split: if_splits)
    have "apply_space_delta ?t ?s =
       \<lparr>logical = charge_sum c_logical q cs + c_logical c, physical = charge_sum c_physical q cs + c_physical c\<rparr>"
      using apply_space_delta_nonneg [of ?t "c_logical c" "c_physical c" ?s] s le by simp
    also have "Some \<dots> = charged q (cs @ [c])" using True by (auto simp: charged_def charge_sum_def)
    finally show ?thesis using upd True by simp
  qed
qed


fun scanned :: "(path \<Rightarrow> io_error + scan_meta) \<Rightarrow> (file_type \<times> path) list \<Rightarrow> (path \<times> scan_meta) list" where
  "scanned md [] = []"
| "scanned md ((ft, p) # es) = (case md p of Inl _ \<Rightarrow> scanned md es | Inr m \<Rightarrow> (p, m) # scanned md es)"

lemma scan_full_charges:
  assumes "list_all good_entry (scanned md ls)"
    and "total_size t + charge_sum c_logical [] (charges (scanned md ls) seen) \<le> u64_max"
    and "total_size_physical t + charge_sum c_physical [] (charges (scanned md ls) seen) \<le> u64_max"
  shows "scan_full md (map Inr ls) (d, seen) t =
    Inr (foldl apply_charge d (charges (scanned md ls) seen),
         \<lparr>total_size = total_size t + charge_sum c_logical [] (charges (scanned md ls) seen),
          total_size_physical = total_size_physical t + charge_sum c_physical [] (charges (scanned md ls) seen)\<rparr>)"
  using assms
proof (induction ls arbitrary: d seen t)
  case Nil
  then show ?case by (simp add: charge_sum_def)
next
  case (Cons e ls)
  obtain ft p where e: "e = (ft, p)" by force
  show ?case
  proof (cases "md p")
    case (Inl err)
    with Cons e show ?thesis by simp
  next
    case (Inr m)
    let ?seen = "if \<not> m_is_dir m \<and> 1 < nlink m \<and> ino m \<notin> set seen then ino m # seen else seen"
    let ?t = "add_totals m seen t"
    have g: "good_entry (p, m)" "list_all good_entry (scanned md ls)" using Cons.prems e Inr by simp_all
    have t: "?t = \<lparr>total_size = total_size t + size_logical m,
        total_size_physical = total_size_physical t + (if is_duplicate m seen then 0 else size_physical m)\<rparr>"
      using Cons.prems(2,3) e Inr
      by (cases t) (auto simp: add_totals_def wrapping_add_exact charge_sum_def charge_of_def)
    have "scan_full md (map Inr ls) (apply_charge d (charge_of p m seen), ?seen) ?t =
      Inr (foldl apply_charge (apply_charge d (charge_of p m seen)) (charges (scanned md ls) ?seen),
         \<lparr>total_size = total_size ?t + charge_sum c_logical [] (charges (scanned md ls) ?seen),
          total_size_physical = total_size_physical ?t + charge_sum c_physical [] (charges (scanned md ls) ?seen)\<rparr>)"
      using Cons.prems(2,3) e Inr t by (intro Cons.IH g(2)) (simp_all add: charge_sum_def charge_of_def)
    then show ?thesis
      using e Inr g(1) t by (simp add: account_entry_charge charge_sum_def charge_of_def)
  qed
qed

lemma synced_store_root:
  assumes "wf_usage d" and "space d = \<lparr>logical = l, physical = p\<rparr>" and "l \<le> u64_max" and "p \<le> u64_max"
  shows "synced (store_root d l p st)"
  using assms by (simp add: synced_def store_root_def cached_def fits_def)

lemma full_scan_spec:
  assumes "serves (c_read_dir io) [] (Node es)" and "length (listing [] (Node es)) < fuel"
    and "list_all good_entry (scanned (c_symlink_metadata io) (listing [] (Node es)))"
    and "cs = charges (scanned (c_symlink_metadata io) (listing [] (Node es))) []"
    and "charge_sum c_logical [] cs \<le> u64_max" and "charge_sum c_physical [] cs \<le> u64_max"
  shows "\<exists>st'. full_scan fuel io st = Some (Inr (), st') \<and> synced st' \<and>
    (\<forall>q. space_at (usage st') q = charged q cs) \<and> cached st' = the (charged [] cs)"
proof -
  let ?ls = "listing [] (Node es)"
  let ?d = "foldl apply_charge default_usage cs"
  have w: "walk_entries fuel io [] = Inr (Some (map Inr ?ls))"
    using walk_all_pending [of "c_read_dir io" "[([], es)]" fuel] assms(1,2)
    by (simp add: walk_entries_def walk_new_def served_def pending_def open_dir_def)
  have "scan_full (c_symlink_metadata io) (map Inr ?ls) (default_usage, []) \<lparr>total_size = 0, total_size_physical = 0\<rparr> =
    Inr (?d, \<lparr>total_size = charge_sum c_logical [] cs, total_size_physical = charge_sum c_physical [] cs\<rparr>)"
    using scan_full_charges [OF assms(3), of "\<lparr>total_size = 0, total_size_physical = 0\<rparr>" "[]" default_usage]
      assms(4-6) by simp
  then have run: "full_scan fuel io st =
      Some (Inr (), store_root ?d (charge_sum c_logical [] cs) (charge_sum c_physical [] cs) st)"
    by (simp add: full_scan_def w)
  note at = space_at_apply_charges [OF assms(5,6)]
  have root: "space ?d = \<lparr>logical = charge_sum c_logical [] cs, physical = charge_sum c_physical [] cs\<rparr>"
    using at [of "[]"] by (simp add: charged_def)
  have "synced (store_root ?d (charge_sum c_logical [] cs) (charge_sum c_physical [] cs) st)"
    using at root assms(5,6) by (intro synced_store_root) auto
  then show ?thesis
    using run at by (intro exI [of _ "store_root ?d (charge_sum c_logical [] cs) (charge_sum c_physical [] cs) st"])
      (simp add: store_root_def cached_def charged_def)
qed

text \<open>
  C2. A full scan of a server directory ends and rebuilds the accounting from what is on disk:
  the size recorded for every directory is the sum over all entries below it (a directory
  counted with itself, a file with its parent), further links to a counted inode add no physical
  size, directories without an entry are not recorded, and the cached totals equal the root.
\<close>

theorem full_scan_sizes:
  assumes "serves (c_read_dir io) [] (Node es)" and "length (listing [] (Node es)) < fuel"
    and "list_all good_entry (scanned (c_symlink_metadata io) (listing [] (Node es)))"
    and "cs = charges (scanned (c_symlink_metadata io) (listing [] (Node es))) []"
    and "charge_sum c_logical [] cs \<le> u64_max" and "charge_sum c_physical [] cs \<le> u64_max"
  shows "\<exists>st'. full_scan fuel io st = Some (Inr (), st') \<and> synced st' \<and>
    (\<forall>q. space_at (usage st') q = charged q cs) \<and> cached st' = the (charged [] cs)"
  by (rule full_scan_spec [OF assms])

definition sample_disk :: disk_calls where
  "sample_disk = \<lparr>c_read_dir = sample_read_dir,
     c_symlink_metadata = (\<lambda>p.
       if p = [Normal ''a''] then Inr \<lparr>m_is_dir = True, size_logical = 4096, size_physical = 4096, nlink = 2, ino = 1\<rparr>
       else Inr \<lparr>m_is_dir = False, size_logical = 100, size_physical = 512, nlink = 2, ino = 7\<rparr>)\<rparr>"

lemma sample_scan_charges:
  "charges (scanned (c_symlink_metadata sample_disk)
     (listing [] (Node [(''a'', Node [(''g'', Leaf File)]), (''f'', Leaf File)]))) [] =
   [([''a''], 4096, 4096), ([''a''], 100, 512), ([], 100, 0)]"
  by (simp add: sample_disk_def charge_of_def keys_def is_duplicate_def)

theorem full_scan_sizes_witness:
  "\<exists>st'. full_scan 4 sample_disk sample_state = Some (Inr (), st') \<and> synced st' \<and>
    space_at (usage st') [''a''] = Some \<lparr>logical = 4196, physical = 4608\<rparr> \<and>
    cached st' = \<lparr>logical = 4296, physical = 4608\<rparr>"
proof -
  let ?es = "[(''a'', Node [(''g'', Leaf File)]), (''f'', Leaf File)]"
  let ?cs = "[([''a''], 4096, 4096), ([''a''], 100, 512), ([], 100, 0)] :: charge list"
  have srv: "serves (c_read_dir sample_disk) [] (Node ?es)"
    by (simp add: sample_disk_def sample_read_dir_def)
  have good: "list_all good_entry (scanned (c_symlink_metadata sample_disk) (listing [] (Node ?es)))"
    by (simp add: sample_disk_def good_entry_def good_path_def plain_name_def to_str_def valid_utf8.simps)
  obtain st' where st': "full_scan 4 sample_disk sample_state = Some (Inr (), st')" "synced st'"
    "\<forall>q. space_at (usage st') q = charged q ?cs" "cached st' = the (charged [] ?cs)"
    using full_scan_sizes [OF srv _ good sample_scan_charges [symmetric], of 4 sample_state]
    by (auto simp: charge_sum_def u64_max_def)
  then show ?thesis by (simp add: charged_def charge_sum_def)
qed


section \<open>Selective scans\<close>

definition relative_to :: "path \<Rightarrow> (path \<times> scan_meta) list \<Rightarrow> (path \<times> scan_meta) list" where
  "relative_to dir es = map (\<lambda>(p, m). (drop (length dir) p, m)) es"

lemma listing_below: "(ft, p) \<in> set (listing dir t) \<Longrightarrow> strict_prefix dir p"
proof (induction dir t arbitrary: ft p rule: listing.induct)
  case (2 dir es)
  then obtain name t where nt: "(name, t) \<in> set es"
    and p: "p = dir @ [Normal name] \<or> (ft, p) \<in> set (listing (dir @ [Normal name]) t)" by auto
  from p show ?case
  proof
    assume "p = dir @ [Normal name]"
    then show ?thesis by (simp add: strict_prefix_def)
  next
    assume "(ft, p) \<in> set (listing (dir @ [Normal name]) t)"
    from "2.IH" [OF nt refl this] show ?thesis
      by (metis append_prefixD prefix_length_le length_append_singleton not_less_eq_eq order_refl
          strict_prefix_def)
  qed
qed simp

lemma scan_dir_charges:
  assumes "list_all good_entry (relative_to dir (scanned md ls))" and "\<forall>(ft, p) \<in> set ls. prefix dir p"
  shows "scan_dir md dir (map Inr ls) (d, seen) =
    Inr (foldl apply_charge d (charges (relative_to dir (scanned md ls)) seen))"
  using assms
proof (induction ls arbitrary: d seen)
  case Nil
  then show ?case by (simp add: relative_to_def)
next
  case (Cons e ls)
  obtain ft p where e: "e = (ft, p)" by force
  show ?case
    using Cons e
    by (cases "md p") (auto simp: relative_to_def strip_prefix_def account_entry_charge)
qed

lemma remove_path_wf: "wf_usage d \<Longrightarrow> remove_path d q = Some (r, d') \<Longrightarrow> wf_usage d'"
  using recursive_remove_spec [of d "path_keys q"] by (auto simp: remove_path_def split: if_splits)

lemma add_directory_wf:
  "wf_usage d \<Longrightarrow> wf_usage source \<Longrightarrow> wf_usage (snd (add_directory d q source))"
  by (simp add: add_directory_def Let_def wf_add_loop)

lemma get_path_add_directory:
  assumes "wf_usage d" and "wf_usage source" and "p \<noteq> []"
  shows "get_path_components (snd (add_directory d p source)) (p @ q) = get_path_components source q"
proof (cases p rule: rev_cases)
  case (snoc ps leaf)
  then show ?thesis
    using get_path_add_loop [OF assms(1,2), of _ _ ps leaf q] by (simp add: add_directory_def Let_def)
qed (use assms in simp)

lemma keys_lossy: "good_path dir \<Longrightarrow> map (to_string_lossy \<circ> as_os_str) dir = keys dir"
  by (auto simp: keys_def good_path_def to_string_lossy_valid)

lemma graft_dir_wf:
  assumes "wf_usage (usage st)" and "wf_usage tmp"
  shows "wf_usage (usage (graft_dir dir tmp st))"
    and "cached (graft_dir dir tmp st) = space (usage (graft_dir dir tmp st))"
  using assms remove_path_wf [OF assms(1), of "path_string dir"]
  by (auto simp: graft_dir_def Let_def store_root_def cached_def add_directory_wf split: option.splits)

lemma graft_dir_lookup:
  assumes "wf_usage (usage st)" and "wf_usage tmp" and "good_path dir" and "dir \<noteq> []"
  shows "space_at (usage (graft_dir dir tmp st)) (keys dir @ q) = space_at tmp q"
proof -
  let ?d1 = "case remove_path (usage st) (path_string dir) of Some (_, d) \<Rightarrow> d | None \<Rightarrow> usage st"
  have "wf_usage ?d1" using assms(1) remove_path_wf by (auto split: option.splits)
  from get_path_add_directory [OF this assms(2), of "keys dir" q] assms(3,4) show ?thesis
    by (simp add: graft_dir_def Let_def store_root_def space_at_def keys_lossy)
      (simp add: keys_def)
qed

lemma selective_scan_spec:
  assumes "serves (c_read_dir io) dir (Node es)" and "length (listing dir (Node es)) < fuel"
    and "list_all good_entry (relative_to dir (scanned (c_symlink_metadata io) (listing dir (Node es))))"
    and "cs = charges (relative_to dir (scanned (c_symlink_metadata io) (listing dir (Node es)))) []"
    and "charge_sum c_logical [] cs \<le> u64_max" and "charge_sum c_physical [] cs \<le> u64_max"
    and "wf_usage (usage st)" and "good_path dir" and "dir \<noteq> []"
  shows "\<exists>st'. selective_scan fuel io [dir] st = Some (Inr (), st') \<and> wf_usage (usage st') \<and>
    cached st' = space (usage st') \<and> (\<forall>q. space_at (usage st') (keys dir @ q) = charged q cs)"
proof -
  let ?ls = "listing dir (Node es)"
  let ?d = "foldl apply_charge default_usage cs"
  have w: "walk_entries fuel io dir = Inr (Some (map Inr ?ls))"
    using walk_all_pending [of "c_read_dir io" "[(dir, es)]" fuel] assms(1,2)
    by (simp add: walk_entries_def walk_new_def served_def pending_def open_dir_def)
  have "\<forall>(ft, p) \<in> set ?ls. prefix dir p"
    using listing_below [of _ _ dir "Node es"] by (auto simp: strict_prefix_def simp del: listing.simps)
  from scan_dir_charges [OF assms(3) this, of default_usage "[]"]
  have run: "selective_scan fuel io [dir] st = Some (Inr (), graft_dir dir ?d st)"
    using w assms(4) by simp
  note at = space_at_apply_charges [OF assms(5,6)]
  show ?thesis
    using run at graft_dir_wf [OF assms(7), of ?d dir] graft_dir_lookup [OF assms(7) _ assms(8,9), of ?d]
    by (intro exI [of _ "graft_dir dir ?d st"]) simp
qed

text \<open>
  A selective scan of a directory ends, replaces what was recorded at and below it by the sums
  over the entries found below it, and leaves the cached totals equal to the root of the tree.
  The size of the scanned directory itself is not among the summands (the walk does not list
  its start), while a full scan counts it.
\<close>

lemma selective_scan_sizes:
  assumes "serves (c_read_dir io) dir (Node es)" and "length (listing dir (Node es)) < fuel"
    and "list_all good_entry (relative_to dir (scanned (c_symlink_metadata io) (listing dir (Node es))))"
    and "cs = charges (relative_to dir (scanned (c_symlink_metadata io) (listing dir (Node es)))) []"
    and "charge_sum c_logical [] cs \<le> u64_max" and "charge_sum c_physical [] cs \<le> u64_max"
    and "wf_usage (usage st)" and "good_path dir" and "dir \<noteq> []"
  shows "\<exists>st'. selective_scan fuel io [dir] st = Some (Inr (), st') \<and> wf_usage (usage st') \<and>
    cached st' = space (usage st') \<and> (\<forall>q. space_at (usage st') (keys dir @ q) = charged q cs)"
  by (rule selective_scan_spec [OF assms])

lemma sample_full_scan:
  "\<exists>st. full_scan 4 sample_disk sample_state = Some (Inr (), st) \<and> synced st \<and>
     space_at (usage st) [''a''] = Some \<lparr>logical = 4196, physical = 4608\<rparr>"
proof -
  let ?es = "[(''a'', Node [(''g'', Leaf File)]), (''f'', Leaf File)]"
  have srv: "serves (c_read_dir sample_disk) [] (Node ?es)"
    by (simp add: sample_disk_def sample_read_dir_def)
  have good: "list_all good_entry (scanned (c_symlink_metadata sample_disk) (listing [] (Node ?es)))"
    by (simp add: sample_disk_def good_entry_def good_path_def plain_name_def to_str_def valid_utf8.simps)
  show ?thesis
    using full_scan_spec [OF srv _ good sample_scan_charges [symmetric], of 4 sample_state]
    by (auto simp: u64_max_def charged_def)
qed

lemma sample_selective_scan:
  assumes "wf_usage (usage st)"
  shows "\<exists>st'. selective_scan 4 sample_disk [[Normal ''a'']] st = Some (Inr (), st') \<and>
    space_at (usage st') [''a''] = Some \<lparr>logical = 100, physical = 512\<rparr> \<and> cached st' = space (usage st')"
proof -
  let ?dir = "[Normal ''a'']"
  let ?cs = "[([], 100, 512)] :: charge list"
  have srv: "serves (c_read_dir sample_disk) ?dir (Node [(''g'', Leaf File)])"
    by (simp add: sample_disk_def sample_read_dir_def)
  have good: "list_all good_entry (relative_to ?dir (scanned (c_symlink_metadata sample_disk)
      (listing ?dir (Node [(''g'', Leaf File)]))))"
    by (simp add: sample_disk_def relative_to_def good_entry_def good_path_def plain_name_def to_str_def
        valid_utf8.simps)
  have cs: "?cs = charges (relative_to ?dir (scanned (c_symlink_metadata sample_disk)
      (listing ?dir (Node [(''g'', Leaf File)])))) []"
    by (simp add: sample_disk_def relative_to_def charge_of_def keys_def is_duplicate_def)
  have gp: "good_path ?dir" by (simp add: good_path_def plain_name_def to_str_def valid_utf8.simps)
  obtain st' where st': "selective_scan 4 sample_disk [?dir] st = Some (Inr (), st')"
    "cached st' = space (usage st')" "\<And>q. space_at (usage st') (keys ?dir @ q) = charged q ?cs"
    using selective_scan_spec [OF srv _ good cs _ _ assms gp, of 4] by (auto simp: u64_max_def)
  have "space_at (usage st') [''a''] = Some \<lparr>logical = 100, physical = 512\<rparr>"
    using st'(3) [of "[]"] by (simp add: keys_def charged_def)
  with st' show ?thesis by auto
qed

text \<open>
  On a disk that has not changed, a selective scan disagrees with the full scan: the sample
  directory \<open>a\<close> is recorded with 4196 bytes by the full scan and with 100 bytes once a
  notification for a file in it has been processed, because its own 4096 bytes are dropped.
\<close>

lemma selective_scan_drops_directory_size:
  "\<exists>st st'. full_scan 4 sample_disk sample_state = Some (Inr (), st) \<and>
     map_option logical (space_at (usage st) [''a'']) = Some 4196 \<and>
     run_inner 4 sample_disk [RootDir, Normal ''srv'']
       (Some [[RootDir, Normal ''srv'', Normal ''a'', Normal ''g'']]) st = Some (Inr (), st') \<and>
     map_option logical (space_at (usage st') [''a'']) = Some 100"
proof -
  obtain st where st: "full_scan 4 sample_disk sample_state = Some (Inr (), st)" "synced st"
    "space_at (usage st) [''a''] = Some \<lparr>logical = 4196, physical = 4608\<rparr>"
    using sample_full_scan by blast
  have dirs: "dirs_to_scan (c_symlink_metadata sample_disk) [RootDir, Normal ''srv'']
      [[RootDir, Normal ''srv'', Normal ''a'', Normal ''g'']] = [[Normal ''a'']]"
    by (simp add: dirs_to_scan_def dirs_of_modified_def strip_prefix_def sample_disk_def parent_def
        deduplicate_paths_def)
  obtain st' where st': "selective_scan 4 sample_disk [[Normal ''a'']] st = Some (Inr (), st')"
    "space_at (usage st') [''a''] = Some \<lparr>logical = 100, physical = 512\<rparr>"
    using sample_selective_scan [of st] st(2) by (auto simp: synced_def)
  show ?thesis
    using st st' dirs by (intro exI [of _ st] exI [of _ st']) (simp add: run_inner_def)
qed


section \<open>Notifications and reruns\<close>

definition covers :: "notifier \<Rightarrow> path \<Rightarrow> bool" where
  "covers n p \<longleftrightarrow> (\<exists>r \<in> set (modified_paths n). prefix r p)"

lemma add_path_n_path [simp]: "n_path (add_path n p) = n_path n"
  by (simp add: add_path_def Let_def)

lemma add_path_bound:
  "length (modified_paths n) < MAX_PATHS_BEFORE_DEDUP \<Longrightarrow>
   length (modified_paths (add_path n p)) < MAX_PATHS_BEFORE_DEDUP"
  by (auto simp: add_path_def Let_def MAX_PATHS_BEFORE_DEDUP_def)

lemma add_path_covers:
  assumes "prefix (n_path n) q" and "q = p \<or> covers n q"
  shows "covers (add_path n p) q"
proof (cases "modified_paths n \<noteq> [] \<and> hd (modified_paths n) = n_path n")
  case True
  then show ?thesis using assms(1) by (auto simp: covers_def add_path_def intro: bexI [OF _ hd_in_set])
next
  case False
  define paths where "paths = (if MAX_PATHS_BEFORE_DEDUP \<le> length (modified_paths n @ [p])
    then deduplicate_paths (modified_paths n @ [p]) else modified_paths n @ [p])"
  obtain r where r: "r \<in> set (modified_paths n @ [p])" "prefix r q"
    using assms(2) by (auto simp: covers_def)
  then obtain r' where "r' \<in> set paths" "prefix r' q"
    using deduplicate_paths_spec [of "modified_paths n @ [p]"] prefix_order.trans [of _ r q]
    unfolding paths_def by (cases "MAX_PATHS_BEFORE_DEDUP \<le> length (modified_paths n @ [p])") auto
  with False assms(1) show ?thesis
    by (auto simp: covers_def add_path_def Let_def paths_def)
qed

text \<open>
  No notification is lost: after any series of reported paths below the server's directory, each
  of them, and each path covered before, lies at or below one of the recorded paths, however
  often the list was compacted; and the list never reaches the threshold of 512 paths.
\<close>

lemma notifier_loses_nothing:
  assumes "\<forall>p \<in> set ps. prefix (n_path n) p" and "length (modified_paths n) < MAX_PATHS_BEFORE_DEDUP"
  shows "(\<forall>p \<in> set ps. covers (foldl add_path n ps) p) \<and>
    (\<forall>q. prefix (n_path n) q \<longrightarrow> covers n q \<longrightarrow> covers (foldl add_path n ps) q) \<and>
    length (modified_paths (foldl add_path n ps)) < MAX_PATHS_BEFORE_DEDUP"
  using assms
proof (induction ps arbitrary: n)
  case (Cons p ps)
  let ?n = "add_path n p"
  have "(\<forall>x \<in> set ps. covers (foldl add_path ?n ps) x) \<and>
    (\<forall>q. prefix (n_path ?n) q \<longrightarrow> covers ?n q \<longrightarrow> covers (foldl add_path ?n ps) q) \<and>
    length (modified_paths (foldl add_path ?n ps)) < MAX_PATHS_BEFORE_DEDUP"
    using Cons.prems add_path_bound [of n p] by (intro Cons.IH) auto
  then show ?case using add_path_covers [of n _ p] Cons.prems(1) by auto
qed auto

text \<open>
  A requested rerun can do nothing: \<^verbatim>\<open>rerun_disk_checker\<close> empties the notifier's list and
  forces a round, but unless the round is one of the periodic full ones, a trusted notifier makes
  it selective, with no path left to scan. The accounting keeps its old values, the pending
  notifications are gone and the check is recorded as completed.
\<close>

lemma rerun_disk_checker_scans_nothing:
  assumes "full_disk_check_counter c mod every \<noteq> 0" and "every \<noteq> 0"
    and "use_server_notifier c" and "is_trusted (notif c)"
  shows "\<exists>c'. tick fuel io base_path every now (rerun_disk_checker c) = Some (Inr c') \<and>
    fs c' = fs c \<and> modified_paths (notif c') = [] \<and> last_disk_check c' = now \<and> \<not> force_scan c'"
  using assms
  by (simp add: tick_def rerun_disk_checker_def choose_paths_def clear_modified_paths_def
      take_modified_paths_def deduplicate_paths_def run_inner_def Let_def)

end
