(* ===== verification/SshLimiter.thy ===== *)
theory SshLimiter
  imports Prelude
begin

text \<open>
  The SSH limiter (\<^verbatim>\<open>ssh/limiter.rs\<close>): authentication attempts per address, sessions per user and
  open file handles. The operations on the two mutex-guarded maps are state functions. Opening a
  handle is lock-free (an atomic increment, a comparison, possibly an atomic decrement) and is a
  step relation over any number of concurrent callers. The locale \<^verbatim>\<open>bounded_counter\<close> states what
  the sessions and the handles of one caller at a time have in common.
\<close>

section \<open>Model\<close>

type_synonym ip_addr = nat
type_synonym uuid = string

text \<open>An \<^verbatim>\<open>Instant\<close> is a number of nanoseconds.\<close>

type_synonym instant = nat

definition as_secs_since :: "instant \<Rightarrow> instant \<Rightarrow> nat" where
  "as_secs_since now earlier = (now - earlier) div 1000000000"

datatype authentication_type = Password | PublicKey

datatype ssh_error = Disconnect

record limits =
  authentication_cooldown :: nat
  authentication_password_attempts :: nat
  authentication_pubkey_attempts :: nat
  max_connections_per_user :: nat
  max_handles_total :: nat

record ratelimit =
  password_attempts :: nat
  pubkey_attempts :: nat
  last_attempt :: instant

definition default_ratelimit :: "instant \<Rightarrow> ratelimit" where
  "default_ratelimit now = \<lparr>password_attempts = 0, pubkey_attempts = 0, last_attempt = now\<rparr>"

record limiter =
  ratelimits :: "ip_addr \<rightharpoonup> ratelimit"
  user_sessions :: "uuid \<rightharpoonup> nat"
  open_handles :: nat

definition limiter_new :: limiter where
  "limiter_new = \<lparr>ratelimits = Map.empty, user_sessions = Map.empty, open_handles = 0\<rparr>"

definition retain :: "('v \<Rightarrow> bool) \<Rightarrow> ('k \<rightharpoonup> 'v) \<Rightarrow> 'k \<rightharpoonup> 'v" where
  "retain keep m = (\<lambda>k. case m k of None \<Rightarrow> None | Some v \<Rightarrow> if keep v then Some v else None)"

text \<open>One round of the background task.\<close>

definition cleanup :: "limits \<Rightarrow> instant \<Rightarrow> limiter \<Rightarrow> limiter" where
  "cleanup cfg now l =
     l\<lparr>ratelimits := retain (\<lambda>r. as_secs_since now (last_attempt r) < authentication_cooldown cfg) (ratelimits l),
       user_sessions := retain (\<lambda>n. 0 < n) (user_sessions l)\<rparr>"

definition check_attempt ::
    "limits \<Rightarrow> instant \<Rightarrow> limiter \<Rightarrow> ip_addr \<Rightarrow> authentication_type \<Rightarrow> (ssh_error + unit) \<times> limiter" where
  "check_attempt cfg now l ip ty =
     (if authentication_cooldown cfg = 0 then (Inr (), l)
      else
        let entry = (case ratelimits l ip of None \<Rightarrow> default_ratelimit now | Some r \<Rightarrow> r);
            entry' = (case ty of
                Password \<Rightarrow> entry\<lparr>password_attempts := wrapping_add (password_attempts entry) 1, last_attempt := now\<rparr>
              | PublicKey \<Rightarrow> entry\<lparr>pubkey_attempts := wrapping_add (pubkey_attempts entry) 1, last_attempt := now\<rparr>);
            exceeded = (case ty of
                Password \<Rightarrow> authentication_password_attempts cfg < password_attempts entry'
              | PublicKey \<Rightarrow> authentication_pubkey_attempts cfg < pubkey_attempts entry')
        in (if exceeded then Inl Disconnect else Inr (), l\<lparr>ratelimits := (ratelimits l)(ip \<mapsto> entry')\<rparr>))"

definition finish_attempt :: "limits \<Rightarrow> limiter \<Rightarrow> ip_addr \<Rightarrow> authentication_type \<Rightarrow> limiter" where
  "finish_attempt cfg l ip ty =
     (if authentication_cooldown cfg = 0 then l
      else case ratelimits l ip of
             None \<Rightarrow> l
           | Some entry \<Rightarrow>
               let entry' = (case ty of
                   Password \<Rightarrow>
                     if 0 < password_attempts entry
                     then entry\<lparr>password_attempts := password_attempts entry - 1\<rparr> else entry
                 | PublicKey \<Rightarrow>
                     if 0 < pubkey_attempts entry
                     then entry\<lparr>pubkey_attempts := pubkey_attempts entry - 1\<rparr> else entry)
               in l\<lparr>ratelimits := (ratelimits l)(ip \<mapsto> entry')\<rparr>)"

definition increment_sessions :: "limits \<Rightarrow> limiter \<Rightarrow> uuid \<Rightarrow> (ssh_error + unit) \<times> limiter" where
  "increment_sessions cfg l u =
     (let count = (case user_sessions l u of None \<Rightarrow> 0 | Some n \<Rightarrow> n)
      in if max_connections_per_user cfg \<le> count
         then (Inl Disconnect, l\<lparr>user_sessions := (user_sessions l)(u \<mapsto> count)\<rparr>)
         else (Inr (), l\<lparr>user_sessions := (user_sessions l)(u \<mapsto> wrapping_add count 1)\<rparr>))"

definition decrement_sessions :: "limiter \<Rightarrow> uuid \<Rightarrow> limiter" where
  "decrement_sessions l u =
     (case user_sessions l u of
        None \<Rightarrow> l
      | Some count \<Rightarrow> if 0 < count then l\<lparr>user_sessions := (user_sessions l)(u \<mapsto> count - 1)\<rparr> else l)"

text \<open>Opening a handle with no other caller active; \<open>drop_handle\<close> is the guard's destructor.\<close>

definition open_handle :: "limits \<Rightarrow> limiter \<Rightarrow> (ssh_error + unit) \<times> limiter" where
  "open_handle cfg l =
     (if max_handles_total cfg = 0 then (Inr (), l\<lparr>open_handles := wrapping_add (open_handles l) 1\<rparr>)
      else
        let current = open_handles l; l1 = l\<lparr>open_handles := wrapping_add current 1\<rparr>
        in if max_handles_total cfg \<le> current
           then (Inl Disconnect, l1\<lparr>open_handles := wrapping_sub (open_handles l1) 1\<rparr>)
           else (Inr (), l1))"

definition drop_handle :: "limiter \<Rightarrow> limiter" where
  "drop_handle l = l\<lparr>open_handles := wrapping_sub (open_handles l) 1\<rparr>"

text \<open>Concurrent callers: where each of them is, and the steps they can take.\<close>

datatype handle_pc = Idle | Added nat | Rejected | Granted | Dropped | Refused

fun handle_pc_step :: "nat \<Rightarrow> nat \<Rightarrow> handle_pc \<Rightarrow> (nat \<times> handle_pc) option" where
  "handle_pc_step mx n Idle =
     Some (wrapping_add n 1, if mx = 0 then Granted else Added n)"
| "handle_pc_step mx n (Added current) = Some (n, if mx \<le> current then Rejected else Granted)"
| "handle_pc_step mx n Rejected = Some (wrapping_sub n 1, Refused)"
| "handle_pc_step mx n Granted = Some (wrapping_sub n 1, Dropped)"
| "handle_pc_step mx n Dropped = None"
| "handle_pc_step mx n Refused = None"

inductive handle_step :: "nat \<Rightarrow> nat \<times> handle_pc list \<Rightarrow> nat \<times> handle_pc list \<Rightarrow> bool" for mx where
  handle_stepI: "handle_pc_step mx n t = Some (n', t') \<Longrightarrow> handle_step mx (n, xs @ t # ys) (n', xs @ t' # ys)"

inductive_cases handle_stepE: "handle_step mx c c'"


section \<open>A counter with a bound\<close>

text \<open>
  A history of a limited resource: the number of acquisitions not yet released, with refused
  acquisitions and unrelated operations in between.
\<close>

inductive used ::
    "('s \<Rightarrow> ('e + unit) \<times> 's) \<Rightarrow> ('s \<Rightarrow> 's) \<Rightarrow> ('s \<Rightarrow> 's \<Rightarrow> bool) \<Rightarrow> 's \<Rightarrow> nat \<Rightarrow> 's \<Rightarrow> bool"
  for acquire release neutral s0 where
  used_refl: "used acquire release neutral s0 0 s0"
| used_acquire: "used acquire release neutral s0 n s \<Longrightarrow> acquire s = (Inr (), s') \<Longrightarrow>
    used acquire release neutral s0 (Suc n) s'"
| used_refused: "used acquire release neutral s0 n s \<Longrightarrow> acquire s = (Inl e, s') \<Longrightarrow>
    used acquire release neutral s0 n s'"
| used_release: "used acquire release neutral s0 (Suc n) s \<Longrightarrow> used acquire release neutral s0 n (release s)"
| used_neutral: "used acquire release neutral s0 n s \<Longrightarrow> neutral s s' \<Longrightarrow> used acquire release neutral s0 n s'"

text \<open>
  What a client relies on: acquiring counts one more, or fails and changes nothing, exactly at
  the bound; releasing counts one less; the other operations do not count.
\<close>

locale bounded_counter =
  fixes held :: "'s \<Rightarrow> nat"
    and acquire :: "'s \<Rightarrow> ('e + unit) \<times> 's"
    and release :: "'s \<Rightarrow> 's"
    and neutral :: "'s \<Rightarrow> 's \<Rightarrow> bool"
    and bound :: nat
  assumes acquire_ok: "held s < bound \<Longrightarrow> held s < u64_max \<Longrightarrow>
      fst (acquire s) = Inr () \<and> held (snd (acquire s)) = Suc (held s)"
    and acquire_full: "bound \<le> held s \<Longrightarrow> held s < u64_max \<Longrightarrow>
      (\<exists>e. fst (acquire s) = Inl e) \<and> held (snd (acquire s)) = held s"
    and release_held: "0 < held s \<Longrightarrow> held s \<le> u64_max \<Longrightarrow> held (release s) = held s - 1"
    and neutral_held: "neutral s s' \<Longrightarrow> held s' = held s"
begin

lemma acquire_cases:
  assumes "acquire s = (r, s')" and "held s < u64_max"
  shows "(r = Inr () \<and> held s < bound \<and> held s' = Suc (held s)) \<or>
    ((\<exists>e. r = Inl e) \<and> bound \<le> held s \<and> held s' = held s)"
  using acquire_ok [of s] acquire_full [of s] assms by (cases "held s < bound") auto

lemma used_exact:
  assumes "used acquire release neutral s0 n s" and "held s0 = 0" and "bound < u64_max"
  shows "held s = n \<and> n \<le> bound"
  using assms(1)
proof (induction rule: used.induct)
  case (used_acquire n s s')
  then show ?case using acquire_cases [OF used_acquire.hyps(2)] assms(3) by auto
next
  case (used_refused n s e s')
  then show ?case using acquire_cases [OF used_refused.hyps(2)] assms(3) by auto
next
  case (used_release n s)
  then show ?case using release_held [of s] assms(3) by auto
qed (use assms in \<open>auto simp: neutral_held\<close>)

text \<open>A client below the bound is served.\<close>

lemma used_served:
  assumes "used acquire release neutral s0 n s" and "held s0 = 0" and "bound < u64_max"
  shows "fst (acquire s) = Inr () \<longleftrightarrow> n < bound"
  using used_exact [OF assms] acquire_ok [of s] acquire_full [of s] assms(3)
  by (cases "n < bound") auto

end

definition sessions :: "uuid \<Rightarrow> limiter \<Rightarrow> nat" where
  "sessions u l = (case user_sessions l u of None \<Rightarrow> 0 | Some n \<Rightarrow> n)"

text \<open>The operations that do not count for a user: the cleanup, and what other users do.\<close>

definition session_neutral :: "limits \<Rightarrow> uuid \<Rightarrow> limiter \<Rightarrow> limiter \<Rightarrow> bool" where
  "session_neutral cfg u l l' \<longleftrightarrow>
     (\<exists>now. l' = cleanup cfg now l) \<or>
     (\<exists>v. v \<noteq> u \<and> (l' = snd (increment_sessions cfg l v) \<or> l' = decrement_sessions l v))"

lemma sessions_cleanup [simp]: "sessions u (cleanup cfg now l) = sessions u l"
  by (auto simp: sessions_def cleanup_def retain_def split: option.splits)

interpretation sess: bounded_counter "sessions u" "\<lambda>l. increment_sessions cfg l u"
    "\<lambda>l. decrement_sessions l u" "session_neutral cfg u" "max_connections_per_user cfg"
  for cfg u
proof
  fix l l' :: limiter
  show "sessions u l < max_connections_per_user cfg \<Longrightarrow> sessions u l < u64_max \<Longrightarrow>
      fst (increment_sessions cfg l u) = Inr () \<and>
      sessions u (snd (increment_sessions cfg l u)) = Suc (sessions u l)"
    by (auto simp: increment_sessions_def sessions_def Let_def wrapping_add_exact split: option.splits)
  show "max_connections_per_user cfg \<le> sessions u l \<Longrightarrow>
      (\<exists>e. fst (increment_sessions cfg l u) = Inl e) \<and>
      sessions u (snd (increment_sessions cfg l u)) = sessions u l"
    by (auto simp: increment_sessions_def sessions_def Let_def split: option.splits)
  show "sessions u (decrement_sessions l u) = sessions u l - 1"
    by (auto simp: decrement_sessions_def sessions_def split: option.splits)
  show "session_neutral cfg u l l' \<Longrightarrow> sessions u l' = sessions u l"
    by (auto simp: session_neutral_def)
      (auto simp: sessions_def increment_sessions_def decrement_sessions_def Let_def split: option.splits)
qed

definition handle_neutral :: "limits \<Rightarrow> limiter \<Rightarrow> limiter \<Rightarrow> bool" where
  "handle_neutral cfg l l' \<longleftrightarrow>
     (\<exists>now. l' = cleanup cfg now l) \<or>
     (\<exists>u. l' = snd (increment_sessions cfg l u) \<or> l' = decrement_sessions l u) \<or>
     (\<exists>now ip ty. l' = snd (check_attempt cfg now l ip ty) \<or> l' = finish_attempt cfg l ip ty)"

definition handle_bound :: "limits \<Rightarrow> nat" where
  "handle_bound cfg = (if max_handles_total cfg = 0 then u64_max else max_handles_total cfg)"

lemma wrapping_sub_add: "n < u64_max \<Longrightarrow> wrapping_sub (wrapping_add n 1) 1 = n"
  by (simp add: wrapping_add_exact wrapping_sub_exact)

interpretation hdl: bounded_counter open_handles "open_handle cfg" drop_handle "handle_neutral cfg"
    "handle_bound cfg"
  for cfg
proof
  fix l l' :: limiter
  show "open_handles l < handle_bound cfg \<Longrightarrow> open_handles l < u64_max \<Longrightarrow>
      fst (open_handle cfg l) = Inr () \<and> open_handles (snd (open_handle cfg l)) = Suc (open_handles l)"
    by (auto simp: open_handle_def handle_bound_def Let_def wrapping_add_exact split: if_splits)
  show "handle_bound cfg \<le> open_handles l \<Longrightarrow> open_handles l < u64_max \<Longrightarrow>
      (\<exists>e. fst (open_handle cfg l) = Inl e) \<and> open_handles (snd (open_handle cfg l)) = open_handles l"
    using wrapping_sub_add [of "open_handles l"]
    by (auto simp: open_handle_def handle_bound_def Let_def split: if_splits)
  show "0 < open_handles l \<Longrightarrow> open_handles l \<le> u64_max \<Longrightarrow>
      open_handles (drop_handle l) = open_handles l - 1"
    by (simp add: drop_handle_def wrapping_sub_exact)
  show "handle_neutral cfg l l' \<Longrightarrow> open_handles l' = open_handles l"
    by (auto simp: handle_neutral_def)
      (auto simp: cleanup_def increment_sessions_def decrement_sessions_def check_attempt_def
        finish_attempt_def Let_def split: option.splits)
qed

text \<open>
  Sessions per user are counted exactly and bounded: after any history from the empty limiter,
  in which cleanup rounds and the sessions of other users interleave freely, the recorded number
  is the number of sessions opened and not closed, it never exceeds the configured maximum, and
  the next session is admitted exactly when the user is below it.
\<close>

lemma sessions_bounded:
  assumes "used (\<lambda>l. increment_sessions cfg l u) (\<lambda>l. decrement_sessions l u) (session_neutral cfg u)
      limiter_new n l"
    and "max_connections_per_user cfg < u64_max"
  shows "sessions u l = n \<and> n \<le> max_connections_per_user cfg \<and>
    (fst (increment_sessions cfg l u) = Inr () \<longleftrightarrow> n < max_connections_per_user cfg)"
  using sess.used_exact [OF assms(1) _ assms(2)] sess.used_served [OF assms(1) _ assms(2)]
  by (simp add: sessions_def limiter_new_def)

definition sample_limits :: limits where
  "sample_limits = \<lparr>authentication_cooldown = 60, authentication_password_attempts = 2,
     authentication_pubkey_attempts = 2, max_connections_per_user = 1, max_handles_total = 2\<rparr>"

section \<open>Open handles under concurrency\<close>

definition count :: "('a \<Rightarrow> bool) \<Rightarrow> 'a list \<Rightarrow> nat" where
  "count P xs = length (filter P xs)"

lemma count_simps [simp]:
  "count P [] = 0" "count P (x # xs) = (if P x then 1 else 0) + count P xs"
  "count P (xs @ ys) = count P xs + count P ys"
  by (simp_all add: count_def)

lemma count_le: "count P xs \<le> length xs"
  by (simp add: count_def)

fun counted :: "handle_pc \<Rightarrow> bool" where
  "counted (Added _) = True"
| "counted Rejected = True"
| "counted Granted = True"
| "counted _ = False"

fun entitled :: "nat \<Rightarrow> handle_pc \<Rightarrow> bool" where
  "entitled mx (Added c) = (c < mx)"
| "entitled mx Granted = True"
| "entitled mx _ = False"

definition handle_inv :: "nat \<Rightarrow> nat \<times> handle_pc list \<Rightarrow> bool" where
  "handle_inv mx c \<longleftrightarrow>
     (case c of (n, ts) \<Rightarrow> length ts < u64_max \<and> n = count counted ts \<and> (0 < mx \<longrightarrow> count (entitled mx) ts \<le> mx))"

lemma entitled_counted: "count (entitled mx) ts \<le> count counted ts"
proof (induction ts)
  case (Cons t ts)
  then show ?case by (cases t) auto
qed simp

lemma handle_inv_step:
  assumes "handle_inv mx c" and "handle_step mx c c'"
  shows "handle_inv mx c'"
  using assms(2)
proof (rule handle_stepE)
  fix n t n' t' xs ys
  assume c: "c = (n, xs @ t # ys)" "c' = (n', xs @ t' # ys)" and step: "handle_pc_step mx n t = Some (n', t')"
  have bnd: "count counted xs + count counted ys < u64_max - 1"
    using assms(1) c count_le [of counted xs] count_le [of counted ys] by (auto simp: handle_inv_def)
  have le: "count (entitled mx) xs + count (entitled mx) ys \<le> count counted xs + count counted ys"
    using entitled_counted [of mx xs] entitled_counted [of mx ys] by simp
  show ?thesis
    using assms(1) c step bnd le
    by (cases t) (auto simp: handle_inv_def wrapping_add_exact wrapping_sub_exact split: if_splits)
qed

text \<open>
  C16. The total number of open handles is bounded under concurrency: however the increments,
  comparisons and decrements of any number of callers interleave, the handles granted and not yet
  dropped never exceed a non-zero maximum, and the shared counter is exactly the number of
  callers that have incremented and not decremented it, so it returns to zero.
\<close>

theorem open_handles_bounded:
  assumes "(handle_step mx)\<^sup>*\<^sup>* (0, replicate k Idle) (n, ts)" and "k < u64_max"
  shows "n = count counted ts \<and> (0 < mx \<longrightarrow> count (\<lambda>t. t = Granted) ts \<le> mx) \<and>
    (list_all (\<lambda>t. t \<in> {Idle, Dropped, Refused}) ts \<longrightarrow> n = 0)"
proof -
  have "count P (replicate k Idle) = (if P Idle then k else 0)" for P by (simp add: count_def)
  then have "handle_inv mx (0, replicate k Idle)" using assms(2) by (simp add: handle_inv_def)
  with assms(1) have inv: "handle_inv mx (n, ts)"
    by (induction rule: rtranclp_induct) (auto intro: handle_inv_step)
  have "count (\<lambda>t. t = Granted) ts \<le> count (entitled mx) ts"
  proof (induction ts)
    case (Cons t ts)
    then show ?case by (cases t) auto
  qed simp
  moreover have "count counted ts = 0" if "list_all (\<lambda>t. t \<in> {Idle, Dropped, Refused}) ts"
    using that by (induction ts) auto
  ultimately show ?thesis using inv by (auto simp: handle_inv_def)
qed

theorem open_handles_bounded_witness:
  "(handle_step 1)\<^sup>*\<^sup>* (0, replicate 2 Idle) (2, [Added 0, Added 1]) \<and>
   (2::nat) = count counted [Added 0, Added 1]"
proof -
  have "handle_step 1 (0, [Idle, Idle]) (1, [Added 0, Idle])"
    using handle_stepI [of 1 0 Idle 1 "Added 0" "[]" "[Idle]"] by (simp add: wrapping_add_def)
  moreover have "handle_step 1 (1, [Added 0, Idle]) (2, [Added 0, Added 1])"
    using handle_stepI [of 1 1 Idle 2 "Added 1" "[Added 0]" "[]"] by (simp add: wrapping_add_def)
  ultimately have run: "(handle_step 1)\<^sup>*\<^sup>* (0, replicate 2 Idle) (2, [Added 0, Added 1])"
    by (simp add: numeral_2_eq_2 converse_rtranclp_into_rtranclp)
  from open_handles_bounded [OF this] run show ?thesis by (simp add: u64_max_def)
qed


section \<open>Authentication attempts\<close>

datatype auth_event = Check instant ip_addr authentication_type | Finish ip_addr authentication_type
  | Cleanup instant

fun auth_step :: "limits \<Rightarrow> limiter \<Rightarrow> auth_event \<Rightarrow> limiter" where
  "auth_step cfg l (Check now ip ty) = snd (check_attempt cfg now l ip ty)"
| "auth_step cfg l (Finish ip ty) = finish_attempt cfg l ip ty"
| "auth_step cfg l (Cleanup now) = cleanup cfg now l"

definition attempts :: "authentication_type \<Rightarrow> ratelimit \<Rightarrow> nat" where
  "attempts ty r = (case ty of Password \<Rightarrow> password_attempts r | PublicKey \<Rightarrow> pubkey_attempts r)"

definition allowed_attempts :: "authentication_type \<Rightarrow> limits \<Rightarrow> nat" where
  "allowed_attempts ty cfg =
     (case ty of Password \<Rightarrow> authentication_password_attempts cfg | PublicKey \<Rightarrow> authentication_pubkey_attempts cfg)"

definition pending_attempts :: "ip_addr \<Rightarrow> authentication_type \<Rightarrow> limiter \<Rightarrow> nat" where
  "pending_attempts ip ty l = (case ratelimits l ip of None \<Rightarrow> 0 | Some r \<Rightarrow> attempts ty r)"

text \<open>
  Over a list of events: how many checks for an address and method were admitted, how many such
  attempts were finished, and whether every cleanup round found the address still within the
  cooldown (or not recorded at all).
\<close>

fun admitted :: "limits \<Rightarrow> ip_addr \<Rightarrow> authentication_type \<Rightarrow> limiter \<Rightarrow> auth_event list \<Rightarrow> nat" where
  "admitted cfg ip ty l [] = 0"
| "admitted cfg ip ty l (e # es) =
     (case e of Check now ip' ty' \<Rightarrow>
        if ip' = ip \<and> ty' = ty \<and> fst (check_attempt cfg now l ip ty) = Inr () then 1 else 0
      | _ \<Rightarrow> 0) + admitted cfg ip ty (auth_step cfg l e) es"

definition finished :: "ip_addr \<Rightarrow> authentication_type \<Rightarrow> auth_event list \<Rightarrow> nat" where
  "finished ip ty es = count (\<lambda>e. e = Finish ip ty) es"

fun kept :: "limits \<Rightarrow> ip_addr \<Rightarrow> limiter \<Rightarrow> auth_event list \<Rightarrow> bool" where
  "kept cfg ip l [] \<longleftrightarrow> True"
| "kept cfg ip l (e # es) \<longleftrightarrow>
     (case e of Cleanup now \<Rightarrow> ratelimits (cleanup cfg now l) ip = ratelimits l ip | _ \<Rightarrow> True) \<and>
     kept cfg ip (auth_step cfg l e) es"

lemma check_attempt_pending:
  assumes "authentication_cooldown cfg \<noteq> 0" and "pending_attempts ip ty l < u64_max"
  shows "pending_attempts ip ty (snd (check_attempt cfg now l ip' ty')) =
      pending_attempts ip ty l + (if ip' = ip \<and> ty' = ty then 1 else 0)"
    and "fst (check_attempt cfg now l ip ty) = Inr () \<longleftrightarrow> pending_attempts ip ty l < allowed_attempts ty cfg"
  using assms
  by (auto simp: check_attempt_def pending_attempts_def attempts_def allowed_attempts_def Let_def
      default_ratelimit_def wrapping_add_exact split: option.splits authentication_type.splits)

lemma finish_attempt_pending:
  "authentication_cooldown cfg \<noteq> 0 \<Longrightarrow> pending_attempts ip ty (finish_attempt cfg l ip' ty') =
     pending_attempts ip ty l - (if ip' = ip \<and> ty' = ty then 1 else 0)"
  by (auto simp: finish_attempt_def pending_attempts_def attempts_def Let_def
      split: option.splits authentication_type.splits)

lemma admitted_bound:
  assumes "authentication_cooldown cfg \<noteq> 0" and "kept cfg ip l es"
    and "pending_attempts ip ty l + length es < u64_max"
  shows "pending_attempts ip ty l + admitted cfg ip ty l es \<le>
    max (pending_attempts ip ty l) (allowed_attempts ty cfg) + finished ip ty es"
  using assms(2-)
proof (induction es arbitrary: l)
  case Nil
  then show ?case by simp
next
  case (Cons e es)
  let ?p = "pending_attempts ip ty" and ?l = "auth_step cfg l e"
  have step: "?p ?l + admitted cfg ip ty ?l es \<le> max (?p ?l) (allowed_attempts ty cfg) + finished ip ty es"
    if "?p ?l \<le> Suc (?p l)"
    using Cons.prems that by (intro Cons.IH) auto
  show ?case
  proof (cases e)
    case (Check now ip' ty')
    have b: "?p l < u64_max" using Cons.prems(2) by simp
    note c = check_attempt_pending [OF assms(1) b]
    show ?thesis
      using step c(1) [of now ip' ty'] c(2) [of now] Check by (auto simp: finished_def)
  next
    case (Finish ip' ty')
    then have l: "?p ?l = ?p l - (if ip' = ip \<and> ty' = ty then 1 else 0)"
      using finish_attempt_pending [OF assms(1), of ip ty l ip' ty'] by simp
    then have "?p ?l \<le> Suc (?p l)" by simp
    from step [OF this] l Finish show ?thesis by (auto simp: finished_def max_def split: if_splits)
  next
    case (Cleanup now)
    then have "?p ?l = ?p l" using Cons.prems(1) by (simp add: pending_attempts_def)
    then show ?thesis using step Cleanup by (auto simp: finished_def)
  qed
qed

text \<open>
  Brute force is throttled per address and method: with a non-zero cooldown, over any series of
  checks, finished attempts and cleanup rounds (of all addresses) during which the address stays
  within its cooldown, the number of admitted attempts is at most the configured number plus
  the number of attempts that were finished.
\<close>

lemma attempts_throttled:
  assumes "authentication_cooldown cfg \<noteq> 0" and "ratelimits l ip = None" and "kept cfg ip l es"
    and "length es < u64_max"
  shows "admitted cfg ip ty l es \<le> allowed_attempts ty cfg + finished ip ty es"
  using admitted_bound [OF assms(1,3), of ty] assms(2,4) by (simp add: pending_attempts_def)

end
