(* ===== verification/ServerState.thy ===== *)
theory ServerState
  imports Prelude
begin

text \<open>
  The server state and its lock (\<^verbatim>\<open>server/state.rs\<close>). The state changes of one call are functions on
  the record \<open>state_lock\<close>, which also logs what is sent to the websocket and the schedule
  manager; \<^verbatim>\<open>execute_action\<close> is a task with a program counter, and a step relation interleaves any
  number of tasks with each other and with the state changes other parts of the daemon make.
  A call of \<^verbatim>\<open>set_state\<close> is one step.
\<close>

section \<open>Model\<close>

datatype server_state = Offline | Starting | Stopping | Running

fun state_str :: "server_state \<Rightarrow> string" where
  "state_str Offline = ''offline''"
| "state_str Starting = ''starting''"
| "state_str Stopping = ''stopping''"
| "state_str Running = ''running''"

datatype notice = StateTrigger server_state | ServerStatus string | ServerPendingRestart bool

record state_lock =
  state :: server_state
  pending_restart :: bool
  sent :: "notice list"

definition state_lock_new :: state_lock where
  "state_lock_new = \<lparr>state = Offline, pending_restart = False, sent = []\<rparr>"

definition set_pending_restart :: "state_lock \<Rightarrow> bool \<Rightarrow> state_lock" where
  "set_pending_restart l pending =
     (if pending \<and> (pending_restart l \<or> state l = Offline) then l
      else l\<lparr>pending_restart := pending, sent := sent l @ [ServerPendingRestart pending]\<rparr>)"

definition set_state :: "state_lock \<Rightarrow> server_state \<Rightarrow> state_lock" where
  "set_state l s =
     (if state l = s then l
      else
        let l1 = l\<lparr>state := s, sent := sent l @ [StateTrigger s, ServerStatus (state_str s)]\<rparr>
        in if (s = Offline \<or> s = Starting) \<and> pending_restart l1 then set_pending_restart l1 False else l1)"

text \<open>
  \<^verbatim>\<open>wait_until\<close>: what its receiver observes, one change after the other, until the timeout
  fires or the channel is closed.
\<close>

datatype observation = Changed server_state | Closed | Elapsed

fun wait_loop :: "(server_state \<Rightarrow> bool) \<Rightarrow> observation list \<Rightarrow> bool option" where
  "wait_loop P [] = None"
| "wait_loop P (Closed # os) = Some True"
| "wait_loop P (Elapsed # os) = Some False"
| "wait_loop P (Changed s # os) = (if P s then Some True else wait_loop P os)"

definition wait_until :: "(server_state \<Rightarrow> bool) \<Rightarrow> state_lock \<Rightarrow> observation list \<Rightarrow> bool option" where
  "wait_until P l os = (if P (state l) then Some True else wait_loop P os)"

definition wait_for_state :: "server_state \<Rightarrow> state_lock \<Rightarrow> observation list \<Rightarrow> bool option" where
  "wait_for_state target = wait_until (\<lambda>s. s = target)"

definition wait_while_state :: "server_state \<Rightarrow> state_lock \<Rightarrow> observation list \<Rightarrow> bool option" where
  "wait_while_state target = wait_until (\<lambda>s. s \<noteq> target)"

subsection \<open>Actions under the lock\<close>

datatype action_result = OkTrue | OkFalse | ActionErr

text \<open>
  The program points of \<^verbatim>\<open>execute_action\<close>: before the first read; waiting for the lock with the
  state that was read; holding the lock; running the action; reverted after a failure; returned.
\<close>

datatype action_pc =
  Called | Waiting server_state | Holding server_state | Acting server_state | Reverted | Returned action_result

record action_task =
  a_state :: server_state
  a_timeout :: bool
  a_pc :: action_pc

record machine =
  lock :: state_lock
  owner :: "nat option"
  tasks :: "action_task list"

definition set_pc :: "nat \<Rightarrow> action_pc \<Rightarrow> machine \<Rightarrow> machine" where
  "set_pc i pc m = m\<lparr>tasks := (tasks m)[i := (tasks m ! i)\<lparr>a_pc := pc\<rparr>]\<rparr>"

inductive action_step :: "machine \<Rightarrow> machine \<Rightarrow> bool" where
  read_state: "i < length (tasks m) \<Longrightarrow> a_pc (tasks m ! i) = Called \<Longrightarrow>
    action_step m (set_pc i (Waiting (state (lock m))) m)"
| acquire: "i < length (tasks m) \<Longrightarrow> a_pc (tasks m ! i) = Waiting old \<Longrightarrow> owner m = None \<Longrightarrow>
    action_step m (set_pc i (Holding old) (m\<lparr>owner := Some i\<rparr>))"
| refuse: "i < length (tasks m) \<Longrightarrow> a_pc (tasks m ! i) = Waiting old \<Longrightarrow> owner m \<noteq> None \<Longrightarrow>
    action_step m (set_pc i (Returned OkFalse) m)"
| enter: "i < length (tasks m) \<Longrightarrow> a_pc (tasks m ! i) = Holding old \<Longrightarrow>
    action_step m (set_pc i (Acting old) (m\<lparr>lock := set_state (lock m) (a_state (tasks m ! i))\<rparr>))"
| succeed: "i < length (tasks m) \<Longrightarrow> a_pc (tasks m ! i) = Acting old \<Longrightarrow>
    action_step m (set_pc i (Returned OkTrue) (m\<lparr>owner := None\<rparr>))"
| fail: "i < length (tasks m) \<Longrightarrow> a_pc (tasks m ! i) = Acting old \<Longrightarrow>
    action_step m (set_pc i Reverted (m\<lparr>lock := set_state (lock m) old\<rparr>))"
| release: "i < length (tasks m) \<Longrightarrow> a_pc (tasks m ! i) = Reverted \<Longrightarrow>
    action_step m (set_pc i (Returned ActionErr) (m\<lparr>owner := None\<rparr>))"
| other_state: "action_step m (m\<lparr>lock := set_state (lock m) s\<rparr>)"
| other_pending: "action_step m (m\<lparr>lock := set_pending_restart (lock m) b\<rparr>)"

inductive_cases action_stepE: "action_step m m'"

definition machine_new :: "state_lock \<Rightarrow> action_task list \<Rightarrow> machine" where
  "machine_new l ts = \<lparr>lock = l, owner = None, tasks = map (\<lambda>t. t\<lparr>a_pc := Called\<rparr>) ts\<rparr>"


section \<open>Restart flag\<close>

definition lock_inv :: "state_lock \<Rightarrow> bool" where
  "lock_inv l \<longleftrightarrow> (pending_restart l \<longrightarrow> state l \<noteq> Offline)"

lemma lock_inv_set_state [wf_intros]: "lock_inv l \<Longrightarrow> lock_inv (set_state l s)"
  by (auto simp: lock_inv_def set_state_def set_pending_restart_def Let_def)

lemma lock_inv_set_pending [wf_intros]: "lock_inv l \<Longrightarrow> lock_inv (set_pending_restart l b)"
  by (simp add: lock_inv_def set_pending_restart_def)

lemma state_set_pending [simp]: "state (set_pending_restart l b) = state l"
  by (simp add: set_pending_restart_def)

lemma state_set_state [simp]: "state (set_state l s) = s"
  by (simp add: set_state_def Let_def)


text \<open>
  While the lock object is alive its channel is open; then waiting answers truthfully: it returns
  true exactly when the condition held at the start or at a change observed before the timeout.
\<close>

lemma wait_loop_open:
  "Closed \<notin> set os \<Longrightarrow> wait_loop P os = Some True \<longleftrightarrow>
     (\<exists>s \<in> set (takeWhile (\<lambda>o'. o' \<noteq> Elapsed) os). \<exists>x. s = Changed x \<and> P x)"
  by (induction P os rule: wait_loop.induct) auto

lemma wait_until_open:
  "Closed \<notin> set os \<Longrightarrow> wait_until P l os = Some True \<longleftrightarrow>
     P (state l) \<or> (\<exists>s \<in> set (takeWhile (\<lambda>o'. o' \<noteq> Elapsed) os). \<exists>x. s = Changed x \<and> P x)"
  by (simp add: wait_until_def wait_loop_open)


section \<open>Mutual exclusion\<close>

fun critical :: "action_pc \<Rightarrow> bool" where
  "critical (Holding _) = True"
| "critical (Acting _) = True"
| "critical Reverted = True"
| "critical _ = False"

definition machine_inv :: "machine \<Rightarrow> bool" where
  "machine_inv m \<longleftrightarrow> lock_inv (lock m) \<and>
     (\<forall>i. i < length (tasks m) \<and> critical (a_pc (tasks m ! i)) \<longleftrightarrow> owner m = Some i)"

lemma set_pc_sel [simp]:
  "lock (set_pc i pc m) = lock m" "owner (set_pc i pc m) = owner m"
  "length (tasks (set_pc i pc m)) = length (tasks m)"
  by (simp_all add: set_pc_def)

lemma set_pc_nth:
  "i < length (tasks m) \<Longrightarrow> a_pc (tasks (set_pc i pc m) ! j) = (if j = i then pc else a_pc (tasks m ! j))"
  by (auto simp: set_pc_def nth_list_update)

lemma machine_invD:
  assumes "machine_inv m"
  shows "lock_inv (lock m)" "i < length (tasks m) \<Longrightarrow> critical (a_pc (tasks m ! i)) \<Longrightarrow> owner m = Some i"
  using assms unfolding machine_inv_def by blast+

lemma machine_inv_set_pc:
  assumes "machine_inv m" and "i < length (tasks m)" and "lock_inv l"
    and "\<not> critical (a_pc (tasks m ! i)) \<Longrightarrow> critical pc \<Longrightarrow> owner m = None"
    and "w = (if critical pc then Some i else if critical (a_pc (tasks m ! i)) then None else owner m)"
  shows "machine_inv (set_pc i pc (m\<lparr>lock := l, owner := w\<rparr>))"
proof -
  have own: "j < length (tasks m) \<and> critical (a_pc (tasks m ! j)) \<longleftrightarrow> owner m = Some j" for j
    using assms(1) by (auto simp: machine_inv_def)
  have "j < length (tasks m) \<and> critical (if j = i then pc else a_pc (tasks m ! j)) \<longleftrightarrow> w = Some j" for j
    using own [of j] own [of i] assms(2,4,5) by (cases "j = i") auto
  then show ?thesis using assms(2,3) unfolding machine_inv_def by (simp add: set_pc_nth split: if_splits) metis
qed

lemma machine_inv_set_pc_lock:
  assumes "machine_inv m" and "i < length (tasks m)" and "lock_inv l" and "owner m = Some i" and "critical pc"
  shows "machine_inv (set_pc i pc (m\<lparr>lock := l\<rparr>))"
proof -
  have eq: "m\<lparr>lock := l, owner := Some i\<rparr> = m\<lparr>lock := l\<rparr>" using assms(4) by (cases m) simp
  have "critical (a_pc (tasks m ! i))" using assms(1,4) unfolding machine_inv_def by blast
  then have "machine_inv (set_pc i pc (m\<lparr>lock := l, owner := Some i\<rparr>))"
    using assms by (intro machine_inv_set_pc) simp_all
  then show ?thesis by (simp only: eq)
qed

lemma machine_inv_step:
  assumes "machine_inv m" and "action_step m m'"
  shows "machine_inv m'"
  using assms(2,1)
proof (induction rule: action_step.induct)
  case (read_state i m)
  then show ?case using machine_inv_set_pc [of m i "lock m" "Waiting (state (lock m))"] by (simp add: machine_invD)
next
  case (acquire i m old)
  then show ?case using machine_inv_set_pc [of m i "lock m" "Holding old" "Some i"] by (simp add: machine_invD)
next
  case (refuse i m old)
  then show ?case using machine_inv_set_pc [of m i "lock m" "Returned OkFalse"] by (simp add: machine_invD)
next
  case (enter i m old)
  then have "owner m = Some i" "lock_inv (lock m)" by (simp_all add: machine_invD)
  with enter show ?case
    using machine_inv_set_pc_lock [of m i "set_state (lock m) (a_state (tasks m ! i))" "Acting old"]
    by (simp add: lock_inv_set_state)
next
  case (succeed i m old)
  then show ?case using machine_inv_set_pc [of m i "lock m" "Returned OkTrue" None] by (simp add: machine_invD)
next
  case (fail i m old)
  then have "owner m = Some i" "lock_inv (lock m)" by (simp_all add: machine_invD)
  with fail show ?case
    using machine_inv_set_pc_lock [of m i "set_state (lock m) old" Reverted]
    by (simp add: lock_inv_set_state)
next
  case (release i m)
  then show ?case using machine_inv_set_pc [of m i "lock m" "Returned ActionErr" None] by (simp add: machine_invD)
qed (simp_all add: machine_inv_def lock_inv_set_state lock_inv_set_pending)

lemma machine_inv_new: "lock_inv l \<Longrightarrow> machine_inv (machine_new l ts)"
  by (simp add: machine_inv_def machine_new_def)

lemma machine_inv_reachable:
  assumes "action_step\<^sup>*\<^sup>* (machine_new l ts) m" and "lock_inv l"
  shows "machine_inv m"
  using assms(1)
  by (induction rule: rtranclp_induct) (auto intro: machine_inv_new [OF assms(2)] machine_inv_step)




section \<open>Progress\<close>

text \<open>
  An infinite run of the machine, and weak fairness for its tasks: a task that could move at every
  moment from some point on does move. For \<^verbatim>\<open>execute_action\<close> this says that the runtime polls its
  tasks, that timers fire and that the action itself comes back with a result.
\<close>

definition moves :: "nat \<Rightarrow> machine \<Rightarrow> machine \<Rightarrow> bool" where
  "moves i m m' \<longleftrightarrow> action_step m m' \<and> i < length (tasks m) \<and> a_pc (tasks m' ! i) \<noteq> a_pc (tasks m ! i)"

definition fair_run :: "(nat \<Rightarrow> machine) \<Rightarrow> bool" where
  "fair_run r \<longleftrightarrow> (\<forall>n. action_step (r n) (r (Suc n))) \<and>
     (\<forall>i n. (\<forall>k \<ge> n. \<exists>m'. moves i (r k) m') \<longrightarrow> (\<exists>k \<ge> n. moves i (r k) (r (Suc k))))"

fun returned :: "action_pc \<Rightarrow> bool" where
  "returned (Returned _) = True"
| "returned _ = False"

fun steps_left :: "action_pc \<Rightarrow> nat" where
  "steps_left Called = 5"
| "steps_left (Waiting _) = 4"
| "steps_left (Holding _) = 3"
| "steps_left (Acting _) = 2"
| "steps_left Reverted = 1"
| "steps_left (Returned _) = 0"

lemma steps_left_0 [simp]: "steps_left pc = 0 \<longleftrightarrow> returned pc"
  by (cases pc) auto

lemma action_step_length: "action_step m m' \<Longrightarrow> length (tasks m') = length (tasks m)"
  by (induction rule: action_step.induct) auto

lemma action_step_advances:
  "action_step m m' \<Longrightarrow> a_pc (tasks m' ! i) = a_pc (tasks m ! i) \<or>
     steps_left (a_pc (tasks m' ! i)) < steps_left (a_pc (tasks m ! i))"
  by (induction rule: action_step.induct) (auto simp: set_pc_nth)

text \<open>No task is ever stuck: whatever the others do, a task that has not returned can move.\<close>

lemma not_stuck:
  assumes "i < length (tasks m)" and "\<not> returned (a_pc (tasks m ! i))"
  shows "\<exists>m'. moves i m m'"
proof (cases "a_pc (tasks m ! i)")
  case (Waiting old)
  show ?thesis
  proof (cases "owner m")
    case None
    from acquire [OF assms(1) Waiting None] show ?thesis
      unfolding moves_def using assms(1) Waiting by (intro exI conjI) (auto simp: set_pc_nth)
  next
    case (Some j)
    then have "owner m \<noteq> None" by simp
    from refuse [OF assms(1) Waiting this] show ?thesis
      unfolding moves_def using assms(1) Waiting by (intro exI conjI) (auto simp: set_pc_nth)
  qed
next
  case Called
  from read_state [OF assms(1) Called] show ?thesis
    unfolding moves_def using assms(1) Called by (intro exI conjI) (auto simp: set_pc_nth)
next
  case (Holding old)
  from enter [OF assms(1) Holding] show ?thesis
    unfolding moves_def using assms(1) Holding by (intro exI conjI) (auto simp: set_pc_nth)
next
  case (Acting old)
  from succeed [OF assms(1) Acting] show ?thesis
    unfolding moves_def using assms(1) Acting by (intro exI conjI) (auto simp: set_pc_nth)
next
  case Reverted
  from release [OF assms(1) Reverted] show ?thesis
    unfolding moves_def using assms(1) Reverted by (intro exI conjI) (auto simp: set_pc_nth)
qed (use assms(2) in simp)

lemma run_length: "fair_run r \<Longrightarrow> length (tasks (r n)) = length (tasks (r 0))"
  by (induction n) (metis action_step_length fair_run_def)+

lemma run_antimono:
  assumes "fair_run r" and "n \<le> k"
  shows "steps_left (a_pc (tasks (r k) ! i)) \<le> steps_left (a_pc (tasks (r n) ! i))"
  using assms(2)
proof (induction k rule: dec_induct)
  case (step k)
  have "action_step (r k) (r (Suc k))" using assms(1) by (simp add: fair_run_def)
  from action_step_advances [OF this, of i] step.IH show ?case by auto
qed simp

lemma run_returns:
  assumes "fair_run r" and "i < length (tasks (r 0))"
  shows "\<exists>k \<ge> n. returned (a_pc (tasks (r k) ! i))"
proof (induction "steps_left (a_pc (tasks (r n) ! i))" arbitrary: n rule: less_induct)
  case less
  show ?case
  proof (rule ccontr)
    assume none: "\<not> ?thesis"
    then have "\<exists>m'. moves i (r k) m'" if "n \<le> k" for k
      using that not_stuck [of i "r k"] assms(2) run_length [OF assms(1), of k] by auto
    then obtain k where k: "n \<le> k" "moves i (r k) (r (Suc k))"
      using assms(1) unfolding fair_run_def by blast
    then have "steps_left (a_pc (tasks (r (Suc k)) ! i)) < steps_left (a_pc (tasks (r k) ! i))"
      using action_step_advances [of "r k" "r (Suc k)" i] by (auto simp: moves_def)
    also have "\<dots> \<le> steps_left (a_pc (tasks (r n) ! i))" by (rule run_antimono [OF assms(1) k(1)])
    finally obtain k' where "Suc k \<le> k'" "returned (a_pc (tasks (r k') ! i))"
      using less.hyps by blast
    with none k(1) show False by (meson Suc_leD le_trans)
  qed
qed

lemma run_settles:
  assumes "fair_run r" and "j \<le> length (tasks (r 0))"
  shows "\<exists>n. \<forall>k \<ge> n. \<forall>i < j. returned (a_pc (tasks (r k) ! i))"
  using assms(2)
proof (induction j)
  case (Suc j)
  then obtain n where n: "\<forall>k \<ge> n. \<forall>i < j. returned (a_pc (tasks (r k) ! i))" by auto
  obtain k0 where k0: "n \<le> k0" "returned (a_pc (tasks (r k0) ! j))"
    using run_returns [OF assms(1), of j n] Suc.prems by auto
  have "returned (a_pc (tasks (r k) ! i))" if "k0 \<le> k" "i < Suc j" for k i
  proof (cases "i = j")
    case True
    have "steps_left (a_pc (tasks (r k0) ! j)) = 0" using k0(2) by simp
    with run_antimono [OF assms(1) that(1), of j] True show ?thesis
      by (simp add: steps_left_0 [symmetric] del: steps_left_0)
  next
    case False
    with that n k0(1) show ?thesis by auto
  qed
  then show ?case by blast
qed simp

lemma run_reachable: "fair_run r \<Longrightarrow> action_step\<^sup>*\<^sup>* (r 0) (r n)"
  by (induction n) (auto simp: fair_run_def intro: rtranclp.rtrancl_into_rtrancl)

text \<open>
  C18. No power action hangs and the lock is not leaked: in every fair run, with state changes and
  restart requests from elsewhere at any moment, every call of \<^verbatim>\<open>execute_action\<close> returns, and from
  then on the lock is free.
\<close>

theorem actions_return:
  assumes "fair_run r" and "r 0 = machine_new state_lock_new ts"
  shows "\<exists>n. \<forall>k \<ge> n. (\<forall>i < length ts. returned (a_pc (tasks (r k) ! i))) \<and> owner (r k) = None"
proof -
  have len: "length (tasks (r k)) = length ts" for k
    using run_length [OF assms(1), of k] assms(2) by (simp add: machine_new_def)
  obtain n where n: "\<forall>k \<ge> n. \<forall>i < length ts. returned (a_pc (tasks (r k) ! i))"
    using run_settles [OF assms(1), of "length ts"] len [of 0] by auto
  have "owner (r k) = None" if "n \<le> k" for k
  proof -
    have "machine_inv (r k)"
      using machine_inv_reachable [of state_lock_new ts "r k"] run_reachable [OF assms(1), of k] assms(2)
      by (simp add: lock_inv_def state_lock_new_def)
    then have inv: "owner (r k) = Some i \<Longrightarrow> i < length ts \<and> critical (a_pc (tasks (r k) ! i))" for i
      using len [of k] by (auto simp: machine_inv_def)
    have "\<not> critical pc" if "returned pc" for pc using that by (cases pc) auto
    with inv n that show ?thesis by (metis not_None_eq)
  qed
  with n show ?thesis by blast
qed

definition sample_run :: "nat \<Rightarrow> machine" where
  "sample_run n =
     (let m0 = machine_new state_lock_new [\<lparr>a_state = Starting, a_timeout = False, a_pc = Called\<rparr>];
          m1 = set_pc 0 (Waiting Offline) m0;
          m2 = set_pc 0 (Holding Offline) (m1\<lparr>owner := Some 0\<rparr>);
          m3 = set_pc 0 (Acting Offline) (m2\<lparr>lock := set_state (lock m2) Starting\<rparr>);
          m4 = set_pc 0 (Returned OkTrue) (m3\<lparr>owner := None\<rparr>)
      in [m0, m1, m2, m3, m4] ! min n 4)"

lemma sample_run_step: "action_step (sample_run n) (sample_run (Suc n))"
proof -
  have stutter: "action_step m m" for m using other_state [of m "state (lock m)"] by (simp add: set_state_def)
  note defs = sample_run_def machine_new_def state_lock_new_def set_pc_def Let_def
  consider "n = 0" | "n = 1" | "n = 2" | "n = 3" | "4 \<le> n" by linarith
  then show ?thesis
  proof cases
    case 1
    then show ?thesis using read_state [of 0 "sample_run 0"] by (simp add: defs)
  next
    case 2
    then show ?thesis using acquire [of 0 "sample_run 1" Offline] by (simp add: defs)
  next
    case 3
    then show ?thesis using enter [of 0 "sample_run 2" Offline] by (simp add: defs)
  next
    case 4
    then show ?thesis using succeed [of 0 "sample_run 3" Offline] by (simp add: defs)
  next
    case 5
    then have "sample_run (Suc n) = sample_run n" by (simp add: sample_run_def)
    with stutter show ?thesis by simp
  qed
qed

theorem actions_return_witness:
  "fair_run sample_run \<and>
   (\<exists>n. \<forall>k \<ge> n. returned (a_pc (tasks (sample_run k) ! 0)) \<and> owner (sample_run k) = None)"
proof -
  have stuck: "\<not> moves i (sample_run k) m'" if "4 \<le> k" for i k m'
  proof
    assume m: "moves i (sample_run k) m'"
    have one: "length (tasks (sample_run k)) = 1" "a_pc (tasks (sample_run k) ! 0) = Returned OkTrue"
      using that by (simp_all add: sample_run_def machine_new_def set_pc_def Let_def)
    with m have "i = 0" by (simp add: moves_def)
    with m one action_step_advances [of "sample_run k" m' 0] show False by (auto simp: moves_def)
  qed
  have "fair_run sample_run"
    unfolding fair_run_def using sample_run_step stuck by (meson nat_le_linear)
  from actions_return [OF this, of "[\<lparr>a_state = Starting, a_timeout = False, a_pc = Called\<rparr>]"] this
  show ?thesis by (simp add: sample_run_def)
qed

end
