(* ===== verification/Bytes.thy ===== *)
theory Bytes
  imports Prelude
begin

text \<open>
  Byte strings as the backup formats use them. A byte is a natural number below 256 and a buffer
  a list of bytes; slices that Rust takes with \<^verbatim>\<open>get\<close> are \<open>None\<close> out of range. Fixed-width
  integers are stored little-endian. Results are sums: \<open>Inl\<close> an error, \<open>Inr\<close> a value, chained
  with \<open>and_then\<close> as the question mark operator does.
\<close>

type_synonym byte = nat

definition is_bytes :: "byte list \<Rightarrow> bool" where
  "is_bytes bs \<longleftrightarrow> (\<forall>b \<in> set bs. b < 256)"

definition and_then :: "'e + 'a \<Rightarrow> ('a \<Rightarrow> 'e + 'b) \<Rightarrow> 'e + 'b" where
  "and_then r f = (case r of Inl e \<Rightarrow> Inl e | Inr x \<Rightarrow> f x)"

definition ok_or :: "'e \<Rightarrow> 'a option \<Rightarrow> 'e + 'a" where
  "ok_or e r = (case r of None \<Rightarrow> Inl e | Some x \<Rightarrow> Inr x)"

lemma and_then_simps [simp]: "and_then (Inl e) f = Inl e" "and_then (Inr x) f = f x"
  by (simp_all add: and_then_def)

lemma and_then_Inr: "and_then r f = Inr y \<longleftrightarrow> (\<exists>x. r = Inr x \<and> f x = Inr y)"
  by (cases r) auto

lemma ok_or_simps [simp]: "ok_or e None = Inl e" "ok_or e (Some x) = Inr x"
  by (simp_all add: ok_or_def)

section \<open>Slices\<close>

definition get_range :: "'a list \<Rightarrow> nat \<Rightarrow> nat \<Rightarrow> 'a list option" where
  "get_range xs a b = (if a \<le> b \<and> b \<le> length xs then Some (take (b - a) (drop a xs)) else None)"

definition get_from :: "'a list \<Rightarrow> nat \<Rightarrow> 'a list option" where
  "get_from xs a = (if a \<le> length xs then Some (drop a xs) else None)"

lemma get_range_append:
  "length pre = a \<Longrightarrow> length mid = b - a \<Longrightarrow> a \<le> b \<Longrightarrow> get_range (pre @ mid @ post) a b = Some mid"
  by (auto simp: get_range_def)

section \<open>Little-endian integers\<close>

fun to_le_bytes :: "nat \<Rightarrow> nat \<Rightarrow> byte list" where
  "to_le_bytes 0 n = []"
| "to_le_bytes (Suc k) n = n mod 256 # to_le_bytes k (n div 256)"

fun from_le_bytes :: "byte list \<Rightarrow> nat" where
  "from_le_bytes [] = 0"
| "from_le_bytes (b # bs) = b + 256 * from_le_bytes bs"

lemma length_to_le_bytes [simp]: "length (to_le_bytes k n) = k"
  by (induction k arbitrary: n) auto

lemma is_bytes_to_le_bytes [simp]: "is_bytes (to_le_bytes k n)"
  by (induction k arbitrary: n) (auto simp: is_bytes_def)

lemma from_to_le_bytes: "n < 256 ^ k \<Longrightarrow> from_le_bytes (to_le_bytes k n) = n"
proof (induction k arbitrary: n)
  case (Suc k)
  then have "n div 256 < 256 ^ k" by (simp add: less_mult_imp_div_less mult.commute)
  from Suc.IH [OF this] show ?case by simp
qed simp

lemma from_to_u64 [simp]: "n \<le> u64_max \<Longrightarrow> from_le_bytes (to_le_bytes 8 n) = n"
  by (rule from_to_le_bytes) (simp add: u64_max_def)

lemma from_to_u32: "n < 2 ^ 32 \<Longrightarrow> from_le_bytes (to_le_bytes 4 n) = n"
  by (rule from_to_le_bytes) simp

lemma to_from_le_bytes: "is_bytes bs \<Longrightarrow> to_le_bytes (length bs) (from_le_bytes bs) = bs"
  by (induction bs) (auto simp: is_bytes_def)

section \<open>Paths\<close>

text \<open>
  Joining a path and a name as \<^verbatim>\<open>PathBuf::push\<close> and \<^verbatim>\<open>Path::join\<close> do: an absolute name replaces
  the path, otherwise a slash (byte 47) is put between them unless the path is empty or ends in one.
\<close>

definition path_join :: "byte list \<Rightarrow> byte list \<Rightarrow> byte list" where
  "path_join base name =
     (if name \<noteq> [] \<and> hd name = 47 then name
      else if base = [] then name
      else if last base = 47 then base @ name
      else base @ 47 # name)"

section \<open>Decimal numbers\<close>

fun decimal :: "nat \<Rightarrow> string" where
  "decimal n = (if n < 10 then [char_of (48 + n)] else decimal (n div 10) @ [char_of (48 + n mod 10)])"

declare decimal.simps [simp del]

section \<open>Bit operations on bytes and their arithmetic\<close>

lemma and_127: "n AND 127 = n mod 128" for n :: nat
  using take_bit_eq_mask [of 7 n] by (simp add: mask_eq_exp_minus_1 take_bit_eq_mod)

lemma and_63: "n AND 63 = n mod 64" for n :: nat
  using take_bit_eq_mask [of 6 n] by (simp add: mask_eq_exp_minus_1 take_bit_eq_mod)

lemma or_disjoint: "b < 2 ^ k \<Longrightarrow> b OR push_bit k a = b + a * 2 ^ k" for a b :: nat
proof -
  assume "b < 2 ^ k"
  then have "b = take_bit k b" by (simp add: take_bit_nat_eq_self)
  moreover have "take_bit k b AND push_bit k a = 0"
    by (rule bit_eqI) (auto simp: bit_simps)
  ultimately have "b AND push_bit k a = 0" by metis
  then show ?thesis
    by (metis disjunctive_add_eq_or push_bit_eq_mult)
qed

end
