(* ===== verification/Datablob.thy ===== *)
theory Datablob
  imports Bytes
begin

text \<open>
  The blob format of the backup server client (\<^verbatim>\<open>pbs-client/src/datablob.rs\<close>): a magic number, a
  checksum and the payload, compressed when that is shorter. The compressor, its inverse and the
  checksum are third-party code and parameters of the definitions.
\<close>

section \<open>Model\<close>

datatype pbs_error =
    Config string
  | Unauthorized string
  | Forbidden string
  | NotFound string
  | FingerprintMismatch string string
  | Http nat string
  | Transport string
  | Decode string

definition UNCOMPRESSED_BLOB_MAGIC :: "byte list" where
  "UNCOMPRESSED_BLOB_MAGIC = [66, 171, 56, 7, 190, 131, 112, 161]"

definition COMPRESSED_BLOB_MAGIC :: "byte list" where
  "COMPRESSED_BLOB_MAGIC = [49, 185, 88, 66, 111, 182, 163, 127]"

definition BLOB_HEADER_SIZE :: nat where
  "BLOB_HEADER_SIZE = 12"

definition MAX_DECODED_BLOB :: nat where
  "MAX_DECODED_BLOB = 256 * 1024 * 1024"

record encoded_blob =
  b_data :: "byte list"
  b_digest :: "byte list"
  plaintext_size :: nat

definition encode_blob_with_digest ::
    "(byte list \<Rightarrow> byte list option) \<Rightarrow> (byte list \<Rightarrow> nat) \<Rightarrow> byte list \<Rightarrow> byte list \<Rightarrow> encoded_blob" where
  "encode_blob_with_digest compress crc32 plaintext digest =
     (let (magic, payload) =
        (case compress plaintext of
           Some compressed \<Rightarrow>
             if length compressed < length plaintext then (COMPRESSED_BLOB_MAGIC, compressed)
             else (UNCOMPRESSED_BLOB_MAGIC, plaintext)
         | None \<Rightarrow> (UNCOMPRESSED_BLOB_MAGIC, plaintext))
      in \<lparr>b_data = magic @ to_le_bytes 4 (crc32 payload) @ payload, b_digest = digest,
          plaintext_size = length plaintext\<rparr>)"

definition encode_blob ::
    "(byte list \<Rightarrow> byte list option) \<Rightarrow> (byte list \<Rightarrow> nat) \<Rightarrow> (byte list \<Rightarrow> byte list) \<Rightarrow> byte list \<Rightarrow> encoded_blob" where
  "encode_blob compress crc32 sha256 plaintext = encode_blob_with_digest compress crc32 plaintext (sha256 plaintext)"

definition decode_blob ::
    "(byte list \<Rightarrow> nat \<Rightarrow> string + byte list) \<Rightarrow> (byte list \<Rightarrow> nat) \<Rightarrow> byte list \<Rightarrow> pbs_error + byte list" where
  "decode_blob decompress crc32 raw =
     and_then (ok_or (Decode ''blob shorter than header'') (get_range raw 0 8)) (\<lambda>magic.
     and_then (ok_or (Decode ''blob shorter than header'') (get_range raw 8 12)) (\<lambda>crc_field.
     and_then (ok_or (Decode ''blob shorter than header'') (get_from raw BLOB_HEADER_SIZE)) (\<lambda>payload.
     if crc32 payload \<noteq> from_le_bytes crc_field then Inl (Decode ''blob crc mismatch'')
     else if magic = UNCOMPRESSED_BLOB_MAGIC then Inr payload
     else if magic = COMPRESSED_BLOB_MAGIC then
       (case decompress payload MAX_DECODED_BLOB of
          Inl err \<Rightarrow> Inl (Decode (''zstd decode: '' @ err))
        | Inr p \<Rightarrow> Inr p)
     else Inl (Decode ''unknown or encrypted blob magic (encryption is not supported)''))))"


section \<open>Round trip\<close>

lemma magic_facts [simp]:
  "length UNCOMPRESSED_BLOB_MAGIC = 8" "length COMPRESSED_BLOB_MAGIC = 8"
  "COMPRESSED_BLOB_MAGIC \<noteq> UNCOMPRESSED_BLOB_MAGIC"
  by (simp_all add: UNCOMPRESSED_BLOB_MAGIC_def COMPRESSED_BLOB_MAGIC_def)

lemma decode_blob_parts:
  assumes "length magic = 8" and "crc32 payload < 2 ^ 32"
  shows "decode_blob decompress crc32 (magic @ to_le_bytes 4 (crc32 payload) @ payload) =
    (if magic = UNCOMPRESSED_BLOB_MAGIC then Inr payload
     else if magic = COMPRESSED_BLOB_MAGIC then
       (case decompress payload MAX_DECODED_BLOB of
          Inl err \<Rightarrow> Inl (Decode (''zstd decode: '' @ err))
        | Inr p \<Rightarrow> Inr p)
     else Inl (Decode ''unknown or encrypted blob magic (encryption is not supported)''))"
proof -
  let ?c = "to_le_bytes 4 (crc32 payload)"
  have "get_range (magic @ ?c @ payload) 0 8 = Some magic"
    using get_range_append [of "[]" 0 magic 8 "?c @ payload"] assms(1) by simp
  moreover have "get_range (magic @ ?c @ payload) 8 12 = Some ?c"
    using get_range_append [of magic 8 ?c 12 payload] assms(1) by simp
  moreover have "get_from (magic @ ?c @ payload) BLOB_HEADER_SIZE = Some payload"
    using assms(1) by (simp add: get_from_def BLOB_HEADER_SIZE_def)
  ultimately show ?thesis using assms(2) by (simp add: decode_blob_def from_to_u32)
qed

lemma decode_encode_with_digest:
  assumes "\<And>p c. compress p = Some c \<Longrightarrow> length p \<le> MAX_DECODED_BLOB \<Longrightarrow> decompress c MAX_DECODED_BLOB = Inr p"
    and "\<And>p. crc32 p < 2 ^ 32" and "length plaintext \<le> MAX_DECODED_BLOB"
  shows "decode_blob decompress crc32 (b_data (encode_blob_with_digest compress crc32 plaintext digest)) = Inr plaintext"
    "plaintext_size (encode_blob_with_digest compress crc32 plaintext digest) = length plaintext"
  using assms by (auto simp: encode_blob_with_digest_def decode_blob_parts split: option.splits)

text \<open>
  Every blob decodes to its plaintext, whether it was stored compressed or not, when the
  decompressor inverts the compressor on data up to the decoder's limit and the checksum is 32
  bits wide. The plaintext must not exceed 256 MiB, which the encoder does not check.
\<close>

lemma blob_round_trip:
  assumes "\<And>p c. compress p = Some c \<Longrightarrow> length p \<le> MAX_DECODED_BLOB \<Longrightarrow> decompress c MAX_DECODED_BLOB = Inr p"
    and "\<And>p. crc32 p < 2 ^ 32" and "length plaintext \<le> MAX_DECODED_BLOB"
  shows "decode_blob decompress crc32 (b_data (encode_blob compress crc32 sha256 plaintext)) = Inr plaintext \<and>
    plaintext_size (encode_blob compress crc32 sha256 plaintext) = length plaintext"
  unfolding encode_blob_def
  using decode_encode_with_digest [of compress decompress crc32 plaintext "sha256 plaintext"] assms by blast

text \<open>The hypotheses hold for a compressor that knows one block of zeros.\<close>

definition sample_compress :: "byte list \<Rightarrow> byte list option" where
  "sample_compress p = (if p = replicate 100 0 then Some [1] else None)"

definition sample_decompress :: "byte list \<Rightarrow> nat \<Rightarrow> string + byte list" where
  "sample_decompress c cap = (if c = [1] then Inr (replicate 100 0) else Inl ''corrupt'')"

end
