(* ===== verification/Catalog.thy ===== *)
theory Catalog
  imports Datablob
begin

text \<open>
  The backup catalog (\<^verbatim>\<open>pbs-client/src/catalog.rs\<close>): a writer that emits one block per directory,
  children before parents, and a reader that follows the offsets back from the trailer. Writer
  and reader work on byte buffers; paths are byte strings as well. The depth limit of the reader
  is counted down instead of up.
\<close>

section \<open>Variable-length integers\<close>

lemma drop_bit_7_less [termination_simp]: "0 < v \<Longrightarrow> drop_bit 7 v < v" for v :: nat
  by (simp add: drop_bit_eq_div)

fun encode_u64 :: "nat \<Rightarrow> byte list" where
  "encode_u64 value =
     (if value < 0x80 then [value] else (0x80 OR (value AND 0x7f)) # encode_u64 (drop_bit 7 value))"

declare encode_u64.simps [simp del]

fun encode_magnitude :: "bool \<Rightarrow> nat \<Rightarrow> byte list" where
  "encode_magnitude negative magnitude =
     (if magnitude < 0x40 then [(if negative then 0x40 else 0) OR magnitude]
      else (0x80 OR (magnitude AND 0x7f)) # encode_magnitude negative (drop_bit 7 magnitude))"

declare encode_magnitude.simps [simp del]

definition encode_i64 :: "int \<Rightarrow> byte list" where
  "encode_i64 value =
     (if value < 0 then encode_magnitude True (as_u64 (wrap_i64 (- wrap_i64 (value + 1))))
      else encode_magnitude False (as_u64 value))"

text \<open>
  The reader's cursor is a position in a buffer. \<open>read_u64_loop\<close> is the loop of
  \<^verbatim>\<open>Cursor::u64\<close> from the state \<open>(value, shift)\<close>; each round consumes a byte and moves the
  shift, which is refused at 64.
\<close>

definition cursor_byte :: "byte list \<Rightarrow> nat \<Rightarrow> pbs_error + (byte \<times> nat)" where
  "cursor_byte data pos =
     (if pos < length data then Inr (data ! pos, pos + 1) else Inl (Decode ''catalog: unexpected end of data''))"

definition cursor_take :: "byte list \<Rightarrow> nat \<Rightarrow> nat \<Rightarrow> pbs_error + (byte list \<times> nat)" where
  "cursor_take data pos len =
     and_then (ok_or (Decode ''catalog: length overflow'') (checked_add pos len)) (\<lambda>end_pos.
     and_then (ok_or (Decode ''catalog: slice out of range'') (get_range data pos end_pos)) (\<lambda>slice.
     Inr (slice, end_pos)))"

definition shl_u64 :: "nat \<Rightarrow> nat \<Rightarrow> nat" where
  "shl_u64 a k = take_bit 64 (push_bit k a)"

function read_u64_loop :: "byte list \<Rightarrow> nat \<Rightarrow> nat \<Rightarrow> nat \<Rightarrow> pbs_error + (nat \<times> nat)" where
  "read_u64_loop data pos value shift =
     (case cursor_byte data pos of
        Inl e \<Rightarrow> Inl e
      | Inr (b, pos') \<Rightarrow>
          if 64 \<le> shift then Inl (Decode ''catalog: varint too long'')
          else
            let value' = value OR shl_u64 (b AND 0x7f) shift
            in if b AND 0x80 = 0 then Inr (value', pos') else read_u64_loop data pos' value' (shift + 7))"
  by pat_completeness auto
termination
  by (relation "measure (\<lambda>(data, pos, value, shift). 64 - shift)") auto

declare read_u64_loop.simps [simp del]

definition cursor_u64 :: "byte list \<Rightarrow> nat \<Rightarrow> pbs_error + (nat \<times> nat)" where
  "cursor_u64 data pos = read_u64_loop data pos 0 0"

function read_i64_loop :: "byte list \<Rightarrow> nat \<Rightarrow> nat \<Rightarrow> nat \<Rightarrow> pbs_error + (int \<times> nat)" where
  "read_i64_loop data pos value shift =
     (case cursor_byte data pos of
        Inl e \<Rightarrow> Inl e
      | Inr (b, pos') \<Rightarrow>
          if 64 \<le> shift then Inl (Decode ''catalog: varint too long'')
          else if b AND 0x80 \<noteq> 0 then
            read_i64_loop data pos' (value OR shl_u64 (b AND 0x7f) shift) (shift + 7)
          else
            let value' = value OR shl_u64 (b AND 0x3f) shift
            in Inr (if b AND 0x40 \<noteq> 0 then wrap_i64 (wrap_i64 (- as_i64 value') - 1) else as_i64 value', pos'))"
  by pat_completeness auto
termination
  by (relation "measure (\<lambda>(data, pos, value, shift). 64 - shift)") auto

declare read_i64_loop.simps [simp del]

definition cursor_i64 :: "byte list \<Rightarrow> nat \<Rightarrow> pbs_error + (int \<times> nat)" where
  "cursor_i64 data pos = read_i64_loop data pos 0 0"

subsection \<open>They read back what was written\<close>

lemma or_128: "0x80 OR (v AND 0x7f) = 128 + v mod 128" for v :: nat
proof -
  have "v mod 128 < 2 ^ 7" by simp
  from or_disjoint [OF this, of 1] show ?thesis by (simp add: and_127 or.commute)
qed

lemma and_128: "b AND 0x80 = (if odd (b div 128) then 128 else 0)" for b :: nat
proof (rule bit_eqI)
  fix n
  have "bit (128::nat) n \<longleftrightarrow> n = 7" using bit_exp_iff [of 7 n, where 'a = nat] by auto
  then show "bit (b AND 0x80) n = bit (if odd (b div 128) then 128 else 0 :: nat) n"
    by (auto simp: bit_and_iff bit_iff_odd [of b])
qed

lemma and_128_low: "b < 128 \<Longrightarrow> b AND 0x80 = 0" for b :: nat
  by (simp add: and_128)

lemma and_128_high: "(128 + b mod 128) AND 0x80 \<noteq> 0" for b :: nat
proof -
  have "(128 + b mod 128) div 128 = 1" by (simp add: div_add_self1)
  then show ?thesis by (simp add: and_128)
qed

lemma shl_small: "a * 2 ^ k < 2 ^ 64 \<Longrightarrow> shl_u64 a k = a * 2 ^ k"
  by (simp add: shl_u64_def push_bit_eq_mult take_bit_nat_eq_self)

lemma or_shl:
  assumes "acc < 2 ^ k" and "a * 2 ^ k < 2 ^ 64"
  shows "acc OR shl_u64 a k = acc + a * 2 ^ k"
  using or_disjoint [OF assms(1), of a] shl_small [OF assms(2)] by (simp add: push_bit_eq_mult)


text \<open>One continuation byte: what is left of the value, and where the accumulator stands.\<close>

lemma varint_step:
  fixes v acc shift :: nat
  shows "v div 128 * 2 ^ (shift + 7) \<le> v * 2 ^ shift" and "v mod 128 * 2 ^ shift \<le> v * 2 ^ shift"
    and "acc + v mod 128 * 2 ^ shift + v div 128 * 2 ^ (shift + 7) = acc + v * 2 ^ shift"
    and "acc < 2 ^ shift \<Longrightarrow> acc + v mod 128 * 2 ^ shift < 2 ^ (shift + 7)"
proof -
  show "v div 128 * 2 ^ (shift + 7) \<le> v * 2 ^ shift" "v mod 128 * 2 ^ shift \<le> v * 2 ^ shift"
    by (simp_all add: power_add)
  have "v * 2 ^ shift = (v mod 128 + v div 128 * 128) * 2 ^ shift" by simp
  then show "acc + v mod 128 * 2 ^ shift + v div 128 * 2 ^ (shift + 7) = acc + v * 2 ^ shift"
    by (simp only: add_mult_distrib power_add) simp
  show "acc + v mod 128 * 2 ^ shift < 2 ^ (shift + 7)" if "acc < 2 ^ shift"
  proof -
    have "acc + v mod 128 * 2 ^ shift < (v mod 128 + 1) * 2 ^ shift" using that by simp
    also have "\<dots> \<le> 128 * 2 ^ shift" by (rule mult_le_mono1) (simp add: Suc_leI)
    finally show ?thesis by (simp add: power_add)
  qed
qed

lemma read_u64_encode:
  assumes "v * 2 ^ shift < 2 ^ 64" and "acc < 2 ^ shift" and "shift < 64"
    and "data = pre @ encode_u64 v @ post" and "length pre = pos"
  shows "read_u64_loop data pos acc shift = Inr (acc + v * 2 ^ shift, pos + length (encode_u64 v))"
  using assms
proof (induction v arbitrary: acc shift pre pos rule: encode_u64.induct)
  case (1 v)
  show ?case
  proof (cases "v < 0x80")
    case True
    then have enc: "encode_u64 v = [v]" by (simp add: encode_u64.simps)
    have byte: "cursor_byte data pos = Inr (v, pos + 1)"
      using "1.prems"(4,5) enc by (simp add: cursor_byte_def nth_append)
    show ?thesis
      using True "1.prems"(1-3) or_shl [of acc shift v]
      by (simp add: read_u64_loop.simps [of data pos] byte enc and_127 and_128_low)
  next
    case False
    have enc: "encode_u64 v = (128 + v mod 128) # encode_u64 (v div 128)"
      using False by (simp add: encode_u64.simps [of v] or_128 drop_bit_eq_div)
    have byte: "cursor_byte data pos = Inr (128 + v mod 128, pos + 1)"
      using "1.prems"(4,5) enc by (simp add: cursor_byte_def nth_append)
    have d: "drop_bit 7 v = v div 128" by (simp add: drop_bit_eq_div)
    note fit = varint_step(1,2) [of v shift] and sum = varint_step(3) [of acc v shift]
    note low = varint_step(4) [OF "1.prems"(2), of v]
    have "shift + 7 < 64"
    proof (rule ccontr)
      assume "\<not> shift + 7 < 64"
      then have "(2::nat) ^ 64 \<le> 2 ^ (shift + 7)" by (intro power_increasing) auto
      moreover have "(2::nat) ^ (shift + 7) \<le> v * 2 ^ shift" using False by (simp add: power_add)
      ultimately show False using "1.prems"(1) by linarith
    qed
    then have "read_u64_loop data (pos + 1) (acc + v mod 128 * 2 ^ shift) (shift + 7) =
       Inr (acc + v mod 128 * 2 ^ shift + v div 128 * 2 ^ (shift + 7), pos + 1 + length (encode_u64 (v div 128)))"
      using "1.prems" enc fit low False
      by (intro "1.IH" [OF False, unfolded d, of _ _ "pre @ [128 + v mod 128]"]) simp_all
    then show ?thesis
      using "1.prems"(1-3) or_shl [of acc shift "v mod 128"] fit sum
      by (simp add: read_u64_loop.simps [of data pos] byte enc and_127 and_128_high)
  qed
qed


lemma and_64: "b AND 0x40 = (if odd (b div 64) then 64 else 0)" for b :: nat
proof (rule bit_eqI)
  fix n
  have "bit (64::nat) n \<longleftrightarrow> n = 6" using bit_exp_iff [of 6 n, where 'a = nat] by auto
  then show "bit (b AND 0x40) n = bit (if odd (b div 64) then 64 else 0 :: nat) n"
    by (auto simp: bit_and_iff bit_iff_odd [of b])
qed

lemma or_64: "m < 64 \<Longrightarrow> 0x40 OR m = 64 + m" for m :: nat
  using or_disjoint [of m 6 1] by (simp add: or.commute)

lemma sign_byte:
  assumes "m < 64"
  shows "((if neg then 0x40 else 0) OR m) AND 0x80 = (0::nat)"
    and "((if neg then 0x40 else 0) OR m) AND 0x3f = m"
    and "((if neg then 0x40 else 0) OR m) AND 0x40 \<noteq> 0 \<longleftrightarrow> neg"
proof -
  have "(64 + m) mod 64 = m" "(64 + m) div 64 = 1" using assms by simp_all
  with assms show "((if neg then 0x40 else 0) OR m) AND 0x80 = 0"
    "((if neg then 0x40 else 0) OR m) AND 0x3f = m"
    "((if neg then 0x40 else 0) OR m) AND 0x40 \<noteq> 0 \<longleftrightarrow> neg"
    by (auto simp: or_64 and_128 and_63 and_64)
qed

lemma read_i64_encode:
  assumes "m * 2 ^ shift < 2 ^ 63" and "acc < 2 ^ shift" and "shift < 64" and "acc + m * 2 ^ shift < 2 ^ 63"
    and "data = pre @ encode_magnitude neg m @ post" and "length pre = pos"
  shows "read_i64_loop data pos acc shift =
    Inr (if neg then - int (acc + m * 2 ^ shift) - 1 else int (acc + m * 2 ^ shift),
         pos + length (encode_magnitude neg m))"
  using assms
proof (induction neg m arbitrary: acc shift pre pos rule: encode_magnitude.induct)
  case (1 neg m)
  show ?case
  proof (cases "m < 0x40")
    case True
    define b where "b = (if neg then 0x40 else 0) OR m"
    have enc: "encode_magnitude neg m = [b]" using True by (simp add: encode_magnitude.simps b_def)
    have bits: "b AND 0x80 = 0" "b AND 0x3f = m" "b AND 0x40 = 0 \<longleftrightarrow> \<not> neg"
      using sign_byte [OF True, of neg] by (simp_all only: b_def) auto
    have byte: "cursor_byte data pos = Inr (b, pos + 1)"
      using "1.prems"(5,6) enc by (simp add: cursor_byte_def nth_append)
    have val: "acc OR shl_u64 m shift = acc + m * 2 ^ shift"
      using "1.prems"(1,2) by (intro or_shl) auto
    have "as_i64 (acc + m * 2 ^ shift) = int (acc + m * 2 ^ shift)"
      using "1.prems"(4) by (rule as_i64_exact)
    moreover have "wrap_i64 (- int (acc + m * 2 ^ shift)) = - int (acc + m * 2 ^ shift)"
      "wrap_i64 (- int (acc + m * 2 ^ shift) - 1) = - int (acc + m * 2 ^ shift) - 1"
      using "1.prems"(4) by (simp_all add: wrap_i64_exact is_i64_def del: of_nat_add of_nat_mult of_nat_power)
    ultimately show ?thesis
      using "1.prems"(3)
      by (simp add: read_i64_loop.simps [of data pos] byte enc bits val Let_def
          del: of_nat_add of_nat_mult of_nat_power)
  next
    case False
    have enc: "encode_magnitude neg m = (128 + m mod 128) # encode_magnitude neg (m div 128)"
      using False by (simp add: encode_magnitude.simps [of neg m] or_128 drop_bit_eq_div)
    have byte: "cursor_byte data pos = Inr (128 + m mod 128, pos + 1)"
      using "1.prems"(5,6) enc by (simp add: cursor_byte_def nth_append)
    have d: "drop_bit 7 m = m div 128" by (simp add: drop_bit_eq_div)
    note fit = varint_step(1,2) [of m shift] and sum = varint_step(3) [of acc m shift]
    note low = varint_step(4) [OF "1.prems"(2), of m]
    have "shift + 7 < 64"
    proof (rule ccontr)
      assume "\<not> shift + 7 < 64"
      then have "(2::nat) ^ 63 \<le> 2 ^ (shift + 6)" by (intro power_increasing) auto
      moreover have "(2::nat) ^ (shift + 6) \<le> m * 2 ^ shift" using False by (simp add: power_add)
      ultimately show False using "1.prems"(1) by linarith
    qed
    then have "read_i64_loop data (pos + 1) (acc + m mod 128 * 2 ^ shift) (shift + 7) =
       Inr (if neg then - int (acc + m mod 128 * 2 ^ shift + m div 128 * 2 ^ (shift + 7)) - 1
            else int (acc + m mod 128 * 2 ^ shift + m div 128 * 2 ^ (shift + 7)),
            pos + 1 + length (encode_magnitude neg (m div 128)))"
      using "1.prems" enc fit low False sum
      by (intro "1.IH" [OF False, unfolded d, of _ _ "pre @ [128 + m mod 128]"]) simp_all
    then show ?thesis
      using "1.prems"(1-3) or_shl [of acc shift "m mod 128"] fit unfolding sum
      by (simp add: read_i64_loop.simps [of data pos] byte enc and_127 and_128_high
          del: of_nat_add of_nat_mult of_nat_power)
  qed
qed

lemma cursor_u64_encode:
  assumes "v \<le> u64_max" and "length pre = pos"
  shows "cursor_u64 (pre @ encode_u64 v @ post) pos = Inr (v, pos + length (encode_u64 v))"
  using read_u64_encode [OF _ _ _ refl assms(2), of v 0 0 post] assms(1)
  by (simp add: cursor_u64_def u64_max_def)

lemma cursor_i64_encode:
  assumes "is_i64 v" and "length pre = pos"
  shows "cursor_i64 (pre @ encode_i64 v @ post) pos = Inr (v, pos + length (encode_i64 v))"
proof (cases "v < 0")
  case True
  have "wrap_i64 (- wrap_i64 (v + 1)) = - (v + 1)"
    using assms(1) True by (simp add: wrap_i64_exact is_i64_def)
  moreover have "as_u64 (- (v + 1)) = nat (- (v + 1))"
    using assms(1) True by (intro as_u64_exact) (auto simp: is_i64_def)
  ultimately have enc: "encode_i64 v = encode_magnitude True (nat (- (v + 1)))"
    using True by (simp add: encode_i64_def)
  have "nat (- (v + 1)) < 2 ^ 63" using assms(1) by (auto simp: is_i64_def)
  then show ?thesis
    using read_i64_encode [OF _ _ _ _ refl assms(2), of "nat (- (v + 1))" 0 0 True post] True
    by (simp add: cursor_i64_def enc)
next
  case False
  then have enc: "encode_i64 v = encode_magnitude False (nat v)"
    using assms(1) by (simp add: encode_i64_def as_u64_exact is_i64_def)
  have "nat v < 2 ^ 63" using assms(1) False by (auto simp: is_i64_def)
  then show ?thesis
    using read_i64_encode [OF _ _ _ _ refl assms(2), of "nat v" 0 0 False post] False
    by (simp add: cursor_i64_def enc)
qed



section \<open>The writer\<close>

definition CATALOG_MAGIC :: "byte list" where
  "CATALOG_MAGIC = [145, 253, 96, 249, 196, 103, 88, 213]"

datatype attribute =
  Directory nat | FileAttr nat int | Symlink | Hardlink | BlockDevice | CharDevice | Fifo | Socket

record catalog_entry =
  e_name :: "byte list"
  e_attribute :: attribute

record directory_info =
  d_name :: "byte list"
  d_entries :: "catalog_entry list"

definition directory_new :: "byte list \<Rightarrow> directory_info" where
  "directory_new name = \<lparr>d_name = name, d_entries = []\<rparr>"

fun type_byte :: "attribute \<Rightarrow> byte" where
  "type_byte (Directory _) = 100"
| "type_byte (FileAttr _ _) = 102"
| "type_byte Symlink = 108"
| "type_byte Hardlink = 104"
| "type_byte BlockDevice = 98"
| "type_byte CharDevice = 99"
| "type_byte Fifo = 112"
| "type_byte Socket = 115"

definition encode_attribute :: "attribute \<Rightarrow> nat \<Rightarrow> byte list" where
  "encode_attribute a start =
     (case a of
        Directory child_start \<Rightarrow> encode_u64 (as_u64 (int start - int child_start))
      | FileAttr sz mtime \<Rightarrow> encode_u64 sz @ encode_i64 mtime
      | _ \<Rightarrow> [])"

definition encode_entry :: "nat \<Rightarrow> catalog_entry \<Rightarrow> byte list" where
  "encode_entry start e =
     type_byte (e_attribute e) # encode_u64 (length (e_name e)) @ e_name e @ encode_attribute (e_attribute e) start"

definition encode_table :: "nat \<Rightarrow> catalog_entry list \<Rightarrow> byte list" where
  "encode_table start es = encode_u64 (length es) @ concat (map (encode_entry start) es)"

definition encode_directory :: "directory_info \<Rightarrow> nat \<Rightarrow> byte list" where
  "encode_directory d start =
     (let table = encode_table start (d_entries d) in encode_u64 (length table) @ table)"

text \<open>The stack's head is the last element of the \<^verbatim>\<open>Vec\<close>; the underlying writer is a buffer.\<close>

record catalog_writer =
  cw_out :: "byte list"
  cw_stack :: "directory_info list"
  cw_pos :: nat

definition cw_new :: catalog_writer where
  "cw_new = \<lparr>cw_out = CATALOG_MAGIC, cw_stack = [directory_new []], cw_pos = length CATALOG_MAGIC\<rparr>"

definition cw_write_all :: "byte list \<Rightarrow> catalog_writer \<Rightarrow> catalog_writer" where
  "cw_write_all data w = w\<lparr>cw_out := cw_out w @ data, cw_pos := wrapping_add (cw_pos w) (length data)\<rparr>"

definition cw_start_directory :: "byte list \<Rightarrow> catalog_writer \<Rightarrow> catalog_writer" where
  "cw_start_directory name w = w\<lparr>cw_stack := directory_new name # cw_stack w\<rparr>"

definition cw_add :: "byte list \<Rightarrow> attribute \<Rightarrow> catalog_writer \<Rightarrow> string + catalog_writer" where
  "cw_add name a w =
     (case cw_stack w of
        [] \<Rightarrow> Inl ''catalog directory stack underflow''
      | d # ds \<Rightarrow> Inr (w\<lparr>cw_stack := d\<lparr>d_entries := d_entries d @ [\<lparr>e_name = name, e_attribute = a\<rparr>]\<rparr> # ds\<rparr>))"

definition cw_end_directory :: "catalog_writer \<Rightarrow> string + catalog_writer" where
  "cw_end_directory w =
     (case cw_stack w of
        [] \<Rightarrow> Inl ''catalog directory stack underflow''
      | dir # ds \<Rightarrow>
          let w1 = w\<lparr>cw_stack := ds\<rparr> in
          if ds = [] then Inl ''cannot end the catalog root directory''
          else
            let start = cw_pos w1; w2 = cw_write_all (encode_directory dir start) w1
            in cw_add (d_name dir) (Directory start) w2)"

definition cw_finish :: "catalog_writer \<Rightarrow> string + byte list" where
  "cw_finish w =
     (case cw_stack w of
        [root] \<Rightarrow>
          let start = cw_pos w;
              w1 = cw_write_all (encode_directory root start) (w\<lparr>cw_stack := []\<rparr>)
          in Inr (cw_out (cw_write_all (to_le_bytes 8 start) w1))
      | _ \<Rightarrow> Inl ''unbalanced catalog directories at finish'')"


section \<open>The reader\<close>

definition MAX_CATALOG_DEPTH :: nat where
  "MAX_CATALOG_DEPTH = 1024"

definition MAX_CATALOG_ENTRIES :: nat where
  "MAX_CATALOG_ENTRIES = 100000000"

datatype raw_kind = RawDirectory nat | RawFile nat int | RawSymlink | RawHardlink | RawOther

record raw_entry =
  r_name :: "byte list"
  r_kind :: raw_kind

definition read_kind :: "byte list \<Rightarrow> nat \<Rightarrow> byte \<Rightarrow> nat \<Rightarrow> pbs_error + (raw_kind \<times> nat)" where
  "read_kind table pos ty block_pos =
     (if ty = 100 then
        and_then (cursor_u64 table pos) (\<lambda>(delta, pos').
        and_then (ok_or (Decode ''catalog: directory offset underflow'') (checked_sub block_pos delta)) (\<lambda>child.
        Inr (RawDirectory child, pos')))
      else if ty = 102 then
        and_then (cursor_u64 table pos) (\<lambda>(sz, pos').
        and_then (cursor_i64 table pos') (\<lambda>(mtime, pos'').
        Inr (RawFile sz mtime, pos'')))
      else if ty = 108 then Inr (RawSymlink, pos)
      else if ty = 104 then Inr (RawHardlink, pos)
      else if ty = 98 \<or> ty = 99 \<or> ty = 112 \<or> ty = 115 then Inr (RawOther, pos)
      else Inl (Decode ''catalog: unknown entry type''))"

fun read_entries :: "byte list \<Rightarrow> nat \<Rightarrow> nat \<Rightarrow> nat \<Rightarrow> pbs_error + raw_entry list" where
  "read_entries table pos block_pos 0 = Inr []"
| "read_entries table pos block_pos (Suc n) =
     and_then (cursor_byte table pos) (\<lambda>(ty, pos1).
     and_then (cursor_u64 table pos1) (\<lambda>(name_len, pos2).
     and_then (cursor_take table pos2 name_len) (\<lambda>(name, pos3).
     and_then (read_kind table pos3 ty block_pos) (\<lambda>(kind, pos4).
     and_then (read_entries table pos4 block_pos n) (\<lambda>es.
     Inr (\<lparr>r_name = name, r_kind = kind\<rparr> # es))))))"

definition read_table :: "byte list \<Rightarrow> nat \<Rightarrow> pbs_error + raw_entry list" where
  "read_table data block_pos =
     and_then (cursor_u64 data block_pos) (\<lambda>(table_len, pos).
     and_then (cursor_take data pos table_len) (\<lambda>(table, _).
     and_then (cursor_u64 table 0) (\<lambda>(count, pos').
     read_entries table pos' block_pos count)))"

datatype archive_kind = KFile | KDirectory | KSymlink

record archive_entry =
  a_path :: "byte list"
  a_kind :: archive_kind
  a_size :: nat
  a_mode :: nat
  a_mtime :: int
  a_symlink :: "byte list option"

definition dir_entry :: "byte list \<Rightarrow> archive_entry" where
  "dir_entry p = \<lparr>a_path = p, a_kind = KDirectory, a_size = 0, a_mode = 493, a_mtime = 0, a_symlink = None\<rparr>"

definition file_entry :: "byte list \<Rightarrow> nat \<Rightarrow> int \<Rightarrow> archive_entry" where
  "file_entry p sz mtime = \<lparr>a_path = p, a_kind = KFile, a_size = sz, a_mode = 420, a_mtime = mtime, a_symlink = None\<rparr>"

definition symlink_entry :: "byte list \<Rightarrow> archive_entry" where
  "symlink_entry p = \<lparr>a_path = p, a_kind = KSymlink, a_size = 0, a_mode = 511, a_mtime = 0, a_symlink = None\<rparr>"

text \<open>
  \<open>left\<close> is how many directory levels are still allowed: \<^verbatim>\<open>MAX_CATALOG_DEPTH + 1\<close> minus the depth.
\<close>

function push_walk ::
    "byte list \<Rightarrow> nat \<Rightarrow> nat \<Rightarrow> byte list \<Rightarrow> archive_entry list \<times> nat list \<Rightarrow>
     pbs_error + (archive_entry list \<times> nat list)"
  and walk_table ::
    "byte list \<Rightarrow> nat \<Rightarrow> raw_entry list \<Rightarrow> byte list \<Rightarrow> archive_entry list \<times> nat list \<Rightarrow>
     pbs_error + (archive_entry list \<times> nat list)" where
  "push_walk data 0 block_pos base st = Inl (Decode ''catalog: directory nesting too deep'')"
| "push_walk data (Suc left) block_pos base (out, visited) =
     (if block_pos \<in> set visited then Inl (Decode ''catalog: block revisited (shared child)'')
      else case read_table data block_pos of
             Inl e \<Rightarrow> Inl e
           | Inr es \<Rightarrow> walk_table data left es base (out, block_pos # visited))"
| "walk_table data left [] base st = Inr st"
| "walk_table data left (e # es) base (out, visited) =
     (if MAX_CATALOG_ENTRIES \<le> length out then Inl (Decode ''catalog: emitted entry count exceeds limit'')
      else
        let p = path_join base (r_name e) in
        case r_kind e of
          RawDirectory child \<Rightarrow>
            (case push_walk data left child p (out @ [dir_entry p], visited) of
               Inl err \<Rightarrow> Inl err
             | Inr st \<Rightarrow> walk_table data left es base st)
        | RawFile sz mtime \<Rightarrow> walk_table data left es base (out @ [file_entry p sz mtime], visited)
        | RawHardlink \<Rightarrow> walk_table data left es base (out @ [file_entry p 0 0], visited)
        | RawSymlink \<Rightarrow> walk_table data left es base (out @ [symlink_entry p], visited)
        | RawOther \<Rightarrow> walk_table data left es base (out, visited))"
  by pat_completeness auto
termination
  by (relation "measures [\<lambda>x. case x of Inl (_, left, _) \<Rightarrow> left | Inr (_, left, _) \<Rightarrow> left,
      \<lambda>x. case x of Inl _ \<Rightarrow> 0 | Inr (_, _, es, _) \<Rightarrow> Suc (length es)]") auto

fun walk_root ::
    "byte list \<Rightarrow> raw_entry list \<Rightarrow> archive_entry list \<times> nat list \<Rightarrow> pbs_error + archive_entry list" where
  "walk_root data [] (out, visited) = Inr out"
| "walk_root data (e # es) (out, visited) =
     (case r_kind e of
        RawDirectory child \<Rightarrow>
          (case push_walk data (Suc MAX_CATALOG_DEPTH) child [] (out, visited) of
             Inl err \<Rightarrow> Inl err
           | Inr st \<Rightarrow> walk_root data es st)
      | RawFile sz mtime \<Rightarrow>
          if MAX_CATALOG_ENTRIES \<le> length out then Inl (Decode ''catalog: emitted entry count exceeds limit'')
          else walk_root data es (out @ [file_entry (r_name e) sz mtime], visited)
      | _ \<Rightarrow> walk_root data es (out, visited))"

definition parse_catalog :: "byte list \<Rightarrow> pbs_error + archive_entry list" where
  "parse_catalog data =
     (if get_range data 0 (length CATALOG_MAGIC) \<noteq> Some CATALOG_MAGIC then Inl (Decode ''catalog: invalid magic'')
      else
        and_then (ok_or (Decode ''catalog: missing trailer'') (checked_sub (length data) 8)) (\<lambda>trailer_start.
        and_then (ok_or (Decode ''catalog: missing trailer'') (get_from data trailer_start)) (\<lambda>trailer.
        let root_offset = from_le_bytes trailer in
        and_then (read_table data root_offset) (\<lambda>es. walk_root data es ([], [root_offset])))))"



section \<open>A block reads back\<close>

fun raw_kind_of :: "attribute \<Rightarrow> raw_kind" where
  "raw_kind_of (Directory child) = RawDirectory child"
| "raw_kind_of (FileAttr sz mtime) = RawFile sz mtime"
| "raw_kind_of Symlink = RawSymlink"
| "raw_kind_of Hardlink = RawHardlink"
| "raw_kind_of _ = RawOther"

definition raw_of :: "catalog_entry \<Rightarrow> raw_entry" where
  "raw_of e = \<lparr>r_name = e_name e, r_kind = raw_kind_of (e_attribute e)\<rparr>"

lemma raw_of_sel [simp]: "r_name (raw_of e) = e_name e" "r_kind (raw_of e) = raw_kind_of (e_attribute e)"
  by (simp_all add: raw_of_def)

definition entry_ok :: "nat \<Rightarrow> catalog_entry \<Rightarrow> bool" where
  "entry_ok start e \<longleftrightarrow> length (e_name e) \<le> u64_max \<and>
     (case e_attribute e of
        Directory child \<Rightarrow> child \<le> start \<and> start \<le> u64_max
      | FileAttr sz mtime \<Rightarrow> sz \<le> u64_max \<and> is_i64 mtime
      | _ \<Rightarrow> True)"

lemma cursor_take_append:
  assumes "length pre = pos" and "pos + length mid \<le> u64_max"
  shows "cursor_take (pre @ mid @ post) pos (length mid) = Inr (mid, pos + length mid)"
  using get_range_append [of pre pos mid "pos + length mid" post] assms
  by (simp add: cursor_take_def checked_add_def)

lemma read_kind_encode:
  assumes "entry_ok start e" and "length pre = pos"
  shows "read_kind (pre @ encode_attribute (e_attribute e) start @ post) pos (type_byte (e_attribute e)) start =
    Inr (raw_kind_of (e_attribute e), pos + length (encode_attribute (e_attribute e) start))"
proof (cases "e_attribute e")
  case (Directory child)
  have "as_u64 (int start - int child) = start - child" "start - child \<le> u64_max"
    using assms(1) Directory by (auto simp: entry_ok_def as_u64_exact u64_max_def)
  moreover have "checked_sub start (start - child) = Some child"
    using assms(1) Directory by (auto simp: entry_ok_def checked_sub_def)
  ultimately show ?thesis
    using Directory cursor_u64_encode [of "start - child" pre pos post] assms(2)
    by (simp add: read_kind_def encode_attribute_def)
next
  case (FileAttr sz mtime)
  have "cursor_u64 (pre @ encode_u64 sz @ encode_i64 mtime @ post) pos = Inr (sz, pos + length (encode_u64 sz))"
    using cursor_u64_encode [of sz pre pos] assms FileAttr by (simp add: entry_ok_def)
  moreover have "cursor_i64 ((pre @ encode_u64 sz) @ encode_i64 mtime @ post) (pos + length (encode_u64 sz)) =
      Inr (mtime, pos + length (encode_u64 sz) + length (encode_i64 mtime))"
    using assms FileAttr by (intro cursor_i64_encode) (auto simp: entry_ok_def)
  ultimately show ?thesis using FileAttr by (simp add: read_kind_def encode_attribute_def)
qed (simp_all add: read_kind_def encode_attribute_def)

lemma read_entries_encode:
  assumes "list_all (entry_ok start) es" and "length pre = pos"
    and "pos + length (concat (map (encode_entry start) es)) \<le> u64_max"
  shows "read_entries (pre @ concat (map (encode_entry start) es)) pos start (length es) = Inr (map raw_of es)"
  using assms
proof (induction es arbitrary: pre pos)
  case Nil
  then show ?case by simp
next
  case (Cons e es)
  let ?n = "encode_u64 (length (e_name e))" and ?a = "encode_attribute (e_attribute e) start"
  let ?rest = "concat (map (encode_entry start) es)"
  let ?t = "pre @ encode_entry start e @ ?rest"
  have ok: "entry_ok start e" using Cons.prems(1) by simp
  have b: "cursor_byte ?t pos = Inr (type_byte (e_attribute e), pos + 1)"
    using Cons.prems(2) by (simp add: cursor_byte_def encode_entry_def nth_append)
  have n: "cursor_u64 ?t (pos + 1) = Inr (length (e_name e), pos + 1 + length ?n)"
    using cursor_u64_encode [of "length (e_name e)" "pre @ [type_byte (e_attribute e)]" "pos + 1"
        "e_name e @ ?a @ ?rest"] ok Cons.prems(2)
    by (simp add: encode_entry_def entry_ok_def)
  have t: "cursor_take ?t (pos + 1 + length ?n) (length (e_name e)) =
      Inr (e_name e, pos + 1 + length ?n + length (e_name e))"
    using cursor_take_append [of "pre @ type_byte (e_attribute e) # ?n" "pos + 1 + length ?n" "e_name e" "?a @ ?rest"]
      Cons.prems(2,3) by (simp add: encode_entry_def)
  have k: "read_kind ?t (pos + 1 + length ?n + length (e_name e)) (type_byte (e_attribute e)) start =
      Inr (raw_kind_of (e_attribute e), pos + length (encode_entry start e))"
    using read_kind_encode [OF ok, of "pre @ type_byte (e_attribute e) # ?n @ e_name e"
        "pos + 1 + length ?n + length (e_name e)" ?rest] Cons.prems(2)
    by (simp add: encode_entry_def ac_simps)
  have "read_entries ?t (pos + length (encode_entry start e)) start (length es) = Inr (map raw_of es)"
    using Cons.IH [of "pre @ encode_entry start e" "pos + length (encode_entry start e)"] Cons.prems by simp
  with b n t k show ?case by (simp add: raw_of_def)
qed

lemma read_table_block:
  assumes "data = pre @ encode_directory d start @ post" and "length pre = start"
    and "list_all (entry_ok start) (d_entries d)" and "length data \<le> u64_max"
    and "length (d_entries d) \<le> u64_max"
  shows "read_table data start = Inr (map raw_of (d_entries d))"
proof -
  let ?t = "encode_table start (d_entries d)"
  let ?l = "encode_u64 (length ?t)"
  have data: "data = pre @ ?l @ ?t @ post" using assms(1) by (simp add: encode_directory_def Let_def)
  have len: "length ?t \<le> u64_max" "start + length ?l + length ?t \<le> u64_max"
    using assms(2,4) by (simp_all add: data)
  have "cursor_u64 data start = Inr (length ?t, start + length ?l)"
    using cursor_u64_encode [OF len(1) assms(2)] by (simp add: data)
  moreover have "cursor_take data (start + length ?l) (length ?t) = Inr (?t, start + length ?l + length ?t)"
    using cursor_take_append [of "pre @ ?l" "start + length ?l" ?t post] assms(2) len(2) by (simp add: data)
  moreover have "cursor_u64 ?t 0 = Inr (length (d_entries d), length (encode_u64 (length (d_entries d))))"
    using cursor_u64_encode [OF assms(5), of "[]" 0] by (simp add: encode_table_def)
  moreover have "read_entries ?t (length (encode_u64 (length (d_entries d)))) start (length (d_entries d)) =
      Inr (map raw_of (d_entries d))"
    using read_entries_encode [OF assms(3) refl, of "encode_u64 (length (d_entries d))"] len(1)
    by (simp add: encode_table_def)
  ultimately show ?thesis by (simp add: read_table_def)
qed


section \<open>The whole catalog reads back\<close>

text \<open>
  A directory tree as the backup walks it, and the calls it makes on the writer. Every leaf is
  added with its attribute; a directory is started, filled and ended.
\<close>

datatype cat_tree = CDir "byte list" "cat_tree list" | CLeaf "byte list" attribute

fun emit :: "cat_tree \<Rightarrow> catalog_writer \<Rightarrow> string + catalog_writer"
  and emit_all :: "cat_tree list \<Rightarrow> catalog_writer \<Rightarrow> string + catalog_writer" where
  "emit (CLeaf name a) w = cw_add name a w"
| "emit (CDir name ts) w =
     (case emit_all ts (cw_start_directory name w) of Inl e \<Rightarrow> Inl e | Inr w' \<Rightarrow> cw_end_directory w')"
| "emit_all [] w = Inr w"
| "emit_all (t # ts) w = (case emit t w of Inl e \<Rightarrow> Inl e | Inr w' \<Rightarrow> emit_all ts w')"

text \<open>The bytes a tree adds to the buffer at a position, and the entry it leaves in its parent.\<close>

fun blocks :: "nat \<Rightarrow> cat_tree \<Rightarrow> byte list \<times> catalog_entry"
  and blocks_all :: "nat \<Rightarrow> cat_tree list \<Rightarrow> byte list \<times> catalog_entry list" where
  "blocks pos (CLeaf name a) = ([], \<lparr>e_name = name, e_attribute = a\<rparr>)"
| "blocks pos (CDir name ts) =
     (case blocks_all pos ts of (bs, es) \<Rightarrow>
        (bs @ encode_directory \<lparr>d_name = name, d_entries = es\<rparr> (pos + length bs),
         \<lparr>e_name = name, e_attribute = Directory (pos + length bs)\<rparr>))"
| "blocks_all pos [] = ([], [])"
| "blocks_all pos (t # ts) =
     (case blocks pos t of (b, e) \<Rightarrow>
       case blocks_all (pos + length b) ts of (bs, es) \<Rightarrow> (b @ bs, e # es))"

lemma emit_blocks:
  "cw_stack w = d # ds \<Longrightarrow> cw_pos w + length (fst (blocks (cw_pos w) t)) \<le> u64_max \<Longrightarrow>
     emit t w = Inr (w\<lparr>cw_out := cw_out w @ fst (blocks (cw_pos w) t),
       cw_pos := cw_pos w + length (fst (blocks (cw_pos w) t)),
       cw_stack := d\<lparr>d_entries := d_entries d @ [snd (blocks (cw_pos w) t)]\<rparr> # ds\<rparr>)"
  "cw_stack w = d # ds \<Longrightarrow> cw_pos w + length (fst (blocks_all (cw_pos w) ts)) \<le> u64_max \<Longrightarrow>
     emit_all ts w = Inr (w\<lparr>cw_out := cw_out w @ fst (blocks_all (cw_pos w) ts),
       cw_pos := cw_pos w + length (fst (blocks_all (cw_pos w) ts)),
       cw_stack := d\<lparr>d_entries := d_entries d @ snd (blocks_all (cw_pos w) ts)\<rparr> # ds\<rparr>)"
proof (induction t w and ts w arbitrary: d ds and d ds rule: emit_emit_all.induct)
  case (1 name a w)
  then show ?case by (simp add: cw_add_def)
next
  case (2 name ts w)
  then show ?case
    by (auto simp: cw_start_directory_def directory_new_def cw_end_directory_def cw_write_all_def
        cw_add_def Let_def wrapping_add_exact split: prod.splits)
next
  case (3 w)
  then show ?case by simp
next
  case (4 t ts w)
  then show ?case by (auto split: prod.splits)
qed


fun leaf_listing :: "byte list \<Rightarrow> attribute \<Rightarrow> archive_entry list" where
  "leaf_listing p (FileAttr sz mtime) = [file_entry p sz mtime]"
| "leaf_listing p Hardlink = [file_entry p 0 0]"
| "leaf_listing p Symlink = [symlink_entry p]"
| "leaf_listing p _ = []"

fun cat_listing :: "byte list \<Rightarrow> cat_tree \<Rightarrow> archive_entry list" where
  "cat_listing base (CLeaf name a) = leaf_listing (path_join base name) a"
| "cat_listing base (CDir name ts) =
     dir_entry (path_join base name) # concat (map (cat_listing (path_join base name)) ts)"

fun tree_ok :: "cat_tree \<Rightarrow> bool" where
  "tree_ok (CLeaf name a) \<longleftrightarrow> length name \<le> u64_max \<and>
     (case a of Directory _ \<Rightarrow> False | FileAttr sz mtime \<Rightarrow> sz \<le> u64_max \<and> is_i64 mtime | _ \<Rightarrow> True)"
| "tree_ok (CDir name ts) \<longleftrightarrow> length name \<le> u64_max \<and> length ts \<le> u64_max \<and> list_all tree_ok ts"

fun nodes :: "cat_tree \<Rightarrow> nat" where
  "nodes (CLeaf name a) = 1"
| "nodes (CDir name ts) = Suc (sum_list (map nodes ts))"

fun height_ok :: "nat \<Rightarrow> cat_tree \<Rightarrow> bool" where
  "height_ok left (CLeaf name a) \<longleftrightarrow> True"
| "height_ok 0 (CDir name ts) \<longleftrightarrow> False"
| "height_ok (Suc left) (CDir name ts) \<longleftrightarrow> list_all (height_ok left) ts"

lemma encode_u64_ne [simp]: "encode_u64 v \<noteq> []"
  by (subst encode_u64.simps) simp

lemma encode_directory_ne [simp]: "encode_directory d start \<noteq> []"
  by (simp add: encode_directory_def Let_def)

lemma blocks_entry_ok:
  assumes "tree_ok t" and "pos + length (fst (blocks pos t)) \<le> start" and "start \<le> u64_max"
  shows "entry_ok start (snd (blocks pos t))"
  using assms by (cases t) (auto simp: entry_ok_def split: prod.splits attribute.splits)

lemma blocks_all_entry_ok:
  "list_all tree_ok ts \<Longrightarrow> pos + length (fst (blocks_all pos ts)) \<le> start \<Longrightarrow> start \<le> u64_max \<Longrightarrow>
   list_all (entry_ok start) (snd (blocks_all pos ts)) \<and> length (snd (blocks_all pos ts)) = length ts"
proof (induction ts arbitrary: pos)
  case (Cons t ts)
  obtain b e where be: "blocks pos t = (b, e)" by force
  obtain bs es where bes: "blocks_all (pos + length b) ts = (bs, es)" by force
  have "entry_ok start e" using blocks_entry_ok [of t pos start] Cons.prems be bes by simp
  moreover have "list_all (entry_ok start) es \<and> length es = length ts"
    using Cons.IH [of "pos + length b"] Cons.prems be bes by simp
  ultimately show ?case using be bes by simp
qed simp

lemma listing_le_nodes: "length (cat_listing base t) \<le> nodes t"
proof (induction base t rule: cat_listing.induct)
  case (1 base name a)
  then show ?case by (cases a) auto
next
  case (2 base name ts)
  then have "length (concat (map (cat_listing (path_join base name)) ts)) \<le> sum_list (map nodes ts)"
    by (induction ts) (auto intro: add_mono)
  then show ?case by simp
qed

definition in_range :: "nat \<Rightarrow> byte list \<Rightarrow> nat set" where
  "in_range pos bs = {pos ..< pos + length bs}"

lemma walk_tree:
  "data = pre @ fst (blocks pos t) @ post \<Longrightarrow> length pre = pos \<Longrightarrow> length data \<le> u64_max \<Longrightarrow>
   tree_ok t \<Longrightarrow> height_ok left t \<Longrightarrow> length out + nodes t \<le> MAX_CATALOG_ENTRIES \<Longrightarrow>
   set visited \<inter> in_range pos (fst (blocks pos t)) = {} \<Longrightarrow>
   \<exists>visited'. set visited' \<subseteq> set visited \<union> in_range pos (fst (blocks pos t)) \<and>
     walk_table data left (raw_of (snd (blocks pos t)) # es) base (out, visited) =
     walk_table data left es base (out @ cat_listing base t, visited')"
  and walk_forest:
  "data = pre @ fst (blocks_all pos ts) @ post \<Longrightarrow> length pre = pos \<Longrightarrow> length data \<le> u64_max \<Longrightarrow>
   list_all tree_ok ts \<Longrightarrow> list_all (height_ok left) ts \<Longrightarrow>
   length out + sum_list (map nodes ts) \<le> MAX_CATALOG_ENTRIES \<Longrightarrow>
   set visited \<inter> in_range pos (fst (blocks_all pos ts)) = {} \<Longrightarrow>
   \<exists>visited'. set visited' \<subseteq> set visited \<union> in_range pos (fst (blocks_all pos ts)) \<and>
     walk_table data left (map raw_of (snd (blocks_all pos ts))) base (out, visited) =
     Inr (out @ concat (map (cat_listing base) ts), visited')"
proof (induction pos t and pos ts arbitrary: pre post left out visited base es and pre post left out visited base
    rule: blocks_blocks_all.induct)
  case (1 pos name a)
  then show ?case by (cases a) (auto simp: raw_of_def Let_def)
next
  case (2 pos name ts)
  obtain l where l: "left = Suc l" "list_all (height_ok l) ts"
    using "2.prems"(5) by (cases left) auto
  obtain bs cs where bc: "blocks_all pos ts = (bs, cs)" by force
  let ?start = "pos + length bs" and ?p = "path_join base name"
  let ?blk = "encode_directory \<lparr>d_name = name, d_entries = cs\<rparr> ?start"
  have blk: "blocks pos (CDir name ts) = (bs @ ?blk, \<lparr>e_name = name, e_attribute = Directory ?start\<rparr>)"
    by (simp add: bc)
  have data: "data = pre @ bs @ ?blk @ post" using "2.prems"(1) by (simp add: bc)
  have len: "?start \<le> u64_max" using "2.prems"(2,3) by (simp add: data)
  have ok: "list_all (entry_ok ?start) cs" "length cs = length ts"
    using blocks_all_entry_ok [of ts pos ?start] "2.prems"(4) len by (simp_all add: bc)
  have tab: "read_table data ?start = Inr (map raw_of cs)"
    using read_table_block [of data "pre @ bs" "\<lparr>d_name = name, d_entries = cs\<rparr>" ?start post]
      "2.prems"(2-4) ok by (simp add: data)
  have start: "?start \<in> in_range pos (bs @ ?blk)" by (simp add: in_range_def)
  have fresh: "?start \<notin> set visited" using "2.prems"(7) start by (auto simp: bc)
  have "set (?start # visited) \<inter> in_range pos bs = {}"
    using "2.prems"(7) by (auto simp: bc in_range_def)
  then obtain v where v: "set v \<subseteq> set (?start # visited) \<union> in_range pos bs"
    "walk_table data l (map raw_of cs) ?p (out @ [dir_entry ?p], ?start # visited) =
     Inr ((out @ [dir_entry ?p]) @ concat (map (cat_listing ?p) ts), v)"
    using "2.IH" [of pre "?blk @ post" l "out @ [dir_entry ?p]" "?start # visited" ?p] "2.prems"(2-4,6) l(2)
    by (auto simp: bc data)
  have "set v \<subseteq> set visited \<union> in_range pos (bs @ ?blk)"
    using v(1) start by (auto simp: in_range_def)
  moreover have "length out < MAX_CATALOG_ENTRIES" using "2.prems"(6) by simp
  ultimately show ?case
    using v(2) tab fresh l(1)
    by (intro exI [of _ v]) (simp add: blk raw_of_def Let_def del: blocks.simps)
next
  case (3 pos)
  then show ?case by (auto simp: in_range_def)
next
  case (4 pos t ts)
  obtain b e where be: "blocks pos t = (b, e)" by force
  obtain bs cs where bc: "blocks_all (pos + length b) ts = (bs, cs)" by force
  have all: "blocks_all pos (t # ts) = (b @ bs, e # cs)" by (simp add: be bc)
  have rng: "in_range pos (b @ bs) = in_range pos b \<union> in_range (pos + length b) bs"
    "in_range pos b \<inter> in_range (pos + length b) bs = {}"
    by (auto simp: in_range_def)
  have data: "data = pre @ b @ bs @ post" using "4.prems"(1) by (simp add: be bc)
  obtain v1 where v1: "set v1 \<subseteq> set visited \<union> in_range pos b"
    "walk_table data left (raw_of e # map raw_of cs) base (out, visited) =
     walk_table data left (map raw_of cs) base (out @ cat_listing base t, v1)"
    using "4.IH"(1) [of pre "bs @ post" left out visited "map raw_of cs" base] "4.prems"(2-7) rng
    by (auto simp: be all data simp del: blocks_all.simps)
  have "length (out @ cat_listing base t) + sum_list (map nodes ts) \<le> MAX_CATALOG_ENTRIES"
    using "4.prems"(6) listing_le_nodes [of base t] by simp
  moreover have "set v1 \<inter> in_range (pos + length b) bs = {}"
    using v1(1) "4.prems"(7) rng by (auto simp: all simp del: blocks_all.simps)
  ultimately obtain v2 where v2: "set v2 \<subseteq> set v1 \<union> in_range (pos + length b) bs"
    "walk_table data left (map raw_of cs) base (out @ cat_listing base t, v1) =
     Inr ((out @ cat_listing base t) @ concat (map (cat_listing base) ts), v2)"
    using "4.IH"(2) [OF be [symmetric], of "pre @ b" post left "out @ cat_listing base t" v1 base] "4.prems"(2-5)
    by (auto simp: be bc data)
  show ?case
    using v1 v2 rng by (intro exI [of _ v2]) (auto simp: all simp del: blocks_all.simps)
qed


text \<open>
  The root block: archives are its directories (entered without a name of their own), plain files
  keep their names, other entries are not listed.
\<close>

fun root_listing :: "cat_tree list \<Rightarrow> archive_entry list" where
  "root_listing [] = []"
| "root_listing (CDir name ts # rs) = concat (map (cat_listing []) ts) @ root_listing rs"
| "root_listing (CLeaf name (FileAttr sz mtime) # rs) = file_entry name sz mtime # root_listing rs"
| "root_listing (CLeaf name _ # rs) = root_listing rs"

definition write_catalog :: "cat_tree list \<Rightarrow> string + byte list" where
  "write_catalog ts = and_then (emit_all ts cw_new) cw_finish"

lemma root_listing_le_nodes: "length (root_listing ts) \<le> sum_list (map nodes ts)"
proof (induction ts rule: root_listing.induct)
  case (2 name ts rs)
  have "length (concat (map (cat_listing []) ts)) \<le> sum_list (map nodes ts)"
    by (induction ts) (auto intro: add_mono listing_le_nodes)
  with 2 show ?case by simp
qed auto

lemma walk_root_dir:
  assumes "data = pre @ fst (blocks pos (CDir name ts)) @ post" and "length pre = pos" and "length data \<le> u64_max"
    and "tree_ok (CDir name ts)" and "list_all (height_ok MAX_CATALOG_DEPTH) ts"
    and "length out + nodes (CDir name ts) \<le> MAX_CATALOG_ENTRIES"
    and "set visited \<inter> in_range pos (fst (blocks pos (CDir name ts))) = {}"
  shows "\<exists>v. set v \<subseteq> set visited \<union> in_range pos (fst (blocks pos (CDir name ts))) \<and>
    walk_root data (raw_of (snd (blocks pos (CDir name ts))) # es) (out, visited) =
    walk_root data es (out @ concat (map (cat_listing []) ts), v)"
proof -
  obtain bs cs where bc: "blocks_all pos ts = (bs, cs)" by force
  let ?start = "pos + length bs"
  let ?d = "\<lparr>d_name = name, d_entries = cs\<rparr>"
  have data: "data = pre @ bs @ encode_directory ?d ?start @ post" using assms(1) by (simp add: bc)
  have len: "?start \<le> u64_max" using assms(2,3) by (simp add: data)
  have ok: "list_all (entry_ok ?start) cs" "length cs = length ts"
    using blocks_all_entry_ok [of ts pos ?start] assms(4) len by (simp_all add: bc)
  have tab: "read_table data ?start = Inr (map raw_of cs)"
    using read_table_block [of data "pre @ bs" ?d ?start post] assms(2-4) ok by (simp add: data)
  have start: "?start \<in> in_range pos (bs @ encode_directory ?d ?start)" by (simp add: in_range_def)
  have "set (?start # visited) \<inter> in_range pos bs = {}"
    using assms(7) by (auto simp: bc in_range_def)
  then obtain v where v: "set v \<subseteq> set (?start # visited) \<union> in_range pos bs"
    "walk_table data MAX_CATALOG_DEPTH (map raw_of cs) [] (out, ?start # visited) =
     Inr (out @ concat (map (cat_listing []) ts), v)"
    using walk_forest [of data pre pos ts "encode_directory ?d ?start @ post" MAX_CATALOG_DEPTH out
        "?start # visited" "[]"] assms(2-6) by (auto simp: bc data)
  have "set v \<subseteq> set visited \<union> in_range pos (bs @ encode_directory ?d ?start)"
    using v(1) start by (auto simp: in_range_def)
  moreover have "?start \<notin> set visited" using assms(7) start by (auto simp: bc)
  ultimately show ?thesis using v(2) tab by (intro exI [of _ v]) (simp add: bc raw_of_def)
qed

lemma walk_root_blocks:
  assumes "data = pre @ fst (blocks_all pos ts) @ post" and "length pre = pos" and "length data \<le> u64_max"
    and "list_all tree_ok ts" and "list_all (height_ok (Suc MAX_CATALOG_DEPTH)) ts"
    and "length out + sum_list (map nodes ts) \<le> MAX_CATALOG_ENTRIES"
    and "set visited \<inter> in_range pos (fst (blocks_all pos ts)) = {}"
  shows "walk_root data (map raw_of (snd (blocks_all pos ts))) (out, visited) = Inr (out @ root_listing ts)"
  using assms
proof (induction ts arbitrary: pre pos out visited)
  case Nil
  then show ?case by simp
next
  case (Cons t ts)
  obtain b e where be: "blocks pos t = (b, e)" by force
  obtain bs cs where bc: "blocks_all (pos + length b) ts = (bs, cs)" by force
  have data: "data = pre @ b @ bs @ post" using Cons.prems(1) by (simp add: be bc)
  have rng: "in_range pos (b @ bs) = in_range pos b \<union> in_range (pos + length b) bs"
    "in_range pos b \<inter> in_range (pos + length b) bs = {}"
    by (auto simp: in_range_def)
  have rest: "walk_root data (map raw_of cs) (out', v) = Inr (out' @ root_listing ts)"
    if "length out' + sum_list (map nodes ts) \<le> MAX_CATALOG_ENTRIES" "set v \<inter> in_range (pos + length b) bs = {}"
    for out' v
    using Cons.IH [of "pre @ b" "pos + length b" out' v] Cons.prems(2-5) that by (simp add: bc data)
  show ?case
  proof (cases t)
    case (CLeaf name a)
    with Cons.prems(4,6,7) be bc rest show ?thesis by (cases a) auto
  next
    case (CDir name us)
    have sub: "length (concat (map (cat_listing []) us)) \<le> sum_list (map nodes us)"
      by (induction us) (auto intro: add_mono listing_le_nodes)
    have be': "blocks pos (CDir name us) = (b, e)" using be CDir by simp
    have "data = pre @ fst (blocks pos (CDir name us)) @ bs @ post" unfolding be' data by simp
    moreover have "tree_ok (CDir name us)" "list_all (height_ok MAX_CATALOG_DEPTH) us"
      "length out + nodes (CDir name us) \<le> MAX_CATALOG_ENTRIES"
      using Cons.prems(4-6) CDir by simp_all
    moreover have "set visited \<inter> in_range pos (fst (blocks pos (CDir name us))) = {}"
      using Cons.prems(7) rng(1) unfolding be' by (auto simp: be bc)
    ultimately have "\<exists>v. set v \<subseteq> set visited \<union> in_range pos b \<and>
       walk_root data (raw_of e # map raw_of cs) (out, visited) =
       walk_root data (map raw_of cs) (out @ concat (map (cat_listing []) us), v)"
      using walk_root_dir [of data pre pos name us "bs @ post" out visited "map raw_of cs", unfolded be' fst_conv snd_conv]
        Cons.prems(2,3) unfolding be' fst_conv by blast
    then obtain v where v: "set v \<subseteq> set visited \<union> in_range pos b"
      "walk_root data (raw_of e # map raw_of cs) (out, visited) =
       walk_root data (map raw_of cs) (out @ concat (map (cat_listing []) us), v)" by blast
    have raw: "map raw_of (snd (blocks_all pos (t # ts))) = raw_of e # map raw_of cs"
      by (simp add: be bc)
    have fresh: "set v \<inter> in_range (pos + length b) bs = {}"
      using v(1) Cons.prems(7) rng by (auto simp: be bc)
    have room: "length (out @ concat (map (cat_listing []) us)) + sum_list (map nodes ts) \<le> MAX_CATALOG_ENTRIES"
      using Cons.prems(6) sub CDir by simp
    show ?thesis unfolding raw v(2) rest [OF room fresh] by (simp add: CDir)
  qed
qed

text \<open>
  C15. Writing a catalog and parsing it gives the backup's contents: for every forest of directory
  trees at most 1024 levels deep with fewer than a hundred million entries, whatever the nesting
  and the names, the reader accepts the writer's output, never meets a block twice, and lists
  directories, files, hard links and symbolic links in order with their paths, sizes and times.
\<close>

theorem catalog_round_trip:
  assumes "write_catalog ts = Inr data" and "length data \<le> u64_max"
    and "list_all tree_ok ts" and "length ts \<le> u64_max" and "list_all (height_ok (Suc MAX_CATALOG_DEPTH)) ts"
    and "sum_list (map nodes ts) \<le> MAX_CATALOG_ENTRIES"
    and "length CATALOG_MAGIC + length (fst (blocks_all (length CATALOG_MAGIC) ts)) \<le> u64_max"
  shows "parse_catalog data = Inr (root_listing ts)"
proof -
  let ?m = "length CATALOG_MAGIC"
  obtain bs cs where bc: "blocks_all ?m ts = (bs, cs)" by force
  let ?start = "?m + length bs" and ?d = "\<lparr>d_name = [], d_entries = cs\<rparr>"
  let ?blk = "encode_directory ?d ?start"
  have "emit_all ts cw_new = Inr \<lparr>cw_out = CATALOG_MAGIC @ bs, cw_stack = [?d], cw_pos = ?start\<rparr>"
    using emit_blocks(2) [of cw_new "directory_new []" "[]" ts] assms(7)
    by (simp add: cw_new_def directory_new_def bc)
  then have data: "data = CATALOG_MAGIC @ bs @ ?blk @ to_le_bytes 8 ?start"
    using assms(1) by (simp add: write_catalog_def cw_finish_def cw_write_all_def Let_def)
  have start: "?start \<le> u64_max" using assms(7) by (simp add: bc)
  have ok: "list_all (entry_ok ?start) cs" "length cs = length ts"
    using blocks_all_entry_ok [OF assms(3), of ?m ?start] start by (simp_all add: bc)
  have tab: "read_table data ?start = Inr (map raw_of cs)"
    using read_table_block [of data "CATALOG_MAGIC @ bs" ?d ?start "to_le_bytes 8 ?start"] ok assms(2,4)
    by (simp add: data)
  have walk: "walk_root data (map raw_of cs) ([], [?start]) = Inr (root_listing ts)"
    using walk_root_blocks [of data CATALOG_MAGIC ?m ts "?blk @ to_le_bytes 8 ?start" "[]" "[?start]"] assms(2,3,5,6)
    by (auto simp: bc data in_range_def)
  have magic: "get_range data 0 ?m = Some CATALOG_MAGIC"
    using get_range_append [of "[]" 0 CATALOG_MAGIC ?m] by (simp add: data)
  have "checked_sub (length data) 8 = Some (length (CATALOG_MAGIC @ bs @ ?blk))"
    "get_from data (length (CATALOG_MAGIC @ bs @ ?blk)) = Some (to_le_bytes 8 ?start)"
    by (simp_all add: data checked_sub_def get_from_def)
  with magic tab walk start show ?thesis by (simp add: parse_catalog_def)
qed

definition sample_catalog :: "cat_tree list" where
  "sample_catalog = [CDir [120] [CDir [97] [CLeaf [98] (FileAttr 300 (- 5))], CLeaf [99] Symlink]]"

theorem catalog_round_trip_witness:
  "\<exists>data. write_catalog sample_catalog = Inr data \<and>
     parse_catalog data = Inr [dir_entry [97], file_entry [97, 47, 98] 300 (- 5), symlink_entry [99]]"
proof -
  note enc = encode_u64.simps encode_magnitude.simps encode_i64_def encode_directory_def encode_table_def
    encode_entry_def encode_attribute_def or_128 and_127 drop_bit_eq_div as_u64_def wrap_i64_def
  have b: "length (fst (blocks_all (length CATALOG_MAGIC) sample_catalog)) < 100"
    by (simp add: sample_catalog_def CATALOG_MAGIC_def enc Let_def)
  obtain data where data: "write_catalog sample_catalog = Inr data" "length data < 200"
    using emit_blocks(2) [of cw_new "directory_new []" "[]" sample_catalog] b
    by (auto simp: write_catalog_def cw_finish_def cw_write_all_def Let_def cw_new_def CATALOG_MAGIC_def
        directory_new_def u64_max_def sample_catalog_def enc)
  obtain k where k: "MAX_CATALOG_DEPTH = Suc k" by (metis MAX_CATALOG_DEPTH_def not0_implies_Suc zero_neq_numeral)
  have h: "list_all (height_ok (Suc MAX_CATALOG_DEPTH)) sample_catalog"
    unfolding k by (simp add: sample_catalog_def)
  have "parse_catalog data = Inr (root_listing sample_catalog)"
    using catalog_round_trip [OF data(1) _ _ _ h] data(2) b
    by (simp add: u64_max_def MAX_CATALOG_ENTRIES_def CATALOG_MAGIC_def)
      (simp add: sample_catalog_def is_i64_def u64_max_def)
  then show ?thesis using data by (simp add: sample_catalog_def path_join_def)
qed

end
