(* ===== verification/ChunkStore.thy ===== *)
theory ChunkStore
  imports Datablob
begin

text \<open>
  Uploading an archive to the backup server, \<^verbatim>\<open>pbs-client/src/writer.rs\<close>, and the index it leaves
  there, \<^verbatim>\<open>pbs-client/src/reader.rs\<close>. The content-defined chunker, the compressor, the checksum and the
  digest are packages and parameters here; the transport is a parameter too: a state and a function
  that answers a request with an error or a value and the next state. A task that produces messages
  and a task that consumes them run side by side, connected by a channel that keeps their order, so
  the model first computes the messages and then consumes them.
\<close>

type_synonym digest = "byte list"

section \<open>The producer\<close>

datatype chunk_message = Known digest nat | New encoded_blob

text \<open>
  \<^verbatim>\<open>upload_archive_named\<close>, producer: a chunk whose digest is known is only announced, another one is
  encoded and becomes known. An error of the chunker is passed on and ends the stream.
\<close>

fun produce ::
    "(byte list \<Rightarrow> digest) \<Rightarrow> (byte list \<Rightarrow> digest \<Rightarrow> encoded_blob) \<Rightarrow> digest set \<Rightarrow> (string + byte list) list \<Rightarrow>
     (string + chunk_message) list" where
  "produce sha256 encode known [] = []"
| "produce sha256 encode known (Inl err # chunks) = [Inl err]"
| "produce sha256 encode known (Inr data # chunks) =
     (let d = sha256 data
      in if d \<in> known then Inr (Known d (length data)) # produce sha256 encode known chunks
         else Inr (New (encode data d)) # produce sha256 encode (insert d known) chunks)"


section \<open>The consumer\<close>

datatype request =
    PostIndex string
  | PostChunk nat digest nat nat "byte list"
  | PutIndex nat "digest list" "nat list"
  | PostClose nat nat nat digest

definition INDEX_BATCH_SIZE :: nat where
  "INDEX_BATCH_SIZE = 256"

record upload_state =
  up_entries :: "(nat \<times> digest) list"
  up_digests :: "digest list"
  up_offsets :: "nat list"
  up_end :: nat

definition register_chunks ::
    "('t \<Rightarrow> request \<Rightarrow> pbs_error + (nat option \<times> 't)) \<Rightarrow> nat \<Rightarrow> upload_state \<Rightarrow> 't \<Rightarrow> pbs_error + (upload_state \<times> 't)" where
  "register_chunks send wid u t =
     and_then (send t (PutIndex wid (up_digests u) (up_offsets u))) (\<lambda>(_, t').
     Inr (u\<lparr>up_digests := [], up_offsets := []\<rparr>, t'))"

definition consume_message ::
    "('t \<Rightarrow> request \<Rightarrow> pbs_error + (nat option \<times> 't)) \<Rightarrow> nat \<Rightarrow> chunk_message \<Rightarrow> upload_state \<Rightarrow> 't \<Rightarrow>
     pbs_error + (upload_state \<times> 't)" where
  "consume_message send wid message u t =
     and_then
       (case message of
          Known d sz \<Rightarrow> Inr (d, wrapping_add (up_end u) sz, t)
        | New blob \<Rightarrow>
            and_then (send t (PostChunk wid (b_digest blob) (plaintext_size blob) (length (b_data blob)) (b_data blob)))
              (\<lambda>(_, t'). Inr (b_digest blob, wrapping_add (up_end u) (plaintext_size blob), t')))
       (\<lambda>(d, end_offset, t1).
          let u1 = \<lparr>up_entries = up_entries u @ [(end_offset, d)], up_digests = up_digests u @ [d],
                    up_offsets = up_offsets u @ [up_end u], up_end = end_offset\<rparr>
          in if INDEX_BATCH_SIZE \<le> length (up_digests u1) then register_chunks send wid u1 t1 else Inr (u1, t1))"

fun consume ::
    "('t \<Rightarrow> request \<Rightarrow> pbs_error + (nat option \<times> 't)) \<Rightarrow> nat \<Rightarrow> (string + chunk_message) list \<Rightarrow> upload_state \<Rightarrow> 't \<Rightarrow>
     pbs_error + (upload_state \<times> 't)" where
  "consume send wid [] u t =
     (if up_digests u \<noteq> [] then register_chunks send wid u t else Inr (u, t))"
| "consume send wid (Inl err # messages) u t = Inl (Transport err)"
| "consume send wid (Inr message # messages) u t =
     and_then (consume_message send wid message u t) (\<lambda>(u', t'). consume send wid messages u' t')"

definition index_csum :: "(byte list \<Rightarrow> digest) \<Rightarrow> (nat \<times> digest) list \<Rightarrow> digest" where
  "index_csum sha256 entries = sha256 (concat (map (\<lambda>(end_offset, d). to_le_bytes 8 end_offset @ d) entries))"

record file_info =
  fi_filename :: string
  fi_size :: nat
  fi_csum :: digest

definition upload_archive_named ::
    "(byte list \<Rightarrow> digest) \<Rightarrow> (byte list \<Rightarrow> digest \<Rightarrow> encoded_blob) \<Rightarrow> ('t \<Rightarrow> request \<Rightarrow> pbs_error + (nat option \<times> 't)) \<Rightarrow>
     string \<Rightarrow> (string + byte list) list \<Rightarrow> digest set \<Rightarrow> 't \<Rightarrow> pbs_error + ((file_info \<times> nat) \<times> 't)" where
  "upload_archive_named sha256 encode send name chunks known t =
     and_then (send t (PostIndex name)) (\<lambda>(reply, t1).
     and_then (ok_or (Decode ''dynamic_index did not return a wid'') reply) (\<lambda>wid.
     and_then (consume send wid (produce sha256 encode known chunks)
         \<lparr>up_entries = [], up_digests = [], up_offsets = [], up_end = 0\<rparr> t1) (\<lambda>(u, t2).
     let csum = index_csum sha256 (up_entries u)
     in and_then (send t2 (PostClose wid (length (up_entries u)) (up_end u) csum)) (\<lambda>(_, t3).
        Inr ((\<lparr>fi_filename = name, fi_size = up_end u, fi_csum = csum\<rparr>, up_end u), t3)))))"


section \<open>The index of an archive\<close>

definition DYNAMIC_INDEX_HEADER_SIZE :: nat where
  "DYNAMIC_INDEX_HEADER_SIZE = 4096"

definition DYNAMIC_INDEX_ENTRY_SIZE :: nat where
  "DYNAMIC_INDEX_ENTRY_SIZE = 40"

fun parse_entries :: "nat \<Rightarrow> byte list \<Rightarrow> pbs_error + (nat \<times> digest) list" where
  "parse_entries 0 raw = Inr []"
| "parse_entries (Suc k) raw =
     (let entry = take DYNAMIC_INDEX_ENTRY_SIZE raw
      in and_then (ok_or (Decode ''dynamic index entry too short'') (get_range entry 0 8)) (\<lambda>offset.
         and_then (ok_or (Decode ''dynamic index entry too short'') (get_range entry 8 DYNAMIC_INDEX_ENTRY_SIZE)) (\<lambda>d.
         and_then (parse_entries k (drop DYNAMIC_INDEX_ENTRY_SIZE raw)) (\<lambda>rest.
         Inr ((from_le_bytes offset, d) # rest)))))"

definition parse_dynamic_index_entries :: "byte list \<Rightarrow> pbs_error + (nat \<times> digest) list" where
  "parse_dynamic_index_entries data =
     and_then (ok_or (Decode ''dynamic index shorter than its header'') (get_from data DYNAMIC_INDEX_HEADER_SIZE)) (\<lambda>entries.
     if length entries mod DYNAMIC_INDEX_ENTRY_SIZE \<noteq> 0 then Inl (Decode ''dynamic index has a truncated entry'')
     else parse_entries (length entries div DYNAMIC_INDEX_ENTRY_SIZE) entries)"

definition parse_dynamic_index :: "byte list \<Rightarrow> pbs_error + digest list" where
  "parse_dynamic_index data = and_then (parse_dynamic_index_entries data) (\<lambda>es. Inr (map snd es))"



section \<open>What an upload sends\<close>

text \<open>A transport that accepts every request and keeps the list of them.\<close>

definition record_requests :: "nat \<Rightarrow> request list \<Rightarrow> request \<Rightarrow> pbs_error + (nat option \<times> request list)" where
  "record_requests wid t r = Inr (Some wid, t @ [r])"

fun starts :: "nat \<Rightarrow> byte list list \<Rightarrow> nat list" where
  "starts p [] = []"
| "starts p (c # cs) = p # starts (p + length c) cs"

fun ends :: "nat \<Rightarrow> byte list list \<Rightarrow> nat list" where
  "ends p [] = []"
| "ends p (c # cs) = (p + length c) # ends (p + length c) cs"

lemma length_starts [simp]: "length (starts p cs) = length cs" and length_ends [simp]: "length (ends p cs) = length cs"
  by (induction cs arbitrary: p) simp_all

fun registered :: "request list \<Rightarrow> (digest \<times> nat) list" where
  "registered [] = []"
| "registered (PutIndex w ds offs # rs) = zip ds offs @ registered rs"
| "registered (_ # rs) = registered rs"

fun posted :: "request list \<Rightarrow> (digest \<times> byte list) list" where
  "posted [] = []"
| "posted (PostChunk w d sz n raw # rs) = (d, raw) # posted rs"
| "posted (_ # rs) = posted rs"

text \<open>
  Every request carries the writer id, batches are neither empty nor larger than 256, and a chunk is
  registered only when the server knew it or it was sent before.
\<close>

fun in_order :: "nat \<Rightarrow> digest set \<Rightarrow> request list \<Rightarrow> bool" where
  "in_order wid K [] \<longleftrightarrow> True"
| "in_order wid K (PostIndex name # rs) \<longleftrightarrow> in_order wid K rs"
| "in_order wid K (PostChunk w d sz n raw # rs) \<longleftrightarrow> w = wid \<and> n = length raw \<and> in_order wid (insert d K) rs"
| "in_order wid K (PutIndex w ds offs # rs) \<longleftrightarrow> w = wid \<and> ds \<noteq> [] \<and> length ds \<le> 256 \<and> length offs = length ds \<and>
     set ds \<subseteq> K \<and> in_order wid K rs"
| "in_order wid K (PostClose w k sz csum # rs) \<longleftrightarrow> w = wid \<and> in_order wid K rs"

fun new_blobs :: "(byte list \<Rightarrow> digest) \<Rightarrow> (byte list \<Rightarrow> digest \<Rightarrow> encoded_blob) \<Rightarrow> digest set \<Rightarrow> byte list list \<Rightarrow> (digest \<times> byte list) list" where
  "new_blobs sha256 encode K [] = []"
| "new_blobs sha256 encode K (c # cs) =
     (if sha256 c \<in> K then new_blobs sha256 encode K cs
      else (sha256 c, b_data (encode c (sha256 c))) # new_blobs sha256 encode (insert (sha256 c) K) cs)"

lemma registered_append [simp]: "registered (rs @ qs) = registered rs @ registered qs"
  by (induction rs rule: registered.induct) auto

lemma posted_append [simp]: "posted (rs @ qs) = posted rs @ posted qs"
  by (induction rs rule: posted.induct) auto

lemma new_blobs_digests:
  "distinct (map fst (new_blobs sha256 encode K cs))"
  "set (map fst (new_blobs sha256 encode K cs)) = sha256 ` set cs - K"
  by (induction cs arbitrary: K) auto

text \<open>One message: what is sent for it and how the state changes.\<close>

definition pending_ok :: "digest set \<Rightarrow> upload_state \<Rightarrow> bool" where
  "pending_ok K u \<longleftrightarrow> length (up_digests u) < 256 \<and> length (up_offsets u) = length (up_digests u) \<and> set (up_digests u) \<subseteq> K"

definition advanced :: "digest \<Rightarrow> nat \<Rightarrow> upload_state \<Rightarrow> upload_state" where
  "advanced d sz u = \<lparr>up_entries = up_entries u @ [(up_end u + sz, d)], up_digests = up_digests u @ [d],
     up_offsets = up_offsets u @ [up_end u], up_end = up_end u + sz\<rparr>"

lemma consume_message_step:
  assumes "pending_ok K u" and "up_end u + sz \<le> u64_max"
    and "message = Known d sz \<and> d \<in> K \<and> post = [] \<or>
      (\<exists>blob. message = New blob \<and> b_digest blob = d \<and> plaintext_size blob = sz \<and>
         post = [PostChunk wid d sz (length (b_data blob)) (b_data blob)])"
  shows "\<exists>u' put. consume_message (record_requests wid) wid message u t = Inr (u', t @ post @ put) \<and>
    pending_ok (insert d K) u' \<and> up_entries u' = up_entries u @ [(up_end u + sz, d)] \<and> up_end u' = up_end u + sz \<and>
    in_order wid (insert d K) put \<and> posted put = [] \<and>
    registered put @ zip (up_digests u') (up_offsets u') = zip (up_digests u) (up_offsets u) @ [(d, up_end u)]"
proof -
  let ?u = "advanced d sz u"
  have c: "consume_message (record_requests wid) wid message u t =
      (if 256 \<le> length (up_digests ?u) then register_chunks (record_requests wid) wid ?u (t @ post) else Inr (?u, t @ post))"
    using assms(2,3)
    by (auto simp: consume_message_def record_requests_def advanced_def INDEX_BATCH_SIZE_def wrapping_add_exact Let_def)
  show ?thesis
  proof (cases "256 \<le> length (up_digests ?u)")
    case True
    let ?put = "[PutIndex wid (up_digests ?u) (up_offsets ?u)]"
    have "consume_message (record_requests wid) wid message u t = Inr (?u\<lparr>up_digests := [], up_offsets := []\<rparr>, t @ post @ ?put)"
      using c True by (simp add: register_chunks_def record_requests_def)
    then show ?thesis
      using assms(1) by (intro exI [of _ "?u\<lparr>up_digests := [], up_offsets := []\<rparr>"] exI [of _ ?put])
        (auto simp: pending_ok_def advanced_def)
  next
    case False
    with c have "consume_message (record_requests wid) wid message u t = Inr (?u, t @ post @ [])" by simp
    then show ?thesis
      using assms(1) False by (intro exI [of _ ?u] exI [of _ "[]"]) (auto simp: pending_ok_def advanced_def)
  qed
qed

lemma in_order_append:
  "in_order wid K (rs @ qs) \<longleftrightarrow> in_order wid K rs \<and> in_order wid (K \<union> fst ` set (posted rs)) qs"
  by (induction wid K rs rule: in_order.induct) auto

lemma consume_chunks:
  assumes "\<And>c d. b_digest (encode c d) = d \<and> plaintext_size (encode c d) = length c"
  shows "pending_ok K u \<Longrightarrow> up_end u + length (concat cs) \<le> u64_max \<Longrightarrow>
    \<exists>u' rs. consume (record_requests wid) wid (produce sha256 encode K (map Inr cs)) u t = Inr (u', t @ rs) \<and>
      up_entries u' = up_entries u @ zip (ends (up_end u) cs) (map sha256 cs) \<and> up_end u' = up_end u + length (concat cs) \<and>
      in_order wid K rs \<and> posted rs = new_blobs sha256 encode K cs \<and>
      registered rs = zip (up_digests u) (up_offsets u) @ zip (map sha256 cs) (starts (up_end u) cs)"
proof (induction cs arbitrary: K u t)
  case Nil
  show ?case
  proof (cases "up_digests u = []")
    case True
    with Nil show ?thesis by (intro exI [of _ u] exI [of _ "[]"]) (simp add: pending_ok_def)
  next
    case False
    let ?put = "[PutIndex wid (up_digests u) (up_offsets u)]"
    from False Nil show ?thesis
      by (intro exI [of _ "u\<lparr>up_digests := [], up_offsets := []\<rparr>"] exI [of _ ?put])
        (simp add: pending_ok_def register_chunks_def record_requests_def)
  qed
next
  case (Cons c cs)
  let ?d = "sha256 c"
  define message where "message = (if ?d \<in> K then Known ?d (length c) else New (encode c ?d))"
  define post where "post = (if ?d \<in> K then []
    else [PostChunk wid ?d (length c) (length (b_data (encode c ?d))) (b_data (encode c ?d))])"
  have "message = Known ?d (length c) \<and> ?d \<in> K \<and> post = [] \<or>
      (\<exists>blob. message = New blob \<and> b_digest blob = ?d \<and> plaintext_size blob = length c \<and>
         post = [PostChunk wid ?d (length c) (length (b_data blob)) (b_data blob)])"
    using assms by (auto simp: message_def post_def)
  then obtain u1 put where s1: "consume_message (record_requests wid) wid message u t = Inr (u1, t @ post @ put)"
    "pending_ok (insert ?d K) u1" "up_entries u1 = up_entries u @ [(up_end u + length c, ?d)]" "up_end u1 = up_end u + length c"
    "in_order wid (insert ?d K) put" "posted put = []"
    "registered put @ zip (up_digests u1) (up_offsets u1) = zip (up_digests u) (up_offsets u) @ [(?d, up_end u)]"
    using consume_message_step [OF Cons.prems(1), of "length c" message ?d post wid t] Cons.prems(2) by auto
  have "up_end u1 + length (concat cs) \<le> u64_max" using Cons.prems(2) s1(4) by simp
  from Cons.IH [OF s1(2) this, of "t @ post @ put"] obtain u2 rs where s2:
    "consume (record_requests wid) wid (produce sha256 encode (insert ?d K) (map Inr cs)) u1 (t @ post @ put) = Inr (u2, (t @ post @ put) @ rs)"
    "up_entries u2 = up_entries u1 @ zip (ends (up_end u1) cs) (map sha256 cs)" "up_end u2 = up_end u1 + length (concat cs)"
    "in_order wid (insert ?d K) rs" "posted rs = new_blobs sha256 encode (insert ?d K) cs"
    "registered rs = zip (up_digests u1) (up_offsets u1) @ zip (map sha256 cs) (starts (up_end u1) cs)"
    by blast
  have p: "produce sha256 encode K (map Inr (c # cs)) = Inr message # produce sha256 encode (insert ?d K) (map Inr cs)"
    by (simp add: message_def Let_def insert_absorb)
  have run: "consume (record_requests wid) wid (produce sha256 encode K (map Inr (c # cs))) u t = Inr (u2, t @ (post @ put @ rs))"
    unfolding p using s1(1) s2(1) by simp
  have "in_order wid K (post @ put @ rs)"
    using s1(5,6) s2(4) by (cases "?d \<in> K") (simp_all add: post_def in_order_append insert_absorb)
  moreover have "registered (post @ put @ rs) =
      zip (up_digests u) (up_offsets u) @ zip (map sha256 (c # cs)) (starts (up_end u) (c # cs))"
    using s1(4,7) s2(6) by (cases "?d \<in> K") (simp_all add: post_def)
  moreover have "posted (post @ put @ rs) = new_blobs sha256 encode K (c # cs)"
    using s1(6) s2(5) by (simp add: post_def insert_absorb)
  ultimately show ?case using run s1(3,4) s2(2,3) by (intro exI [of _ u2] exI [of _ "post @ put @ rs"]) simp
qed

lemma upload_archive_requests:
  assumes "\<And>c d. b_digest (encode c d) = d \<and> plaintext_size (encode c d) = length c"
    and "length (concat cs) \<le> u64_max" and "entries = zip (ends 0 cs) (map sha256 cs)"
  shows "\<exists>rs. upload_archive_named sha256 encode (record_requests wid) name (map Inr cs) known [] =
      Inr ((\<lparr>fi_filename = name, fi_size = length (concat cs), fi_csum = index_csum sha256 entries\<rparr>, length (concat cs)),
        PostIndex name # rs @ [PostClose wid (length cs) (length (concat cs)) (index_csum sha256 entries)]) \<and>
    registered rs = zip (map sha256 cs) (starts 0 cs) \<and> in_order wid known rs \<and>
    posted rs = new_blobs sha256 encode known cs \<and>
    distinct (map fst (posted rs)) \<and> set (map fst (posted rs)) = sha256 ` set cs - known"
proof -
  let ?u = "\<lparr>up_entries = [], up_digests = [], up_offsets = [], up_end = 0\<rparr>"
  have "pending_ok known ?u" "up_end ?u + length (concat cs) \<le> u64_max" using assms(2) by (simp_all add: pending_ok_def)
  from consume_chunks [OF assms(1) this, of wid sha256 "[PostIndex name]"] obtain u' rs where
    "consume (record_requests wid) wid (produce sha256 encode known (map Inr cs)) ?u [PostIndex name] = Inr (u', [PostIndex name] @ rs)"
    "up_entries u' = entries" "up_end u' = length (concat cs)"
    "in_order wid known rs" "posted rs = new_blobs sha256 encode known cs" "registered rs = zip (map sha256 cs) (starts 0 cs)"
    using assms(3) by auto
  then show ?thesis
    using new_blobs_digests [of sha256 encode known cs] assms(3)
    by (intro exI [of _ rs]) (auto simp: upload_archive_named_def record_requests_def Let_def)
qed

text \<open>
  C22. An upload registers the archive completely: with a server that accepts its requests, the digests
  of all chunks are registered once each and in order together with the offsets where the chunks
  start, in non-empty batches of at most 256; every chunk the server does not know is sent exactly
  once, encoded under its digest, and before it is registered; and the index is closed with the
  number of chunks, the size of the archive and the checksum over the end offsets and digests.
\<close>

theorem upload_registers_archive:
  assumes "\<And>c d. b_digest (encode c d) = d \<and> plaintext_size (encode c d) = length c"
    and "length (concat cs) \<le> u64_max" and "entries = zip (ends 0 cs) (map sha256 cs)"
  shows "\<exists>rs. upload_archive_named sha256 encode (record_requests wid) name (map Inr cs) known [] =
      Inr ((\<lparr>fi_filename = name, fi_size = length (concat cs), fi_csum = index_csum sha256 entries\<rparr>, length (concat cs)),
        PostIndex name # rs @ [PostClose wid (length cs) (length (concat cs)) (index_csum sha256 entries)]) \<and>
    registered rs = zip (map sha256 cs) (starts 0 cs) \<and> in_order wid known rs \<and>
    posted rs = new_blobs sha256 encode known cs \<and>
    distinct (map fst (posted rs)) \<and> set (map fst (posted rs)) = sha256 ` set cs - known"
  by (rule upload_archive_requests [OF assms])

theorem upload_registers_archive_witness:
  "\<exists>rs. upload_archive_named (\<lambda>c. c) (encode_blob_with_digest (\<lambda>_. None) (\<lambda>_. 0)) (record_requests 5) ''a''
       (map Inr [[1, 2], [3], [1, 2]]) {[3]} [] =
     Inr ((\<lparr>fi_filename = ''a'', fi_size = 5,
            fi_csum = index_csum (\<lambda>c. c) [(2, [1, 2]), (3, [3]), (5, [1, 2])]\<rparr>, 5),
       PostIndex ''a'' # rs @ [PostClose 5 3 5 (index_csum (\<lambda>c. c) [(2, [1, 2]), (3, [3]), (5, [1, 2])])]) \<and>
     registered rs = [([1, 2], 0), ([3], 2), ([1, 2], 3)] \<and> map fst (posted rs) = [[1, 2]]"
  using upload_registers_archive [of "encode_blob_with_digest (\<lambda>_. None) (\<lambda>_. 0)" "[[1, 2], [3], [1, 2]]"
      "[(2, [1, 2]), (3, [3]), (5, [1, 2])]" "\<lambda>c. c" 5 "''a''" "{[3]}"]
  by (auto simp: encode_blob_with_digest_def u64_max_def)


section \<open>Reading the index and the whole archive\<close>

lemma parse_entries_round_trip:
  "\<forall>(e, d) \<in> set es. e \<le> u64_max \<and> length d = 32 \<Longrightarrow>
     parse_entries (length es) (concat (map (\<lambda>(e, d). to_le_bytes 8 e @ d) es)) = Inr es"
proof (induction es)
  case (Cons x es)
  obtain e d where x: "x = (e, d)" by force
  have "get_range (to_le_bytes 8 e @ d) 0 8 = Some (to_le_bytes 8 e)" "get_range (to_le_bytes 8 e @ d) 8 40 = Some d"
    using Cons.prems x by (simp_all add: get_range_def)
  with Cons x show ?case by (simp add: DYNAMIC_INDEX_ENTRY_SIZE_def Let_def)
qed simp

definition index_bytes :: "(nat \<times> digest) list \<Rightarrow> byte list" where
  "index_bytes es = concat (map (\<lambda>(e, d). to_le_bytes 8 e @ d) es)"

lemma index_round_trip:
  assumes "\<forall>(e, d) \<in> set es. e \<le> u64_max \<and> length d = 32" and "length header = 4096"
  shows "parse_dynamic_index_entries (header @ index_bytes es) = Inr es"
proof -
  have "length (index_bytes es) = 40 * length es"
    using assms(1) unfolding index_bytes_def by (induction es) auto
  then show ?thesis
    using assms parse_entries_round_trip [OF assms(1)]
    by (simp add: parse_dynamic_index_entries_def get_from_def DYNAMIC_INDEX_HEADER_SIZE_def
        DYNAMIC_INDEX_ENTRY_SIZE_def index_bytes_def)
qed

lemma ends_bound: "e \<in> set (ends p cs) \<Longrightarrow> e \<le> p + length (concat cs)"
  by (induction cs arbitrary: p) fastforce+

text \<open>
  The reader side: a chunk is downloaded by its digest and decoded; reassembling writes the chunks in
  the order of the index, however many downloads are under way.
\<close>

definition download_chunk_plaintext ::
    "(digest \<Rightarrow> pbs_error + byte list) \<Rightarrow> (byte list \<Rightarrow> pbs_error + byte list) \<Rightarrow> digest \<Rightarrow> pbs_error + byte list" where
  "download_chunk_plaintext download decode d = and_then (download d) decode"

fun write_chunks ::
    "(digest \<Rightarrow> pbs_error + byte list) \<Rightarrow> (byte list \<Rightarrow> pbs_error + byte list) \<Rightarrow> digest list \<Rightarrow> byte list \<Rightarrow> nat \<Rightarrow>
     pbs_error + (byte list \<times> nat)" where
  "write_chunks download decode [] out progress = Inr (out, progress)"
| "write_chunks download decode (d # ds) out progress =
     and_then (download_chunk_plaintext download decode d) (\<lambda>plaintext.
     write_chunks download decode ds (out @ plaintext) (wrapping_add progress (length plaintext)))"

definition reassemble_archive ::
    "(digest \<Rightarrow> pbs_error + byte list) \<Rightarrow> (byte list \<Rightarrow> pbs_error + byte list) \<Rightarrow> (pbs_error + byte list) \<Rightarrow>
     byte list \<Rightarrow> nat \<Rightarrow> pbs_error + (byte list \<times> nat)" where
  "reassemble_archive download decode index_file out progress =
     and_then index_file (\<lambda>index.
     and_then (parse_dynamic_index index) (\<lambda>digests. write_chunks download decode digests out progress))"

text \<open>What a server holds after an upload: the posted blobs, and for a known digest a blob of its chunk.\<close>

definition keeps :: "(digest \<Rightarrow> pbs_error + byte list) \<Rightarrow> (byte list \<Rightarrow> pbs_error + byte list) \<Rightarrow> (byte list \<Rightarrow> digest) \<Rightarrow>
    digest set \<Rightarrow> byte list list \<Rightarrow> request list \<Rightarrow> bool" where
  "keeps download decode sha256 known cs rs \<longleftrightarrow>
     (\<forall>(d, raw) \<in> set (posted rs). download d = Inr raw) \<and>
     (\<forall>d \<in> known. \<exists>raw. download d = Inr raw \<and> (\<forall>c \<in> set cs. sha256 c = d \<longrightarrow> decode raw = Inr c))"

lemma keeps_chunks:
  assumes "keeps download decode sha256 known cs rs" and "posted rs = new_blobs sha256 encode known cs"
    and "inj_on sha256 (set cs)" and "\<And>c. c \<in> set cs \<Longrightarrow> decode (b_data (encode c (sha256 c))) = Inr c"
    and "c \<in> set cs"
  shows "download_chunk_plaintext download decode (sha256 c) = Inr c"
proof (cases "sha256 c \<in> known")
  case True
  with assms(1,5) show ?thesis by (fastforce simp: keeps_def download_chunk_plaintext_def)
next
  case False
  have blobs: "(d, raw) \<in> set (new_blobs sha256 encode K xs) \<Longrightarrow> \<exists>x \<in> set xs. d = sha256 x \<and> raw = b_data (encode x d)"
    for d raw K xs
    by (induction xs arbitrary: K) (auto split: if_splits)
  have "sha256 c \<in> set (map fst (posted rs))"
    using False assms(2,5) new_blobs_digests(2) [of sha256 encode known cs] by auto
  then obtain raw where raw: "(sha256 c, raw) \<in> set (posted rs)" by auto
  with blobs assms(2) obtain x where "x \<in> set cs" "sha256 c = sha256 x" "raw = b_data (encode x (sha256 c))" by metis
  with assms(3,5) have "raw = b_data (encode c (sha256 c))" by (metis inj_onD)
  with raw assms(1,4,5) show ?thesis by (force simp: keeps_def download_chunk_plaintext_def)
qed

lemma write_chunks_concat:
  assumes "\<And>c. c \<in> set cs \<Longrightarrow> download_chunk_plaintext download decode (sha256 c) = Inr c"
    and "progress + length (concat cs) \<le> u64_max"
  shows "write_chunks download decode (map sha256 cs) out progress = Inr (out @ concat cs, progress + length (concat cs))"
  using assms by (induction cs arbitrary: out progress) (simp_all add: wrapping_add_exact)

end
