(* ===== verification/Readers.thy ===== *)
theory Readers
  imports Bytes
begin

text \<open>
  Readers. A reader is a state and a function \<open>read s n\<close> that answers a call with a buffer of
  \<open>n\<close> bytes: an error, or the bytes it filled in (possibly fewer than \<open>n\<close>) and the next
  state. The locale \<^verbatim>\<open>reader\<close> states the contract of \<^verbatim>\<open>std::io::Read\<close> for a source that does not
  fail; the loops that consume readers (\<^verbatim>\<open>io::copy\<close>, \<^verbatim>\<open>read_exact\<close>) are proved correct once against
  it. The adapters of \<^verbatim>\<open>application/src/io\<close> (range, fixed size, counting) turn a reader into a
  reader; the in-memory slice is the interpretation everything rests on.
\<close>

section \<open>The contract\<close>

locale reader =
  fixes read :: "'s \<Rightarrow> nat \<Rightarrow> 'e + (byte list \<times> 's)"
    and content :: "'s \<Rightarrow> byte list"
    and live :: "'s \<Rightarrow> bool"
  assumes read_law: "live s \<Longrightarrow> \<exists>bs s'. read s n = Inr (bs, s') \<and> live s' \<and>
      content s = bs @ content s' \<and> length bs \<le> n \<and> (0 < n \<longrightarrow> content s \<noteq> [] \<longrightarrow> bs \<noteq> [])"


section \<open>Loops over a reader\<close>

datatype 'e io_failure = Failed 'e | InvalidInput | UnexpectedEof | Other string | OutOfFuel

text \<open>
  \<^verbatim>\<open>safe_write_all\<close> into a buffer: the count must not exceed the buffer that was handed to
  \<^verbatim>\<open>read\<close>.
\<close>

definition safe_write_all :: "byte list \<Rightarrow> byte list \<Rightarrow> nat \<Rightarrow> 'e io_failure + byte list" where
  "safe_write_all out buf start_bytes =
     (if length buf < start_bytes then Inl InvalidInput else Inr (out @ take start_bytes buf))"

text \<open>
  \<^verbatim>\<open>copy_shared\<close>. The buffer keeps its old bytes behind the ones just read, so what is handed to
  the writer is the whole buffer with the count. A reader that never ends exhausts the fuel.
\<close>

definition fill :: "byte list \<Rightarrow> byte list \<Rightarrow> byte list" where
  "fill buf bs = bs @ drop (length bs) buf"

fun copy_shared ::
    "nat \<Rightarrow> ('s \<Rightarrow> nat \<Rightarrow> 'e + (byte list \<times> 's)) \<Rightarrow> byte list \<Rightarrow> 's \<Rightarrow> byte list \<Rightarrow>
     'e io_failure + (byte list \<times> 's)" where
  "copy_shared 0 read buf s out = Inl OutOfFuel"
| "copy_shared (Suc fuel) read buf s out =
     (case read s (length buf) of
        Inl e \<Rightarrow> Inl (Failed e)
      | Inr (bs, s') \<Rightarrow>
          if bs = [] then Inr (out, s')
          else case safe_write_all out (fill buf bs) (length bs) of
                 Inl e \<Rightarrow> Inl e
               | Inr out' \<Rightarrow> copy_shared fuel read (fill buf bs) s' out')"

definition BUFFER_SIZE :: nat where
  "BUFFER_SIZE = 32 * 1024"

definition copy ::
    "nat \<Rightarrow> ('s \<Rightarrow> nat \<Rightarrow> 'e + (byte list \<times> 's)) \<Rightarrow> 's \<Rightarrow> byte list \<Rightarrow> 'e io_failure + (byte list \<times> 's)" where
  "copy fuel read s out = copy_shared fuel read (replicate BUFFER_SIZE 0) s out"

text \<open>\<^verbatim>\<open>Read::read_exact\<close> of the standard library.\<close>

function read_exact ::
    "('s \<Rightarrow> nat \<Rightarrow> 'e + (byte list \<times> 's)) \<Rightarrow> 's \<Rightarrow> nat \<Rightarrow> 'e io_failure + (byte list \<times> 's)" where
  "read_exact read s n =
     (if n = 0 then Inr ([], s)
      else case read s n of
             Inl e \<Rightarrow> Inl (Failed e)
           | Inr (bs, s') \<Rightarrow>
               if bs = [] then Inl UnexpectedEof
               else case read_exact read s' (n - length bs) of
                      Inl e \<Rightarrow> Inl e
                    | Inr (rest, s'') \<Rightarrow> Inr (bs @ rest, s''))"
  by pat_completeness auto
termination
  by (relation "measure (\<lambda>(read, s, n). n)") (auto simp: length_greater_0_conv [symmetric] simp del: length_greater_0_conv)

declare read_exact.simps [simp del]

context reader
begin

text \<open>Copying yields everything the reader has, whatever the sizes of its answers.\<close>

lemma copy_shared_all:
  assumes "live s" and "length (content s) < fuel" and "0 < length buf"
  shows "\<exists>s'. copy_shared fuel read buf s out = Inr (out @ content s, s') \<and> live s' \<and> content s' = []"
  using assms
proof (induction fuel arbitrary: s buf out)
  case (Suc fuel)
  obtain bs s' where r: "read s (length buf) = Inr (bs, s')" "live s'" "content s = bs @ content s'"
    "length bs \<le> length buf" "0 < length buf \<longrightarrow> content s \<noteq> [] \<longrightarrow> bs \<noteq> []"
    using read_law [OF Suc.prems(1), of "length buf"] by blast
  show ?case
  proof (cases "bs = []")
    case True
    with r Suc.prems(3) show ?thesis by auto
  next
    case False
    have w: "(safe_write_all out (fill buf bs) (length bs) :: 'e io_failure + byte list) = Inr (out @ bs)"
      using r(4) by (simp add: safe_write_all_def fill_def)
    have "length (content s') < fuel" using r(3) False Suc.prems(2) by (cases bs) auto
    moreover have "0 < length (fill buf bs)" using False by (cases bs) (simp_all add: fill_def)
    ultimately obtain s'' where "copy_shared fuel read (fill buf bs) s' (out @ bs) = Inr ((out @ bs) @ content s', s'')"
      "live s''" "content s'' = []"
      using Suc.IH [OF r(2), of "fill buf bs" "out @ bs"] by blast
    with r(1,3) False w show ?thesis by simp
  qed
qed simp

lemma copy_all:
  assumes "live s" and "length (content s) < fuel"
  shows "\<exists>s'. copy fuel read s out = Inr (out @ content s, s') \<and> live s' \<and> content s' = []"
  using copy_shared_all [OF assms, of "replicate BUFFER_SIZE 0" out] by (simp add: copy_def BUFFER_SIZE_def)

text \<open>Reading an exact amount returns that many bytes or reports the end of the data.\<close>

lemma read_exact_law:
  assumes "live s"
  shows "if n \<le> length (content s)
    then \<exists>s'. read_exact read s n = Inr (take n (content s), s') \<and> live s' \<and> content s' = drop n (content s)
    else read_exact read s n = Inl UnexpectedEof"
  using assms
proof (induction n arbitrary: s rule: less_induct)
  case (less n)
  show ?case
  proof (cases "n = 0")
    case True
    with less.prems show ?thesis by (simp add: read_exact.simps)
  next
    case False
    obtain bs s' where r: "read s n = Inr (bs, s')" "live s'" "content s = bs @ content s'"
      "length bs \<le> n" "0 < n \<longrightarrow> content s \<noteq> [] \<longrightarrow> bs \<noteq> []"
      using read_law [OF less.prems, of n] by blast
    show ?thesis
    proof (cases "bs = []")
      case True
      with r False show ?thesis by (auto simp: read_exact.simps [of read s n])
    next
      case ne: False
      then have "n - length bs < n" using False by (cases bs) auto
      from less.IH [OF this r(2)] show ?thesis
        using r False ne by (auto simp: read_exact.simps [of read s n] split: if_splits)
    qed
  qed
qed

end


section \<open>Byte slices\<close>

definition read_slice :: "byte list \<Rightarrow> nat \<Rightarrow> 'e + (byte list \<times> byte list)" where
  "read_slice data n = Inr (take n data, drop n data)"

interpretation slice: reader read_slice "\<lambda>data. data" "\<lambda>_. True"
  by unfold_locales (auto simp: read_slice_def)



section \<open>Ranges\<close>

datatype bound = Included nat | Excluded nat | Unbounded

text \<open>\<^verbatim>\<open>resolve_range\<close> of \<^verbatim>\<open>range_reader.rs\<close>: both ends of the result are included.\<close>

definition resolve_range :: "bound \<times> bound \<Rightarrow> nat \<Rightarrow> 'e io_failure + (nat \<times> nat)" where
  "resolve_range rng len =
     and_then (ok_or InvalidInput (checked_sub len 1)) (\<lambda>last.
     and_then (case fst rng of
         Included start \<Rightarrow> Inr start
       | Excluded start \<Rightarrow> ok_or InvalidInput (checked_add start 1)
       | Unbounded \<Rightarrow> Inr 0) (\<lambda>start.
     and_then (case snd rng of
         Included end_pos \<Rightarrow> Inr (min end_pos last)
       | Excluded end_pos \<Rightarrow> map_sum id (\<lambda>e. min e last) (ok_or InvalidInput (checked_sub end_pos 1))
       | Unbounded \<Rightarrow> Inr last) (\<lambda>end_pos.
     if end_pos < start then Inl InvalidInput else Inr (start, end_pos))))"

text \<open>\<^verbatim>\<open>resolve_range\<close> and \<^verbatim>\<open>get_slice\<close> of \<^verbatim>\<open>io/mod.rs\<close>: the end of the result is excluded.\<close>

definition resolve_slice_range :: "bound \<times> bound \<Rightarrow> nat \<Rightarrow> 'e io_failure + (nat \<times> nat)" where
  "resolve_slice_range rng len =
     (let start = (case fst rng of
            Included n \<Rightarrow> n | Excluded n \<Rightarrow> saturating_add n 1 | Unbounded \<Rightarrow> 0);
          end_pos = (case snd rng of
            Included n \<Rightarrow> saturating_add n 1 | Excluded n \<Rightarrow> n | Unbounded \<Rightarrow> len)
      in if end_pos < start then Inl InvalidInput
         else if len < end_pos then Inl InvalidInput
         else Inr (start, end_pos))"

definition get_slice :: "'a list \<Rightarrow> bound \<times> bound \<Rightarrow> 'e io_failure + 'a list" where
  "get_slice xs rng =
     and_then (resolve_slice_range rng (length xs)) (\<lambda>(start, end_pos).
     Inr (take (end_pos - start) (drop start xs)))"

record 's range_reader =
  rr_inner :: 's
  rr_start :: nat
  rr_end :: nat
  rr_pos :: nat

definition range_new ::
    "('s \<Rightarrow> nat \<Rightarrow> 'e + 's) \<Rightarrow> 's \<Rightarrow> bound \<times> bound \<Rightarrow> nat \<Rightarrow> 'e io_failure + 's range_reader" where
  "range_new seek inner rng len =
     and_then (resolve_range rng len) (\<lambda>(start, end_pos).
     (case seek inner start of
        Inl e \<Rightarrow> Inl (Failed e)
      | Inr inner' \<Rightarrow> Inr \<lparr>rr_inner = inner', rr_start = start, rr_end = end_pos, rr_pos = start\<rparr>))"

definition range_len :: "'s range_reader \<Rightarrow> nat" where
  "range_len r = rr_end r - rr_start r + 1"

definition range_read ::
    "('s \<Rightarrow> nat \<Rightarrow> 'e + (byte list \<times> 's)) \<Rightarrow> 's range_reader \<Rightarrow> nat \<Rightarrow> 'e + (byte list \<times> 's range_reader)" where
  "range_read read r n =
     (if rr_end r < rr_pos r then Inr ([], r)
      else
        let remaining = rr_end r - rr_pos r + 1; to_read = min remaining n
        in case read (rr_inner r) to_read of
             Inl e \<Rightarrow> Inl e
           | Inr (bs, inner') \<Rightarrow> Inr (bs, r\<lparr>rr_inner := inner', rr_pos := rr_pos r + length bs\<rparr>))"

definition range_content :: "('s \<Rightarrow> byte list) \<Rightarrow> 's range_reader \<Rightarrow> byte list" where
  "range_content content r = take (rr_end r + 1 - rr_pos r) (content (rr_inner r))"

section \<open>Fixed sizes\<close>

record 's fixed_reader =
  fr_inner :: 's
  fr_size :: nat
  fr_bytes_read :: nat

definition fixed_new :: "'s \<Rightarrow> nat \<Rightarrow> 's fixed_reader" where
  "fixed_new inner sz = \<lparr>fr_inner = inner, fr_size = sz, fr_bytes_read = 0\<rparr>"

definition fixed_read ::
    "('s \<Rightarrow> nat \<Rightarrow> 'e + (byte list \<times> 's)) \<Rightarrow> 's fixed_reader \<Rightarrow> nat \<Rightarrow> 'e + (byte list \<times> 's fixed_reader)" where
  "fixed_read read r n =
     (if fr_size r \<le> fr_bytes_read r then Inr ([], r)
      else
        let remaining = fr_size r - fr_bytes_read r; to_read = min n remaining
        in case read (fr_inner r) to_read of
             Inl e \<Rightarrow> Inl e
           | Inr (bs, inner') \<Rightarrow>
               if bs = []
               then Inr (replicate to_read 0, r\<lparr>fr_inner := inner', fr_bytes_read := fr_bytes_read r + to_read\<rparr>)
               else Inr (bs, r\<lparr>fr_inner := inner', fr_bytes_read := fr_bytes_read r + length bs\<rparr>))"

definition pad :: "nat \<Rightarrow> byte list \<Rightarrow> byte list" where
  "pad n bs = take n bs @ replicate (n - length bs) 0"

definition fixed_content :: "('s \<Rightarrow> byte list) \<Rightarrow> 's fixed_reader \<Rightarrow> byte list" where
  "fixed_content content r = pad (fr_size r - fr_bytes_read r) (content (fr_inner r))"

section \<open>Counting\<close>

record 's counting_reader =
  cr_inner :: 's
  cr_bytes_read :: nat

definition counting_read ::
    "('s \<Rightarrow> nat \<Rightarrow> 'e + (byte list \<times> 's)) \<Rightarrow> 's counting_reader \<Rightarrow> nat \<Rightarrow> 'e + (byte list \<times> 's counting_reader)" where
  "counting_read read r n =
     (case read (cr_inner r) n of
        Inl e \<Rightarrow> Inl e
      | Inr (bs, inner') \<Rightarrow>
          Inr (bs, r\<lparr>cr_inner := inner', cr_bytes_read := wrapping_add (cr_bytes_read r) (length bs)\<rparr>))"


section \<open>The adapters are readers\<close>

lemma pad_append: "bs \<noteq> [] \<Longrightarrow> length bs \<le> n \<Longrightarrow> pad n (bs @ cs) = bs @ pad (n - length bs) cs"
  by (simp add: pad_def)

lemma pad_Nil [simp]: "pad n [] = replicate n 0"
  by (simp add: pad_def)

lemma pad_0 [simp]: "pad 0 bs = []"
  by (simp add: pad_def)

lemma length_pad [simp]: "length (pad n bs) = n"
  by (simp add: pad_def min_def)

context reader
begin

lemma range_reader: "reader (range_read read) (range_content content) (\<lambda>r. live (rr_inner r))"
proof
  fix r :: "'s range_reader" and n
  assume live: "live (rr_inner r)"
  let ?m = "min (rr_end r - rr_pos r + 1) n"
  obtain bs s' where rd: "read (rr_inner r) ?m = Inr (bs, s')" "live s'" "content (rr_inner r) = bs @ content s'"
    "length bs \<le> ?m" "0 < ?m \<longrightarrow> content (rr_inner r) \<noteq> [] \<longrightarrow> bs \<noteq> []"
    using read_law [OF live, of ?m] by (elim exE conjE) (rule that)
  show "\<exists>bs r'. range_read read r n = Inr (bs, r') \<and> live (rr_inner r') \<and>
      range_content content r = bs @ range_content content r' \<and> length bs \<le> n \<and>
      (0 < n \<longrightarrow> range_content content r \<noteq> [] \<longrightarrow> bs \<noteq> [])"
  proof (cases "rr_end r < rr_pos r")
    case True
    with live show ?thesis by (simp add: range_read_def range_content_def)
  next
    case False
    let ?r = "r\<lparr>rr_inner := s', rr_pos := rr_pos r + length bs\<rparr>"
    have le: "length bs \<le> Suc (rr_end r) - rr_pos r" using rd(4) False by (simp add: Suc_diff_le)
    have "range_content content r = bs @ range_content content ?r"
      using le by (simp add: range_content_def rd(3) diff_diff_add)
    moreover have "range_read read r n = Inr (bs, ?r)"
      using False rd(1) by (simp add: range_read_def Let_def)
    moreover have "0 < n \<longrightarrow> range_content content r \<noteq> [] \<longrightarrow> bs \<noteq> []"
      using rd(5) False unfolding range_content_def by fastforce
    ultimately show ?thesis using rd(2,4) by (intro exI [of _ bs] exI [of _ ?r]) simp
  qed
qed

lemma fixed_reader: "reader (fixed_read read) (fixed_content content) (\<lambda>r. live (fr_inner r))"
proof
  fix r :: "'s fixed_reader" and n
  assume live: "live (fr_inner r)"
  let ?rem = "fr_size r - fr_bytes_read r"
  let ?m = "min n ?rem"
  obtain bs s' where rd: "read (fr_inner r) ?m = Inr (bs, s')" "live s'" "content (fr_inner r) = bs @ content s'"
    "length bs \<le> ?m" "0 < ?m \<longrightarrow> content (fr_inner r) \<noteq> [] \<longrightarrow> bs \<noteq> []"
    using read_law [OF live, of ?m] by (elim exE conjE) (rule that)
  show "\<exists>bs r'. fixed_read read r n = Inr (bs, r') \<and> live (fr_inner r') \<and>
      fixed_content content r = bs @ fixed_content content r' \<and> length bs \<le> n \<and>
      (0 < n \<longrightarrow> fixed_content content r \<noteq> [] \<longrightarrow> bs \<noteq> [])"
  proof (cases "fr_size r \<le> fr_bytes_read r")
    case True
    with live show ?thesis by (simp add: fixed_read_def fixed_content_def)
  next
    case False
    show ?thesis
    proof (cases "bs = []")
      case True
      let ?r = "r\<lparr>fr_inner := s', fr_bytes_read := fr_bytes_read r + ?m\<rparr>"
      have "replicate ?rem 0 = replicate ?m 0 @ replicate (?rem - ?m) (0::byte)"
        by (simp flip: replicate_add)
      then have "fixed_content content r = replicate ?m 0 @ fixed_content content ?r"
        using rd(3,5) True by (cases "?m = 0") (simp_all add: fixed_content_def diff_diff_add)
      moreover have "fixed_read read r n = Inr (replicate ?m 0, ?r)"
        using False True by (simp add: fixed_read_def Let_def rd(1))
      ultimately show ?thesis
        using rd(2) False by (intro exI [of _ "replicate ?m 0"] exI [of _ ?r]) simp
    next
      case ne: False
      let ?r = "r\<lparr>fr_inner := s', fr_bytes_read := fr_bytes_read r + length bs\<rparr>"
      have "fixed_content content r = bs @ fixed_content content ?r"
        using rd(3,4) ne by (simp add: fixed_content_def pad_append diff_diff_add)
      moreover have "fixed_read read r n = Inr (bs, ?r)"
        using False ne by (simp add: fixed_read_def Let_def rd(1))
      ultimately show ?thesis using rd(2,4) ne by (intro exI [of _ bs] exI [of _ ?r]) simp
    qed
  qed
qed

lemma counting_reader: "reader (counting_read read) (\<lambda>r. content (cr_inner r)) (\<lambda>r. live (cr_inner r))"
proof
  fix r :: "'s counting_reader" and n
  assume "live (cr_inner r)"
  from read_law [OF this, of n]
  show "\<exists>bs r'. counting_read read r n = Inr (bs, r') \<and> live (cr_inner r') \<and>
      content (cr_inner r) = bs @ content (cr_inner r') \<and> length bs \<le> n \<and>
      (0 < n \<longrightarrow> content (cr_inner r) \<noteq> [] \<longrightarrow> bs \<noteq> [])"
    by (auto simp: counting_read_def)
qed

end

interpretation slice_range: reader "range_read read_slice" "range_content (\<lambda>data. data)" "\<lambda>_. True"
  by (rule slice.range_reader)

interpretation slice_fixed: reader "fixed_read read_slice" "fixed_content (\<lambda>data. data)" "\<lambda>_. True"
  by (rule slice.fixed_reader)

interpretation slice_counting: reader "counting_read read_slice" "\<lambda>r. cr_inner r" "\<lambda>_. True"
  by (rule slice.counting_reader)

interpretation range_counting: reader "counting_read (range_read read_slice)"
    "\<lambda>r. range_content (\<lambda>data. data) (cr_inner r)" "\<lambda>_. True"
  by (rule slice_range.counting_reader)



section \<open>What is copied\<close>

text \<open>Seeking in memory: the cursor of a slice is what is left of it.\<close>

definition seek_slice :: "byte list \<Rightarrow> nat \<Rightarrow> 'e + byte list" where
  "seek_slice data pos = Inr (drop pos data)"

definition in_bounds :: "bound \<times> bound \<Rightarrow> nat \<Rightarrow> bool" where
  "in_bounds rng i \<longleftrightarrow>
     (case fst rng of Included a \<Rightarrow> a \<le> i | Excluded a \<Rightarrow> a < i | Unbounded \<Rightarrow> True) \<and>
     (case snd rng of Included b \<Rightarrow> i \<le> b | Excluded b \<Rightarrow> i < b | Unbounded \<Rightarrow> True)"

lemma resolve_range_spec:
  assumes "len \<le> u64_max"
  shows "(case resolve_range rng len of
      Inr (start, end_pos) \<Rightarrow> start \<le> end_pos \<and> end_pos < len \<and>
        (\<forall>i < len. in_bounds rng i \<longleftrightarrow> start \<le> i \<and> i \<le> end_pos)
    | Inl _ \<Rightarrow> \<forall>i < len. \<not> in_bounds rng i)"
proof (cases "len = 0")
  case True
  then show ?thesis by (simp add: resolve_range_def checked_sub_def)
next
  case False
  then obtain last where last: "len = Suc last" by (cases len) auto
  obtain lo hi where rng: "rng = (lo, hi)" by force
  show ?thesis
    using assms
    by (cases lo; cases hi)
      (auto simp: rng last resolve_range_def checked_sub_def checked_add_def in_bounds_def not_less_eq_eq
        Suc_le_eq less_Suc_eq_le)
qed

text \<open>
  A range reader serves exactly the requested range: for a file of known length, constructing it
  succeeds exactly when some byte of the file lies in the range, and copying from it then yields
  precisely the bytes of the file whose offsets are within the bounds, in order, in whatever
  portions they are read. The announced length is the number of these bytes.
\<close>

lemma range_reader_serves_range:
  assumes "length data \<le> u64_max" and "length data < fuel"
  shows "case (range_new seek_slice data rng (length data) :: 'e io_failure + _) of
      Inl _ \<Rightarrow> \<forall>i < length data. \<not> in_bounds rng i
    | Inr r \<Rightarrow> range_len r = length (filter (in_bounds rng) [0..<length data]) \<and>
        (\<exists>r'. copy fuel (range_read (read_slice :: _ \<Rightarrow> _ \<Rightarrow> 'e + _)) r out =
           Inr (out @ map (\<lambda>i. data ! i) (filter (in_bounds rng) [0..<length data]), r'))"
proof (cases "resolve_range rng (length data) :: 'e io_failure + (nat \<times> nat)")
  case (Inl e)
  then show ?thesis using resolve_range_spec [OF assms(1), of rng, where 'a = 'e] by (simp add: range_new_def)
next
  case (Inr se)
  obtain start end_pos where se: "se = (start, end_pos)" by force
  have spec: "start \<le> end_pos" "end_pos < length data"
    "\<And>i. i < length data \<Longrightarrow> in_bounds rng i \<longleftrightarrow> start \<le> i \<and> i \<le> end_pos"
    using resolve_range_spec [OF assms(1), of rng, where 'a = 'e] Inr se by auto
  let ?r = "\<lparr>rr_inner = drop start data, rr_start = start, rr_end = end_pos, rr_pos = start\<rparr>"
  have new: "(range_new seek_slice data rng (length data) :: 'e io_failure + _) = Inr ?r"
    using Inr se by (simp add: range_new_def seek_slice_def)
  have "[0..<length data] = [0..<start] @ [start..<length data]"
    using spec(1,2) upt_add_eq_append [of 0 start "length data - start"] by simp
  moreover have "[start..<length data] = [start..<Suc end_pos] @ [Suc end_pos..<length data]"
    using spec(1,2) by (intro nth_equalityI) (auto simp: nth_append simp del: upt_Suc)
  moreover have "filter (in_bounds rng) [0..<start] = []" "filter (in_bounds rng) [start..<Suc end_pos] = [start..<Suc end_pos]"
    "filter (in_bounds rng) [Suc end_pos..<length data] = []"
    using spec by (auto simp: filter_empty_conv intro!: filter_True)
  ultimately have idx: "filter (in_bounds rng) [0..<length data] = [start..<Suc end_pos]" by simp
  have bytes: "range_content (\<lambda>data. data) ?r = map (\<lambda>i. data ! i) [start..<Suc end_pos]"
    using spec(1,2) by (intro nth_equalityI) (auto simp: range_content_def simp del: upt_Suc)
  have "length (range_content (\<lambda>data. data) ?r) < fuel"
    using assms(2) by (simp add: range_content_def)
  from slice_range.copy_all [OF TrueI this, of out, where 'a = 'e] new idx bytes spec(1,2) show ?thesis
    by (auto simp: range_len_def Suc_diff_le simp del: upt_Suc)
qed

text \<open>
  A fixed-size reader always delivers the announced number of bytes, as an archive entry whose
  size was written in advance needs: copying from it yields exactly that many, the source's own
  bytes first, cut off or followed by zeros as necessary.
\<close>

lemma fixed_reader_serves_size:
  assumes "sz < fuel"
  shows "\<exists>r'. copy fuel (fixed_read read_slice) (fixed_new data sz) out =
    Inr (out @ take sz data @ replicate (sz - length data) 0, r')"
proof -
  have "fixed_content (\<lambda>data. data) (fixed_new data sz) = take sz data @ replicate (sz - length data) 0"
    by (simp add: fixed_content_def fixed_new_def pad_def)
  moreover from this have "length (fixed_content (\<lambda>data. data) (fixed_new data sz)) < fuel"
    using assms by (simp add: min_def)
  ultimately show ?thesis using slice_fixed.copy_all [OF TrueI, of "fixed_new data sz" fuel out] by auto
qed

end
