(* ===== verification/PxarFormat.thy ===== *)
theory PxarFormat
  imports Readers
begin

text \<open>
  The archive format of the backup client: the constants, headers and table items of
  \<^verbatim>\<open>pxar/format.rs\<close> and the metadata of \<^verbatim>\<open>pxar/mod.rs\<close>. A directory ends with a goodbye table, the
  items of its entries ordered as an implicit binary search tree by the hash of their names;
  \<open>bst_copy\<close> computes that order from the sorted items and \<open>bst_search_by\<close> searches it. The
  lemmas of the second half relate the two: a table laid out by the first is searched correctly by
  the second.
\<close>

section \<open>Constants and records\<close>

definition HEADER_SIZE :: nat where "HEADER_SIZE = 16"
definition GOODBYE_ITEM_SIZE :: nat where "GOODBYE_ITEM_SIZE = 24"
definition STAT_SIZE :: nat where "STAT_SIZE = 40"
definition MAX_FILENAME_LEN :: nat where "MAX_FILENAME_LEN = 256"
definition MAX_SYMLINK_LEN :: nat where "MAX_SYMLINK_LEN = 4096"
definition MAX_DATA_LEN :: nat where "MAX_DATA_LEN = 64 * 1024"
definition PXAR_FORMAT_VERSION :: nat where "PXAR_FORMAT_VERSION = 0x730f6c75df16a40d"
definition PXAR_ENTRY :: nat where "PXAR_ENTRY = 0xd5956474e588acef"
definition PXAR_FILENAME :: nat where "PXAR_FILENAME = 0x16701121063917b3"
definition PXAR_SYMLINK :: nat where "PXAR_SYMLINK = 0x27f971e7dbf5dc5f"
definition PXAR_PAYLOAD :: nat where "PXAR_PAYLOAD = 0x28147a1b0b7c1a25"
definition PXAR_GOODBYE :: nat where "PXAR_GOODBYE = 0x2fec4fa642d5731d"
definition PXAR_GOODBYE_TAIL_MARKER :: nat where "PXAR_GOODBYE_TAIL_MARKER = 0xef5eed5b753e1555"
definition PXAR_HASH_KEY_1 :: nat where "PXAR_HASH_KEY_1 = 0x83ac3f1cfbb450db"
definition PXAR_HASH_KEY_2 :: nat where "PXAR_HASH_KEY_2 = 0xaa4f1b6879369fbd"
definition IFMT :: nat where "IFMT = 0xf000"
definition IFREG :: nat where "IFREG = 0x8000"
definition IFDIR :: nat where "IFDIR = 0x4000"

lemmas pxar_types = PXAR_FORMAT_VERSION_def PXAR_ENTRY_def PXAR_FILENAME_def PXAR_SYMLINK_def
  PXAR_PAYLOAD_def PXAR_GOODBYE_def PXAR_GOODBYE_TAIL_MARKER_def
lemmas pxar_sizes = HEADER_SIZE_def GOODBYE_ITEM_SIZE_def STAT_SIZE_def MAX_FILENAME_LEN_def
  MAX_SYMLINK_LEN_def MAX_DATA_LEN_def

record header =
  htype :: nat
  full_size :: nat

definition content_size :: "header \<Rightarrow> 'e io_failure + nat" where
  "content_size h =
     ok_or (Other ''pxar item header smaller than the header itself'') (checked_sub (full_size h) HEADER_SIZE)"

record goodbye_item =
  g_hash :: nat
  g_offset :: nat
  g_size :: nat

definition default_item :: goodbye_item where
  "default_item = \<lparr>g_hash = 0, g_offset = 0, g_size = 0\<rparr>"

definition item_to_le_bytes :: "goodbye_item \<Rightarrow> byte list" where
  "item_to_le_bytes g = to_le_bytes 8 (g_hash g) @ to_le_bytes 8 (g_offset g) @ to_le_bytes 8 (g_size g)"

definition read_u64 :: "byte list option \<Rightarrow> 'e io_failure + nat" where
  "read_u64 bytes =
     (case bytes of
        None \<Rightarrow> Inl (Other ''pxar: truncated u64 field'')
      | Some bs \<Rightarrow> if length bs = 8 then Inr (from_le_bytes bs) else Inl (Other ''pxar: truncated u64 field''))"

definition item_from_le_bytes :: "byte list \<Rightarrow> 'e io_failure + goodbye_item" where
  "item_from_le_bytes buf =
     and_then (read_u64 (get_range buf 0 8)) (\<lambda>h.
     and_then (read_u64 (get_range buf 8 16)) (\<lambda>off.
     and_then (read_u64 (get_range buf 16 24)) (\<lambda>sz.
     Inr \<lparr>g_hash = h, g_offset = off, g_size = sz\<rparr>)))"

text \<open>The keyed hash function is that of the \<^verbatim>\<open>siphasher\<close> package and a parameter of the model.\<close>

definition hash_filename :: "(nat \<Rightarrow> nat \<Rightarrow> byte list \<Rightarrow> nat) \<Rightarrow> byte list \<Rightarrow> nat" where
  "hash_filename sip name = sip PXAR_HASH_KEY_1 PXAR_HASH_KEY_2 name"

definition validate_filename :: "byte list \<Rightarrow> 'e io_failure + unit" where
  "validate_filename name =
     (if name = [] then Inl (Other ''pxar: empty file name'')
      else if 47 \<in> set name then Inl (Other ''pxar: file name contains a slash'')
      else if name = [46] \<or> name = [46, 46] then Inl (Other ''pxar: file name is . or ..'')
      else Inr ())"


section \<open>Metadata\<close>

record statx_timestamp =
  secs :: int
  nanos :: nat

record stat =
  st_mode :: nat
  st_flags :: nat
  st_uid :: nat
  st_gid :: nat
  st_mtime :: statx_timestamp

definition stat_file_type :: "stat \<Rightarrow> nat" where
  "stat_file_type st = st_mode st AND IFMT"

definition stat_is_dir :: "stat \<Rightarrow> bool" where
  "stat_is_dir st \<longleftrightarrow> stat_file_type st = IFDIR"

text \<open>The builders: a mask of 64 bits is complemented by exclusive or.\<close>

definition builder :: "nat \<Rightarrow> stat" where
  "builder mode = \<lparr>st_mode = mode, st_flags = 0, st_uid = 0, st_gid = 0, st_mtime = \<lparr>secs = 0, nanos = 0\<rparr>\<rparr>"

definition dir_builder :: "nat \<Rightarrow> stat" where
  "dir_builder mode = builder (IFDIR OR (mode AND (u64_max XOR IFMT)))"

definition file_builder :: "nat \<Rightarrow> stat" where
  "file_builder mode = builder (IFREG OR (mode AND (u64_max XOR IFMT)))"

definition mtime_unix :: "nat \<times> nat \<Rightarrow> stat \<Rightarrow> stat" where
  "mtime_unix d st = st\<lparr>st_mtime := \<lparr>secs = as_i64 (fst d), nanos = snd d\<rparr>\<rparr>"

datatype entry_kind = EDirectory | EFile nat "nat option" | ESymlink "byte list"

text \<open>The target of a symbolic link without its terminating zero.\<close>

definition symlink_as_os_str :: "byte list \<Rightarrow> byte list" where
  "symlink_as_os_str data = take (length data - 1) data"

record entry =
  e_path :: "byte list"
  e_metadata :: stat
  e_kind :: entry_kind

definition is_pxar_header :: "byte list \<Rightarrow> bool" where
  "is_pxar_header hdr =
     (case get_range hdr 0 8 of
        None \<Rightarrow> False
      | Some bs \<Rightarrow> from_le_bytes bs = PXAR_ENTRY \<or> from_le_bytes bs = PXAR_FORMAT_VERSION)"


section \<open>The implicit search tree\<close>

text \<open>
  \<^verbatim>\<open>bst_copy\<close> calls its argument with pairs of a source and a destination index; the model returns
  the list of these calls in order.
\<close>

fun ilog2 :: "nat \<Rightarrow> nat" where
  "ilog2 n = (if n < 2 then 0 else Suc (ilog2 (n div 2)))"

declare ilog2.simps [simp del]

definition pivot :: "nat \<Rightarrow> nat \<Rightarrow> nat" where
  "pivot n e = (let p = 2 ^ e; t = p + p div 2 - 1 in if t < n then p - 1 else p - 1 - (t - n))"

lemma pivot_less: "0 < n \<Longrightarrow> pivot n e < n"
  by (cases e) (auto simp: pivot_def Let_def)

function bst_copy_inner :: "nat \<Rightarrow> nat \<Rightarrow> nat \<Rightarrow> nat \<Rightarrow> (nat \<times> nat) list" where
  "bst_copy_inner n off e i =
     (let m = pivot n e
      in (off + m, i) #
         (if 0 < m then bst_copy_inner m off (e - 1) (i * 2 + 1) else []) @
         (if m + 1 < n then bst_copy_inner (n - m - 1) (off + m + 1) (e - 1) (i * 2 + 2) else []))"
  by pat_completeness auto
termination
proof (relation "measure (\<lambda>(n, off, e, i). n)", goal_cases)
  case (2 n off e i m)
  then show ?case by (cases "n = 0") (auto simp: pivot_less pivot_def Let_def split: if_splits)
qed auto

declare bst_copy_inner.simps [simp del]

definition bst_copy :: "nat \<Rightarrow> (nat \<times> nat) list" where
  "bst_copy n = (if n = 0 then [] else bst_copy_inner n 0 (ilog2 n) 0)"

function bst_search_by :: "('a \<Rightarrow> ordering) \<Rightarrow> 'a list \<Rightarrow> nat \<Rightarrow> nat \<Rightarrow> nat option" where
  "bst_search_by compare tree i skip =
     (if length tree \<le> i then None
      else case compare (tree ! i) of
             Less \<Rightarrow> bst_search_by compare tree (2 * i + 1) skip
           | Greater \<Rightarrow> bst_search_by compare tree (2 * i + 2) skip
           | Equal \<Rightarrow>
               if skip = 0 then Some i
               else case bst_search_by compare tree (2 * i + 1) (skip - 1) of
                      Some j \<Rightarrow> Some j
                    | None \<Rightarrow> bst_search_by compare tree (2 * i + 2) (skip - 1))"
  by pat_completeness auto
termination
  by (relation "measure (\<lambda>(compare, tree, i, skip). length tree - i)") auto

declare bst_search_by.simps [simp del]

lemma bst_search_here: "i < length tree \<Longrightarrow> f (tree ! i) = Equal \<Longrightarrow> bst_search_by f tree i 0 = Some i"
  by (simp add: bst_search_by.simps)


section \<open>The layout is a search tree\<close>

text \<open>
  The positions of a table of \<open>N\<close> items form a complete binary tree. Node \<open>i\<close> is the \<open>q\<close>-th of level
  \<open>d\<close>, and the subtree below it, \<open>e\<close> levels above the last row of the table, has a size \<open>n\<close> that the
  filled part of the last row determines.
\<close>

definition fits :: "nat \<Rightarrow> nat \<Rightarrow> nat \<Rightarrow> nat \<Rightarrow> bool" where
  "fits N n e i \<longleftrightarrow>
     (\<exists>d q R. Suc i = 2 ^ d + q \<and> q < 2 ^ d \<and> Suc N = 2 ^ (d + e) + R \<and> 0 < R \<and> R \<le> 2 ^ (d + e) \<and>
        Suc n = 2 ^ e + min (2 ^ e) (R - q * 2 ^ e))"

lemma ilog2_bounds: "0 < n \<Longrightarrow> 2 ^ ilog2 n \<le> n \<and> n < 2 * 2 ^ ilog2 n"
proof (induction n rule: ilog2.induct)
  case (1 n)
  then show ?case by (cases "n < 2") (auto simp: ilog2.simps [of n])
qed

lemma fits_root: "0 < n \<Longrightarrow> fits n n (ilog2 n) 0"
  using ilog2_bounds [of n] unfolding fits_def
  by (intro exI [of _ 0] exI [of _ "Suc n - 2 ^ ilog2 n"]) auto

lemma fits_leaf:
  assumes "fits N n 0 i" and "0 < n"
  shows "n = 1" "pivot n 0 = 0" "i < N" "N \<le> 2 * i + 1"
proof -
  obtain d q R where f: "Suc i = 2 ^ d + q" "q < 2 ^ d" "Suc N = 2 ^ d + R" "0 < R" "R \<le> 2 ^ d"
    "Suc n = 1 + min 1 (R - q)"
    using assms(1) unfolding fits_def by auto
  then show "n = 1" "i < N" "N \<le> 2 * i + 1" using assms(2) by auto
  then show "pivot n 0 = 0" by (simp add: pivot_def)
qed

lemma pivot_cases:
  assumes "Suc n = 2 * P + min (2 * P) x" and "P = 2 ^ e"
  shows "Suc (pivot n (Suc e)) = P + min P x" "Suc (n - pivot n (Suc e) - 1) = P + min P (x - P)"
proof -
  have "0 < P" using assms(2) by simp
  with assms show "Suc (pivot n (Suc e)) = P + min P x" "Suc (n - pivot n (Suc e) - 1) = P + min P (x - P)"
    by (auto simp: pivot_def Let_def min_def split: if_splits)
qed

lemma fits_node:
  assumes "fits N n (Suc e) i" and "0 < n"
  shows "fits N (pivot n (Suc e)) e (i * 2 + 1)" "fits N (n - pivot n (Suc e) - 1) e (i * 2 + 2)" "i < N"
proof -
  obtain d q R where f: "Suc i = 2 ^ d + q" "q < 2 ^ d" "Suc N = 2 ^ (Suc d + e) + R" "0 < R"
    "R \<le> 2 ^ (Suc d + e)" "Suc n = 2 * 2 ^ e + min (2 * 2 ^ e) (R - q * (2 * 2 ^ e))"
    using assms(1) unfolding fits_def by auto
  note m = pivot_cases [OF f(6) refl]
  have l: "R - q * (2 * 2 ^ e) = R - (2 * q) * 2 ^ e" by (simp add: mult.assoc mult.left_commute)
  have r: "R - q * (2 * 2 ^ e) - 2 ^ e = R - (2 * q + 1) * 2 ^ e" by (simp add: algebra_simps)
  show "fits N (pivot n (Suc e)) e (i * 2 + 1)"
    unfolding fits_def using f m(1) l by (intro exI [of _ "Suc d"] exI [of _ "2 * q"] exI [of _ R]) auto
  show "fits N (n - pivot n (Suc e) - 1) e (i * 2 + 2)"
    unfolding fits_def using f m(2) r by (intro exI [of _ "Suc d"] exI [of _ "2 * q + 1"] exI [of _ R]) auto
  have "(2::nat) ^ d * 2 \<le> 2 ^ (Suc d + e)" by (simp add: power_add)
  then show "i < N" using f by linarith
qed

text \<open>A subtree is empty exactly when its root lies outside the table.\<close>

lemma fits_empty: "fits N 0 e i \<Longrightarrow> N \<le> i"
proof (cases e)
  case (Suc k)
  assume "fits N 0 e i"
  then obtain x where "Suc 0 = 2 * 2 ^ k + x" unfolding fits_def Suc by auto
  then show ?thesis by (metis even_Suc even_add dvd_triv_left add_is_1 mult_eq_1_iff numeral_eq_one_iff
        semiring_norm(85) mult_eq_0_iff power_eq_0_iff zero_neq_numeral)
qed (auto simp: fits_def)

lemma fits_nonempty: "fits N n e i \<Longrightarrow> 0 < n \<Longrightarrow> i < N"
  by (cases e) (auto dest: fits_leaf fits_node)

definition subcalls :: "nat \<Rightarrow> nat \<Rightarrow> nat \<Rightarrow> nat \<Rightarrow> (nat \<times> nat) list" where
  "subcalls n off e i = (if n = 0 then [] else bst_copy_inner n off e i)"

lemma subcalls_leaf: "fits N n 0 i \<Longrightarrow> 0 < n \<Longrightarrow> subcalls n off 0 i = [(off, i)]"
  using fits_leaf(1,2) [of N n i] by (simp add: subcalls_def bst_copy_inner.simps [of "Suc 0" off 0 i])

lemma subcalls_node:
  "0 < n \<Longrightarrow> subcalls n off (Suc e) i =
     (off + pivot n (Suc e), i) # subcalls (pivot n (Suc e)) off e (i * 2 + 1) @
     subcalls (n - pivot n (Suc e) - 1) (off + pivot n (Suc e) + 1) e (i * 2 + 2)"
  by (auto simp: subcalls_def Let_def bst_copy_inner.simps [of n off "Suc e" i])

lemma bst_copy_subcalls: "bst_copy n = subcalls n 0 (ilog2 n) 0"
  by (simp add: bst_copy_def subcalls_def)

text \<open>The sources are the positions of the segment, each once.\<close>

lemma subcalls_sources:
  "fits N n e i \<Longrightarrow> set (map fst (subcalls n off e i)) = {off..<off + n} \<and> length (subcalls n off e i) = n"
proof (induction e arbitrary: n off i)
  case 0
  then show ?case
    by (cases "n = 0") (simp_all add: subcalls_leaf fits_leaf(1) [OF 0] subcalls_def [of 0])
next
  case (Suc e)
  show ?case
  proof (cases "n = 0")
    case False
    let ?m = "pivot n (Suc e)"
    have m: "?m < n" using False by (simp add: pivot_less)
    note IH = Suc.IH [OF fits_node(1) [OF Suc.prems], of off] Suc.IH [OF fits_node(2) [OF Suc.prems], of "off + ?m + 1"]
    have "{off..<off + n} = insert (off + ?m) ({off..<off + ?m} \<union> {off + ?m + 1..<off + ?m + 1 + (n - ?m - 1)})"
      using m by auto
    with IH False m show ?thesis by (simp add: subcalls_node)
  qed (simp add: subcalls_def)
qed

text \<open>The destinations are nodes of the subtree, inside the table and pairwise distinct.\<close>

definition below :: "nat \<Rightarrow> nat \<Rightarrow> bool" where
  "below i j \<longleftrightarrow> (\<exists>k. Suc j div 2 ^ k = Suc i)"

lemma below_child: "below (i * 2 + 1) j \<or> below (i * 2 + 2) j \<Longrightarrow> below i j \<and> i < j"
proof -
  assume "below (i * 2 + 1) j \<or> below (i * 2 + 2) j"
  then obtain k where k: "Suc j div 2 ^ k = i * 2 + 2 \<or> Suc j div 2 ^ k = i * 2 + 3"
    unfolding below_def by (auto simp: numeral_3_eq_3)
  then have "Suc j div 2 ^ k div 2 = Suc i" by auto
  then have "Suc j div 2 ^ Suc k = Suc i" by (metis div_mult2_eq power_Suc2)
  moreover have "i < j" using k div_le_dividend [of "Suc j" "2 ^ k"] by linarith
  ultimately show ?thesis unfolding below_def by blast
qed

lemma below_disjoint: "below (i * 2 + 1) j \<Longrightarrow> below (i * 2 + 2) j \<Longrightarrow> False"
proof -
  assume "below (i * 2 + 1) j" "below (i * 2 + 2) j"
  then obtain k l where k: "Suc j div 2 ^ k = i * 2 + 2" and l: "Suc j div 2 ^ l = i * 2 + 3"
    unfolding below_def by (auto simp: numeral_3_eq_3)
  have step: "x div 2 ^ b \<le> x div 2 ^ a div 2" if "a < b" for a b x :: nat
  proof -
    have "x div 2 ^ b \<le> x div 2 ^ Suc a" using that power_increasing [of "Suc a" b "2::nat"]
      by (intro div_le_mono2) (simp_all add: Suc_leI)
    then show ?thesis by (metis div_mult2_eq power_Suc2)
  qed
  from step [of k l "Suc j"] step [of l k "Suc j"] k l show False
    by (cases k l rule: linorder_cases) auto
qed

lemma subcalls_destinations:
  "fits N n e i \<Longrightarrow> (\<forall>j \<in> set (map snd (subcalls n off e i)). j < N \<and> below i j) \<and>
     distinct (map snd (subcalls n off e i))"
proof (induction e arbitrary: n off i)
  case 0
  then show ?case
    by (cases "n = 0") (auto simp: subcalls_leaf [OF 0] fits_leaf(3) [OF 0] subcalls_def [of 0] below_def intro: exI [of _ 0])
next
  case (Suc e)
  show ?case
  proof (cases "n = 0")
    case False
    let ?m = "pivot n (Suc e)"
    define L where "L = map snd (subcalls ?m off e (i * 2 + 1))"
    define R where "R = map snd (subcalls (n - ?m - 1) (off + ?m + 1) e (i * 2 + 2))"
    have "0 < n" using False by simp
    then have IH: "\<forall>j \<in> set L. j < N \<and> below (i * 2 + 1) j" "distinct L"
      "\<forall>j \<in> set R. j < N \<and> below (i * 2 + 2) j" "distinct R"
      using Suc.IH [OF fits_node(1) [OF Suc.prems]] Suc.IH [OF fits_node(2) [OF Suc.prems]]
      unfolding L_def R_def by auto
    have kids: "\<forall>j \<in> set L \<union> set R. j < N \<and> below i j \<and> i < j" using IH below_child by blast
    moreover have "below i i" unfolding below_def by (intro exI [of _ 0]) simp
    moreover have "i \<notin> set L" "i \<notin> set R" using kids by auto
    moreover have "set L \<inter> set R = {}" using IH below_disjoint by blast
    moreover have "map snd (subcalls n off (Suc e) i) = i # L @ R"
      using \<open>0 < n\<close> by (simp add: subcalls_node L_def R_def)
    ultimately show ?thesis using IH(2,4) fits_node(3) [OF Suc.prems \<open>0 < n\<close>] by auto
  qed (simp add: subcalls_def)
qed

text \<open>Searching a subtree finds a position of the segment whose key is the one sought, or there is none.\<close>

lemma search_subcalls:
  assumes "fits N n e i" and "length tree = N" and "sorted ks" and "off + n \<le> length ks"
    and "\<forall>(s, j) \<in> set (subcalls n off e i). key (tree ! j) = ks ! s"
  shows "case bst_search_by (\<lambda>x. cmp h (key x)) tree i 0 of
      Some j \<Rightarrow> \<exists>s. (s, j) \<in> set (subcalls n off e i) \<and> ks ! s = h
    | None \<Rightarrow> \<forall>s. off \<le> s \<and> s < off + n \<longrightarrow> ks ! s \<noteq> h"
  using assms
proof (induction e arbitrary: n off i)
  case 0
  show ?case
  proof (cases "n = 0")
    case True
    with fits_empty 0 show ?thesis by (auto simp: bst_search_by.simps)
  next
    case False
    note l = fits_leaf [OF 0(1)] and c = subcalls_leaf [OF 0(1), of off]
    have "bst_search_by (\<lambda>x. cmp h (key x)) tree (2 * i + 1) 0 = None"
      "bst_search_by (\<lambda>x. cmp h (key x)) tree (2 * i + 2) 0 = None"
      using l False 0(2) by (subst bst_search_by.simps; simp)+
    moreover have "key (tree ! i) = ks ! off" using 0(5) c False by simp
    ultimately show ?thesis
      using l c False 0(2) by (auto simp: bst_search_by.simps [of _ tree i] le_less_Suc_eq split: ordering.splits)
  qed
next
  case (Suc e)
  show ?case
  proof (cases "n = 0")
    case True
    with fits_empty Suc.prems(1,2) show ?thesis by (auto simp: bst_search_by.simps)
  next
    case False
    let ?m = "pivot n (Suc e)" and ?f = "\<lambda>x. cmp h (key x)"
    have m: "?m < n" using False by (simp add: pivot_less)
    note c = subcalls_node [of n off e i] and f = fits_node [OF Suc.prems(1)]
    have here: "key (tree ! i) = ks ! (off + ?m)" "i < length tree"
      using Suc.prems(2,5) c f(3) False by simp_all
    have low: "ks ! s \<le> ks ! (off + ?m)" if "s \<le> off + ?m" for s
      using that sorted_nth_mono [OF Suc.prems(3)] m Suc.prems(4) by simp
    have high: "ks ! (off + ?m) \<le> ks ! s" if "off + ?m \<le> s" "s < off + n" for s
      using that sorted_nth_mono [OF Suc.prems(3)] Suc.prems(4) by simp
    show ?thesis
    proof (cases "cmp h (key (tree ! i))")
      case Equal
      then have "bst_search_by ?f tree i 0 = Some i" using here(2)
        unfolding bst_search_by.simps [of ?f tree i] by (simp del: cmp_simps)
      moreover have "(off + ?m, i) \<in> set (subcalls n off (Suc e) i)" using c False by simp
      ultimately show ?thesis using Equal here(1) by (simp, metis)
    next
      case Less
      then have "h < ks ! (off + ?m)" using here by simp
      then have out: "ks ! s \<noteq> h" if "off + ?m \<le> s" "s < off + n" for s using high [OF that] by auto
      have "bst_search_by ?f tree i 0 = bst_search_by ?f tree (i * 2 + 1) 0"
        using Less here(2) by (simp add: bst_search_by.simps [of ?f tree i] mult.commute del: cmp_simps)
      moreover have "case bst_search_by ?f tree (i * 2 + 1) 0 of
          Some j \<Rightarrow> \<exists>s. (s, j) \<in> set (subcalls ?m off e (i * 2 + 1)) \<and> ks ! s = h
        | None \<Rightarrow> \<forall>s. off \<le> s \<and> s < off + ?m \<longrightarrow> ks ! s \<noteq> h"
        using Suc.prems(4,5) c False m by (intro Suc.IH f(1) Suc.prems(2,3)) auto
      ultimately show ?thesis
        using c False out by (auto split: option.splits) (metis linorder_not_le)
    next
      case Greater
      then have "ks ! (off + ?m) < h" using here by simp
      then have out: "ks ! s \<noteq> h" if "s \<le> off + ?m" for s using low [OF that] by auto
      have "bst_search_by ?f tree i 0 = bst_search_by ?f tree (i * 2 + 2) 0"
        using Greater here(2) by (simp add: bst_search_by.simps [of ?f tree i] mult.commute del: cmp_simps)
      moreover have "case bst_search_by ?f tree (i * 2 + 2) 0 of
          Some j \<Rightarrow> \<exists>s. (s, j) \<in> set (subcalls (n - ?m - 1) (off + ?m + 1) e (i * 2 + 2)) \<and> ks ! s = h
        | None \<Rightarrow> \<forall>s. off + ?m + 1 \<le> s \<and> s < off + ?m + 1 + (n - ?m - 1) \<longrightarrow> ks ! s \<noteq> h"
        using Suc.prems(4,5) c False m by (intro Suc.IH f(2) Suc.prems(2,3)) auto
      moreover have "off + ?m + 1 + (n - ?m - 1) = off + n" using m by simp
      ultimately show ?thesis
        using c False out by (auto split: option.splits) (metis not_less_eq_eq)
    qed
  qed
qed


section \<open>A table laid out and searched\<close>

lemma bst_copy_sources: "set (map fst (bst_copy n)) = {0..<n}" "length (bst_copy n) = n"
  using subcalls_sources [OF fits_root [of n], of 0]
  by (cases "n = 0"; simp add: bst_copy_subcalls subcalls_def [of 0])+

lemma bst_copy_destinations: "set (map snd (bst_copy n)) = {0..<n}" "distinct (map snd (bst_copy n))"
proof -
  have "set (map snd (bst_copy n)) \<subseteq> {0..<n} \<and> distinct (map snd (bst_copy n))"
    using subcalls_destinations [OF fits_root [of n], of 0]
    by (cases "n = 0") (auto simp: bst_copy_subcalls subcalls_def [of 0])
  then have "set (map snd (bst_copy n)) \<subseteq> {0..<n}" and d: "distinct (map snd (bst_copy n))" by auto
  moreover from d have "card (set (map snd (bst_copy n))) = n"
    using bst_copy_sources(2) [of n] by (simp only: distinct_card length_map)
  ultimately show "set (map snd (bst_copy n)) = {0..<n}" by (metis card_atLeastLessThan card_subset_eq finite_atLeastLessThan minus_nat.diff_0)
  show "distinct (map snd (bst_copy n))" by (rule d)
qed

text \<open>What the table looks like after the calls have been served one by one.\<close>

definition place :: "'a list \<Rightarrow> (nat \<times> nat) list \<Rightarrow> 'a list \<Rightarrow> 'a list" where
  "place xs calls tree = foldl (\<lambda>t (s, j). t[j := xs ! s]) tree calls"

lemma place_simps [simp]: "place xs [] tree = tree"
  "place xs ((s, j) # calls) tree = place xs calls (tree[j := xs ! s])"
  by (simp_all add: place_def)

lemma length_place [simp]: "length (place xs calls tree) = length tree"
  unfolding place_def by (induction calls arbitrary: tree) auto

lemma place_nth:
  "distinct (map snd calls) \<Longrightarrow> \<forall>(s, j) \<in> set calls. j < length tree \<Longrightarrow>
     (s, j) \<in> set calls \<Longrightarrow> place xs calls tree ! j = xs ! s"
proof (induction calls arbitrary: tree)
  case (Cons c calls)
  have keep: "place xs cs t ! j = t ! j" if "j \<notin> set (map snd cs)" for cs t
    using that unfolding place_def by (induction cs arbitrary: t) (auto split: prod.splits)
  show ?case
  proof (cases "(s, j) \<in> set calls")
    case True
    with Cons show ?thesis by (cases c) (simp add: place_def)
  next
    case False
    with Cons.prems(3) have "c = (s, j)" by simp
    with Cons.prems keep [of calls "tree[j := xs ! s]"] show ?thesis by (simp add: place_def)
  qed
qed simp

lemma search_place:
  assumes "sorted (map key xs)" and "length tree = length xs"
  shows "case bst_search_by (\<lambda>x. cmp h (key x)) (place xs (bst_copy (length xs)) tree) 0 0 of
      Some j \<Rightarrow> j < length xs \<and>
        (\<exists>s < length xs. place xs (bst_copy (length xs)) tree ! j = xs ! s \<and> key (xs ! s) = h)
    | None \<Rightarrow> h \<notin> key ` set xs"
proof (cases "xs = []")
  case True
  with assms show ?thesis by (simp add: bst_search_by.simps bst_copy_def place_def)
next
  case False
  let ?t = "place xs (bst_copy (length xs)) tree"
  have dest: "j < length xs" if "(s, j) \<in> set (bst_copy (length xs))" for s j
    using that bst_copy_destinations(1) [of "length xs"] by (force simp: set_eq_iff)
  have src: "s < length xs" if "(s, j) \<in> set (bst_copy (length xs))" for s j
    using that bst_copy_sources(1) [of "length xs"] by (force simp: set_eq_iff)
  have at: "?t ! j = xs ! s" if "(s, j) \<in> set (bst_copy (length xs))" for s j
    using that dest assms(2) by (intro place_nth bst_copy_destinations(2)) auto
  then have "\<forall>(s, j) \<in> set (subcalls (length xs) 0 (ilog2 (length xs)) 0). key (?t ! j) = map key xs ! s"
    using src by (auto simp: bst_copy_subcalls)
  then have res: "case bst_search_by (\<lambda>x. cmp h (key x)) ?t 0 0 of
      Some j \<Rightarrow> \<exists>s. (s, j) \<in> set (bst_copy (length xs)) \<and> map key xs ! s = h
    | None \<Rightarrow> \<forall>s. 0 \<le> s \<and> s < 0 + length xs \<longrightarrow> map key xs ! s \<noteq> h"
    unfolding bst_copy_subcalls
    using False assms by (intro search_subcalls [OF fits_root [of "length xs"]]) (auto simp: bst_copy_subcalls)
  show ?thesis
  proof (cases "bst_search_by (\<lambda>x. cmp h (key x)) ?t 0 0")
    case None
    with res have "\<forall>s < length xs. map key xs ! s \<noteq> h" by simp
    then have "h \<notin> set (map key xs)" by (metis in_set_conv_nth length_map)
    with None show ?thesis by simp
  next
    case (Some j)
    with res obtain s where s: "(s, j) \<in> set (bst_copy (length xs))" "map key xs ! s = h" by auto
    from at [OF s(1)] src [OF s(1)] dest [OF s(1)] s(2) show ?thesis unfolding Some option.simps by auto
  qed
qed


text \<open>The table is a permutation of the items.\<close>

lemma set_place: "length tree = length xs \<Longrightarrow> set (place xs (bst_copy (length xs)) tree) = set xs"
proof -
  assume l: "length tree = length xs"
  let ?c = "bst_copy (length xs)"
  have at: "place xs ?c tree ! j = xs ! s" if "(s, j) \<in> set ?c" for s j
  proof (rule place_nth [OF bst_copy_destinations(2) _ that])
    show "\<forall>(s, j) \<in> set ?c. j < length tree"
      using bst_copy_destinations(1) [of "length xs"] l by (force simp: set_eq_iff)
  qed
  have src: "s < length xs" and dest: "j < length xs" if "(s, j) \<in> set ?c" for s j
    using that bst_copy_sources(1) [of "length xs"] bst_copy_destinations(1) [of "length xs"] by (force simp: set_eq_iff)+
  show ?thesis
  proof (intro set_eqI iffI)
    fix x assume "x \<in> set (place xs ?c tree)"
    then obtain j where j: "x = place xs ?c tree ! j" "j < length xs" using l by (auto simp: in_set_conv_nth)
    then have "j \<in> set (map snd ?c)" unfolding bst_copy_destinations(1) by simp
    then obtain s where "(s, j) \<in> set ?c" by auto
    with at src j show "x \<in> set xs" by (metis nth_mem)
  next
    fix x assume "x \<in> set xs"
    then obtain s where s: "x = xs ! s" "s < length xs" by (auto simp: in_set_conv_nth)
    then have "s \<in> set (map fst ?c)" unfolding bst_copy_sources(1) by simp
    then obtain j where "(s, j) \<in> set ?c" by auto
    with at dest s l show "x \<in> set (place xs ?c tree)" by (metis nth_mem length_place)
  qed
qed

lemma distinct_place:
  assumes "length tree = length xs" and "distinct (map key xs)"
  shows "distinct (map key (place xs (bst_copy (length xs)) tree))"
proof (rule card_distinct)
  have "card (set (map key (place xs (bst_copy (length xs)) tree))) = card (set (map key xs))"
    using set_place [OF assms(1)] by simp
  also have "\<dots> = length xs" using distinct_card [OF assms(2)] by simp
  finally show "card (set (map key (place xs (bst_copy (length xs)) tree))) =
      length (map key (place xs (bst_copy (length xs)) tree))" using assms(1) by simp
qed

end
