(* ===== verification/PxarEncoder.thy ===== *)
theory PxarEncoder
  imports PxarFormat
begin

text \<open>
  The archive writer of \<^verbatim>\<open>pxar/encoder.rs\<close>. The encoder keeps what it has written, its position and
  a stack of open directories (the innermost first), each with the items of its goodbye table so
  far. It writes to memory, so only its own checks and the reader of a file's content can fail;
  after an error the encoder is dropped. The second half computes what the encoder writes for a
  tree of directories, files and links.
\<close>

section \<open>Operations\<close>

definition COPY_BUF_SIZE :: nat where "COPY_BUF_SIZE = 128 * 1024"

record dir_state =
  ds_items :: "goodbye_item list"
  ds_entry_offset :: nat
  ds_file_offset :: "nat option"
  ds_file_hash :: nat

record encoder =
  en_out :: "byte list"
  en_pos :: nat
  en_stack :: "dir_state list"
  en_finished :: bool

definition en_write_all :: "byte list \<Rightarrow> encoder \<Rightarrow> encoder" where
  "en_write_all buf en = en\<lparr>en_out := en_out en @ buf, en_pos := wrapping_add (en_pos en) (length buf)\<rparr>"

definition write_header :: "nat \<Rightarrow> nat \<Rightarrow> encoder \<Rightarrow> encoder" where
  "write_header ty csize en =
     en_write_all (to_le_bytes 8 (wrapping_add csize HEADER_SIZE)) (en_write_all (to_le_bytes 8 ty) en)"

definition encode_filename :: "byte list \<Rightarrow> encoder \<Rightarrow> 'e io_failure + encoder" where
  "encode_filename name en =
     and_then (validate_filename name) (\<lambda>_.
     Inr (en_write_all [0] (en_write_all name
       (write_header PXAR_FILENAME (wrapping_add (length name) 1) en))))"

definition encode_metadata :: "stat \<Rightarrow> encoder \<Rightarrow> encoder" where
  "encode_metadata st en =
     en_write_all (to_le_bytes 4 0)
      (en_write_all (to_le_bytes 4 (nanos (st_mtime st)))
       (en_write_all (to_le_bytes 8 (as_u64 (secs (st_mtime st))))
        (en_write_all (to_le_bytes 4 (st_gid st))
         (en_write_all (to_le_bytes 4 (st_uid st))
          (en_write_all (to_le_bytes 8 (st_flags st))
           (en_write_all (to_le_bytes 8 (st_mode st))
            (write_header PXAR_ENTRY STAT_SIZE en)))))))"

function copy_exact ::
    "('s \<Rightarrow> nat \<Rightarrow> 'e + (byte list \<times> 's)) \<Rightarrow> 's \<Rightarrow> nat \<Rightarrow> encoder \<Rightarrow> 'e io_failure + (encoder \<times> 's)" where
  "copy_exact read content sz en =
     (if sz = 0 then Inr (en, content)
      else let want = min sz COPY_BUF_SIZE
           in case read content want of
                Inl e \<Rightarrow> Inl (Failed e)
              | Inr (written, content') \<Rightarrow>
                  if written = [] then Inl (Other ''pxar: file content ended before the declared size'')
                  else if want < length written then Inl (Other ''pxar: short read past buffer'')
                  else copy_exact read content' (sz - length written) (en_write_all written en))"
  by pat_completeness auto
termination
  by (relation "measure (\<lambda>(read, content, sz, en). sz)")
    (auto simp: length_greater_0_conv [symmetric] simp del: length_greater_0_conv)

declare copy_exact.simps [simp del]

definition push_item ::
    "(nat \<Rightarrow> nat \<Rightarrow> byte list \<Rightarrow> nat) \<Rightarrow> byte list \<Rightarrow> nat \<Rightarrow> encoder \<Rightarrow> 'e io_failure + encoder" where
  "push_item sip name file_offset en =
     (case en_stack en of
        [] \<Rightarrow> Inl (Other ''pxar: entry written outside of a directory'')
      | d # ds \<Rightarrow>
          let item = \<lparr>g_hash = hash_filename sip name, g_offset = file_offset,
                      g_size = wrapping_sub (en_pos en) file_offset\<rparr>
          in Inr (en\<lparr>en_stack := d\<lparr>ds_items := ds_items d @ [item]\<rparr> # ds\<rparr>))"

definition from_std :: "stat \<Rightarrow> 'e io_failure + encoder" where
  "from_std root_metadata =
     (if \<not> stat_is_dir root_metadata then Inl (Other ''pxar: root metadata must describe a directory'')
      else let en = encode_metadata root_metadata \<lparr>en_out = [], en_pos = 0, en_stack = [], en_finished = False\<rparr>
           in Inr (en\<lparr>en_stack := [\<lparr>ds_items = [], ds_entry_offset = 0, ds_file_offset = None, ds_file_hash = 0\<rparr>]\<rparr>))"

definition create_directory ::
    "(nat \<Rightarrow> nat \<Rightarrow> byte list \<Rightarrow> nat) \<Rightarrow> byte list \<Rightarrow> stat \<Rightarrow> encoder \<Rightarrow> 'e io_failure + encoder" where
  "create_directory sip name metadata en =
     (if \<not> stat_is_dir metadata then Inl (Other ''pxar: directory metadata must describe a directory'')
      else and_then (encode_filename name en) (\<lambda>en1.
        let en2 = encode_metadata metadata en1;
            d = \<lparr>ds_items = [], ds_entry_offset = en_pos en1, ds_file_offset = Some (en_pos en),
                 ds_file_hash = hash_filename sip name\<rparr>
        in Inr (en2\<lparr>en_stack := d # en_stack en2\<rparr>)))"

definition add_file ::
    "(nat \<Rightarrow> nat \<Rightarrow> byte list \<Rightarrow> nat) \<Rightarrow> ('s \<Rightarrow> nat \<Rightarrow> 'e + (byte list \<times> 's)) \<Rightarrow>
     stat \<Rightarrow> byte list \<Rightarrow> nat \<Rightarrow> 's \<Rightarrow> encoder \<Rightarrow> 'e io_failure + (encoder \<times> 's)" where
  "add_file sip read metadata name sz content en =
     and_then (encode_filename name en) (\<lambda>en1.
     and_then (copy_exact read content sz (write_header PXAR_PAYLOAD sz (encode_metadata metadata en1)))
       (\<lambda>(en2, content').
     and_then (push_item sip name (en_pos en) en2) (\<lambda>en3. Inr (en3, content'))))"

definition add_symlink ::
    "(nat \<Rightarrow> nat \<Rightarrow> byte list \<Rightarrow> nat) \<Rightarrow> stat \<Rightarrow> byte list \<Rightarrow> byte list \<Rightarrow> encoder \<Rightarrow> 'e io_failure + encoder" where
  "add_symlink sip metadata name target en =
     and_then (encode_filename name en) (\<lambda>en1.
     let data = target @ [0];
         en2 = en_write_all data (write_header PXAR_SYMLINK (length data) (encode_metadata metadata en1))
     in push_item sip name (en_pos en) en2)"

text \<open>
  The goodbye table. The items are sorted by hash; among equal hashes the order of the unstable
  sort is left open by its documentation, the model keeps the order of insertion. The closure
  handed to \<^verbatim>\<open>bst_copy\<close> records an error for an index out of range and goes on.
\<close>

definition place_item ::
    "goodbye_item list \<Rightarrow> nat \<Rightarrow> nat \<times> nat \<Rightarrow> goodbye_item list \<times> bool \<Rightarrow> goodbye_item list \<times> bool" where
  "place_item items goodbye_offset call st =
     (case (call, st) of ((src, dest), (tree, err)) \<Rightarrow>
        if src < length items \<and> dest < length tree
        then (let item = items ! src
              in (tree[dest := \<lparr>g_hash = g_hash item,
                    g_offset = saturating_sub goodbye_offset (g_offset item), g_size = g_size item\<rparr>], err))
        else (tree, True))"

definition build_goodbye_table :: "goodbye_item list \<Rightarrow> nat \<Rightarrow> nat \<Rightarrow> 'e io_failure + byte list" where
  "build_goodbye_table items goodbye_offset entry_offset =
     (let sorted_items = sort_key g_hash items;
          n = length sorted_items;
          (tree, err) = fold (place_item sorted_items goodbye_offset) (bst_copy n) (replicate n default_item, False);
          goodbye_size = (n + 1) * GOODBYE_ITEM_SIZE + HEADER_SIZE;
          tail = \<lparr>g_hash = PXAR_GOODBYE_TAIL_MARKER,
                  g_offset = saturating_sub goodbye_offset entry_offset, g_size = goodbye_size\<rparr>
      in if err then Inl (Other ''pxar: goodbye table permutation out of range'')
         else Inr (concat (map item_to_le_bytes tree) @ item_to_le_bytes tail))"

definition finish :: "encoder \<Rightarrow> 'e io_failure + encoder" where
  "finish en =
     (case en_stack en of
        [] \<Rightarrow> Inl (Other ''pxar: finish called with no open directory'')
      | d # ds \<Rightarrow>
          and_then (build_goodbye_table (ds_items d) (en_pos en) (ds_entry_offset d)) (\<lambda>table.
          let en1 = en_write_all table (write_header PXAR_GOODBYE (length table) (en\<lparr>en_stack := ds\<rparr>))
          in case ds of
               [] \<Rightarrow> Inr en1
             | parent # rest \<Rightarrow>
                 (case ds_file_offset d of
                    None \<Rightarrow> Inl (Other ''pxar: nested directory without a file offset'')
                  | Some file_offset \<Rightarrow>
                      let item = \<lparr>g_hash = ds_file_hash d, g_offset = file_offset,
                                  g_size = wrapping_sub (en_pos en1) file_offset\<rparr>
                      in Inr (en1\<lparr>en_stack := parent\<lparr>ds_items := ds_items parent @ [item]\<rparr> # rest\<rparr>))))"

definition close :: "encoder \<Rightarrow> 'e io_failure + encoder" where
  "close en =
     (if en_stack en \<noteq> [] then Inl (Other ''pxar: close with directories still open'')
      else Inr (en\<lparr>en_finished := True\<rparr>))"


section \<open>What is written\<close>

lemma write_all_twice: "en_write_all bs (en_write_all as en) = en_write_all (as @ bs) en"
  by (simp add: en_write_all_def wrapping_add_def mod_add_left_eq add.assoc)

definition hdr :: "nat \<Rightarrow> nat \<Rightarrow> byte list" where
  "hdr ty csize = to_le_bytes 8 ty @ to_le_bytes 8 (csize + 16)"

definition name_bytes :: "byte list \<Rightarrow> byte list" where
  "name_bytes name = hdr PXAR_FILENAME (length name + 1) @ name @ [0]"

definition stat_bytes :: "stat \<Rightarrow> byte list" where
  "stat_bytes st = to_le_bytes 8 (st_mode st) @ to_le_bytes 8 (st_flags st) @ to_le_bytes 4 (st_uid st) @
     to_le_bytes 4 (st_gid st) @ to_le_bytes 8 (as_u64 (secs (st_mtime st))) @
     to_le_bytes 4 (nanos (st_mtime st)) @ to_le_bytes 4 0"

definition meta_bytes :: "stat \<Rightarrow> byte list" where
  "meta_bytes st = hdr PXAR_ENTRY 40 @ stat_bytes st"

lemma length_hdr [simp]: "length (hdr ty csize) = 16"
  by (simp add: hdr_def)

lemma length_stat_bytes [simp]: "length (stat_bytes st) = 40"
  by (simp add: stat_bytes_def)

lemma length_meta_bytes [simp]: "length (meta_bytes st) = 56"
  by (simp add: meta_bytes_def)

lemma length_name_bytes [simp]: "length (name_bytes name) = length name + 17"
  by (simp add: name_bytes_def)

lemma write_header_hdr: "csize + 16 \<le> u64_max \<Longrightarrow> write_header ty csize en = en_write_all (hdr ty csize) en"
  by (simp add: write_header_def write_all_twice hdr_def wrapping_add_exact HEADER_SIZE_def)

lemma encode_metadata_bytes: "encode_metadata st en = en_write_all (meta_bytes st) en"
  by (simp add: encode_metadata_def write_header_hdr STAT_SIZE_def u64_max_def write_all_twice meta_bytes_def stat_bytes_def)

definition valid_name :: "byte list \<Rightarrow> bool" where
  "valid_name name \<longleftrightarrow> name \<noteq> [] \<and> 47 \<notin> set name \<and> name \<noteq> [46] \<and> name \<noteq> [46, 46]"

lemma validate_filename_iff: "validate_filename name = Inr () \<longleftrightarrow> valid_name name"
  by (auto simp: validate_filename_def valid_name_def)

lemma validate_filename_ok [simp]: "valid_name name \<Longrightarrow> validate_filename name = Inr ()"
  by (simp add: validate_filename_iff)

lemma encode_filename_bytes:
  assumes "valid_name name" and "length name + 17 \<le> u64_max"
  shows "encode_filename name en = Inr (en_write_all (name_bytes name) en)"
  using assms
  by (simp add: encode_filename_def write_header_hdr wrapping_add_exact write_all_twice name_bytes_def)

context reader
begin

lemma copy_exact_all:
  "live s \<Longrightarrow> sz \<le> length (content s) \<Longrightarrow> en_pos en \<le> u64_max \<Longrightarrow>
     \<exists>s'. copy_exact read s sz en = Inr (en_write_all (take sz (content s)) en, s') \<and> live s' \<and>
       content s' = drop sz (content s)"
proof (induction sz arbitrary: s en rule: less_induct)
  case (less sz)
  show ?case
  proof (cases "sz = 0")
    case True
    with less.prems show ?thesis
      by (simp add: copy_exact.simps [of read s 0] en_write_all_def wrapping_add_exact)
  next
    case False
    let ?m = "min sz COPY_BUF_SIZE"
    obtain bs s' where rd: "read s ?m = Inr (bs, s')" "live s'" "content s = bs @ content s'" "length bs \<le> ?m"
      "0 < ?m \<longrightarrow> content s \<noteq> [] \<longrightarrow> bs \<noteq> []"
      using read_law [OF less.prems(1), of ?m] by (elim exE conjE) (rule that)
    have ne: "bs \<noteq> []" using rd(5) False less.prems(2) by (auto simp: COPY_BUF_SIZE_def)
    let ?en = "en_write_all bs en"
    have "sz - length bs < sz" "sz - length bs \<le> length (content s')" "en_pos ?en \<le> u64_max"
      using False ne rd(3,4) less.prems(2) by (auto simp: en_write_all_def)
    from less.IH [OF this(1) rd(2) this(2,3)] obtain s'' where
      "copy_exact read s' (sz - length bs) ?en = Inr (en_write_all (take (sz - length bs) (content s')) ?en, s'')"
      "live s''" "content s'' = drop (sz - length bs) (content s')" by blast
    moreover have "copy_exact read s sz en = copy_exact read s' (sz - length bs) ?en"
      using False ne rd(1,4) by (simp add: copy_exact.simps [of read s sz] Let_def not_less [symmetric])
    ultimately show ?thesis using rd(3,4) by (simp add: write_all_twice)
  qed
qed

end

text \<open>The table of a directory: the sorted items with relative offsets in the order of the search tree.\<close>

definition relative_item :: "nat \<Rightarrow> goodbye_item \<Rightarrow> goodbye_item" where
  "relative_item goff g = \<lparr>g_hash = g_hash g, g_offset = goff - g_offset g, g_size = g_size g\<rparr>"

definition table_items :: "goodbye_item list \<Rightarrow> nat \<Rightarrow> goodbye_item list" where
  "table_items items goff =
     place (map (relative_item goff) (sort_key g_hash items)) (bst_copy (length items))
       (replicate (length items) default_item)"

definition tail_item :: "nat \<Rightarrow> nat \<Rightarrow> nat \<Rightarrow> goodbye_item" where
  "tail_item n goff eoff =
     \<lparr>g_hash = PXAR_GOODBYE_TAIL_MARKER, g_offset = goff - eoff, g_size = (n + 1) * 24 + 16\<rparr>"

definition table_bytes :: "goodbye_item list \<Rightarrow> nat \<Rightarrow> nat \<Rightarrow> byte list" where
  "table_bytes items goff eoff =
     concat (map item_to_le_bytes (table_items items goff)) @ item_to_le_bytes (tail_item (length items) goff eoff)"

lemma length_item_bytes [simp]: "length (item_to_le_bytes g) = 24"
  by (simp add: item_to_le_bytes_def)

lemma length_table_items [simp]: "length (table_items items goff) = length items"
  by (simp add: table_items_def)

lemma length_concat_items: "length (concat (map item_to_le_bytes gs)) = 24 * length gs"
  by (induction gs) auto

lemma length_table_bytes [simp]: "length (table_bytes items goff eoff) = 24 * (length items + 1)"
  by (simp add: table_bytes_def length_concat_items)

lemma place_items:
  "\<forall>(s, j) \<in> set calls. s < length xs \<and> j < length tree \<Longrightarrow>
     fold (place_item xs goff) calls (tree, False) = (place (map (relative_item goff) xs) calls tree, False)"
proof (induction calls arbitrary: tree)
  case (Cons c calls)
  obtain s j where c: "c = (s, j)" by force
  with Cons.prems have b: "s < length xs" "j < length tree" by auto
  then have "place_item xs goff c (tree, False) = (tree[j := map (relative_item goff) xs ! s], False)"
    by (simp add: c place_item_def Let_def relative_item_def saturating_sub_def)
  moreover have "fold (place_item xs goff) calls (tree[j := map (relative_item goff) xs ! s], False) =
      (place (map (relative_item goff) xs) calls (tree[j := map (relative_item goff) xs ! s]), False)"
    using Cons.prems by (intro Cons.IH) simp
  ultimately show ?case by (simp add: c)
qed simp

text \<open>The permutation never leaves the table, so building it never fails.\<close>

lemma build_goodbye_table_ok:
  "build_goodbye_table items goff eoff = Inr (table_bytes items goff eoff)"
proof -
  let ?xs = "sort_key g_hash items"
  have "\<forall>(s, j) \<in> set (bst_copy (length items)). s < length ?xs \<and> j < length (replicate (length items) default_item)"
    using bst_copy_sources(1) [of "length items"] bst_copy_destinations(1) [of "length items"]
    by (force simp: set_eq_iff)
  from place_items [OF this] show ?thesis
    by (simp add: build_goodbye_table_def table_bytes_def table_items_def tail_item_def Let_def
        saturating_sub_def GOODBYE_ITEM_SIZE_def HEADER_SIZE_def algebra_simps)
qed


section \<open>Archiving a tree\<close>

text \<open>
  The calls a client makes: a file is added with its content, a link with its target; a directory
  is created, filled and finished.
\<close>

datatype pxar_tree =
    PFile "byte list" stat "byte list"
  | PLink "byte list" stat "byte list"
  | PDir "byte list" stat "pxar_tree list"

fun archive :: "(nat \<Rightarrow> nat \<Rightarrow> byte list \<Rightarrow> nat) \<Rightarrow> pxar_tree \<Rightarrow> encoder \<Rightarrow> 'e io_failure + encoder"
  and archive_all :: "(nat \<Rightarrow> nat \<Rightarrow> byte list \<Rightarrow> nat) \<Rightarrow> pxar_tree list \<Rightarrow> encoder \<Rightarrow> 'e io_failure + encoder" where
  "archive sip (PFile name st data) en =
     and_then (add_file sip read_slice st name (length data) data en) (\<lambda>(en', _). Inr en')"
| "archive sip (PLink name st tgt) en = add_symlink sip st name tgt en"
| "archive sip (PDir name st ts) en =
     and_then (create_directory sip name st en) (\<lambda>en1. and_then (archive_all sip ts en1) finish)"
| "archive_all sip [] en = Inr en"
| "archive_all sip (t # ts) en = and_then (archive sip t en) (archive_all sip ts)"

definition write_archive :: "(nat \<Rightarrow> nat \<Rightarrow> byte list \<Rightarrow> nat) \<Rightarrow> stat \<Rightarrow> pxar_tree list \<Rightarrow> 'e io_failure + byte list" where
  "write_archive sip st ts =
     and_then (from_std st) (\<lambda>en.
     and_then (archive_all sip ts en) (\<lambda>en1.
     and_then (finish en1) (\<lambda>en2.
     and_then (close en2) (\<lambda>en3. Inr (en_out en3)))))"

fun tree_name :: "pxar_tree \<Rightarrow> byte list" where
  "tree_name (PFile name _ _) = name"
| "tree_name (PLink name _ _) = name"
| "tree_name (PDir name _ _) = name"

text \<open>The bytes of a tree that starts at a position, and the items of a series of trees.\<close>

fun pbytes :: "(nat \<Rightarrow> nat \<Rightarrow> byte list \<Rightarrow> nat) \<Rightarrow> nat \<Rightarrow> pxar_tree \<Rightarrow> byte list"
  and pbytes_all :: "(nat \<Rightarrow> nat \<Rightarrow> byte list \<Rightarrow> nat) \<Rightarrow> nat \<Rightarrow> pxar_tree list \<Rightarrow> byte list"
  and pitems :: "(nat \<Rightarrow> nat \<Rightarrow> byte list \<Rightarrow> nat) \<Rightarrow> nat \<Rightarrow> pxar_tree list \<Rightarrow> goodbye_item list" where
  "pbytes sip pos (PFile name st data) =
     name_bytes name @ meta_bytes st @ hdr PXAR_PAYLOAD (length data) @ data"
| "pbytes sip pos (PLink name st tgt) =
     name_bytes name @ meta_bytes st @ hdr PXAR_SYMLINK (length tgt + 1) @ tgt @ [0]"
| "pbytes sip pos (PDir name st ts) =
     (let p = pos + length (name_bytes name) + 56; goff = p + length (pbytes_all sip p ts)
      in name_bytes name @ meta_bytes st @ pbytes_all sip p ts @
         hdr PXAR_GOODBYE (24 * (length ts + 1)) @
         table_bytes (pitems sip p ts) goff (pos + length (name_bytes name)))"
| "pbytes_all sip pos [] = []"
| "pbytes_all sip pos (t # ts) = pbytes sip pos t @ pbytes_all sip (pos + length (pbytes sip pos t)) ts"
| "pitems sip pos [] = []"
| "pitems sip pos (t # ts) =
     \<lparr>g_hash = hash_filename sip (tree_name t), g_offset = pos, g_size = length (pbytes sip pos t)\<rparr> #
     pitems sip (pos + length (pbytes sip pos t)) ts"

lemma length_pitems [simp]: "length (pitems sip pos ts) = length ts"
  by (induction ts arbitrary: pos) auto

fun names_ok :: "pxar_tree \<Rightarrow> bool" where
  "names_ok (PFile name st data) \<longleftrightarrow> valid_name name"
| "names_ok (PLink name st tgt) \<longleftrightarrow> valid_name name"
| "names_ok (PDir name st ts) \<longleftrightarrow> valid_name name \<and> stat_is_dir st \<and> list_all names_ok ts"

text \<open>What writing does to the state while the archive stays within 64 bits.\<close>

lemma write_all_exact:
  "en_pos en + length bs \<le> u64_max \<Longrightarrow>
     en_write_all bs en = en\<lparr>en_out := en_out en @ bs, en_pos := en_pos en + length bs\<rparr>"
  by (simp add: en_write_all_def wrapping_add_exact)

definition written :: "encoder \<Rightarrow> byte list \<Rightarrow> goodbye_item list \<Rightarrow> encoder" where
  "written en bs is = en\<lparr>en_out := en_out en @ bs, en_pos := en_pos en + length bs,
     en_stack := (hd (en_stack en))\<lparr>ds_items := ds_items (hd (en_stack en)) @ is\<rparr> # tl (en_stack en)\<rparr>"

lemma written_simps [simp]:
  "en_pos (written en bs is) = en_pos en + length bs"
  "en_out (written en bs is) = en_out en @ bs"
  "en_stack (written en bs is) =
     (hd (en_stack en))\<lparr>ds_items := ds_items (hd (en_stack en)) @ is\<rparr> # tl (en_stack en)"
  by (simp_all add: written_def)

lemma written_twice: "written (written en as is) bs js = written en (as @ bs) (is @ js)"
  by (simp add: written_def add.assoc)

lemma push_item_written:
  assumes "en_stack en \<noteq> []" and "en_pos en + length bs \<le> u64_max"
  shows "(push_item sip name (en_pos en) (en_write_all bs en) :: 'e io_failure + encoder) =
    Inr (written en bs [\<lparr>g_hash = hash_filename sip name, g_offset = en_pos en, g_size = length bs\<rparr>])"
  using assms
  by (cases "en_stack en") (auto simp: push_item_def write_all_exact written_def wrapping_sub_exact Let_def)

lemma add_file_bytes:
  assumes "valid_name name" and "en_stack en \<noteq> []"
    and "en_pos en + length (pbytes sip (en_pos en) (PFile name st data)) \<le> u64_max"
  shows "\<exists>s'. (add_file sip read_slice st name (length data) data en :: 'e io_failure + _) = Inr
    (written en (pbytes sip (en_pos en) (PFile name st data)) (pitems sip (en_pos en) [PFile name st data]), s')"
proof -
  let ?en = "en_write_all (name_bytes name @ meta_bytes st @ hdr PXAR_PAYLOAD (length data)) en"
  have "en_pos ?en \<le> u64_max" by (simp add: en_write_all_def)
  from slice.copy_exact_all [OF TrueI _ this, of "length data" data, where 'a = 'e] obtain s' where
    "(copy_exact read_slice data (length data) ?en :: 'e io_failure + _) = Inr (en_write_all data ?en, s')" by auto
  moreover have "write_header PXAR_PAYLOAD (length data) (encode_metadata st (en_write_all (name_bytes name) en)) = ?en"
    using assms(3) by (simp add: encode_metadata_bytes write_header_hdr write_all_twice)
  moreover note push_item_written [OF assms(2), of "pbytes sip (en_pos en) (PFile name st data)" sip name, where 'e = 'e]
  ultimately show ?thesis
    using assms by (simp add: add_file_def encode_filename_bytes write_all_twice)
qed

lemma add_symlink_bytes:
  assumes "valid_name name" and "en_stack en \<noteq> []"
    and "en_pos en + length (pbytes sip (en_pos en) (PLink name st tgt)) \<le> u64_max"
  shows "(add_symlink sip st name tgt en :: 'e io_failure + encoder) = Inr
    (written en (pbytes sip (en_pos en) (PLink name st tgt)) (pitems sip (en_pos en) [PLink name st tgt]))"
proof -
  note push_item_written [OF assms(2), of "pbytes sip (en_pos en) (PLink name st tgt)" sip name, where 'e = 'e]
  then show ?thesis
    using assms
    by (simp add: add_symlink_def encode_filename_bytes write_all_twice encode_metadata_bytes write_header_hdr Let_def)
qed

text \<open>Closing a nested directory hands its item to the parent.\<close>

lemma finish_nested:
  assumes "en_stack en = d # parent # rest" and "ds_file_offset d = Some foff" and "foff \<le> en_pos en"
    and "en_pos en + 16 + 24 * (length (ds_items d) + 1) \<le> u64_max"
  shows "(finish en :: 'e io_failure + encoder) =
    (let bs = hdr PXAR_GOODBYE (24 * (length (ds_items d) + 1)) @ table_bytes (ds_items d) (en_pos en) (ds_entry_offset d)
     in Inr (written (en\<lparr>en_stack := parent # rest\<rparr>) bs
       [\<lparr>g_hash = ds_file_hash d, g_offset = foff, g_size = en_pos en + length bs - foff\<rparr>]))"
  using assms
  by (simp add: finish_def build_goodbye_table_ok write_header_hdr write_all_twice write_all_exact Let_def
      written_def wrapping_sub_exact)

lemma archive_bytes:
  "names_ok t \<Longrightarrow> en_stack en \<noteq> [] \<Longrightarrow> en_pos en + length (pbytes sip (en_pos en) t) \<le> u64_max \<Longrightarrow>
     (archive sip t en :: 'e io_failure + encoder) = Inr (written en (pbytes sip (en_pos en) t) (pitems sip (en_pos en) [t]))"
  "list_all names_ok ts \<Longrightarrow> en_stack en \<noteq> [] \<Longrightarrow> en_pos en + length (pbytes_all sip (en_pos en) ts) \<le> u64_max \<Longrightarrow>
     (archive_all sip ts en :: 'e io_failure + encoder) = Inr (written en (pbytes_all sip (en_pos en) ts) (pitems sip (en_pos en) ts))"
proof (induction sip t en and sip ts en rule: archive_archive_all.induct)
  case (1 sip name st data en)
  then show ?case using add_file_bytes [of name en sip st data, where 'e = 'e] by auto
next
  case (2 sip name st tgt en)
  then show ?case using add_symlink_bytes [of name en sip st tgt, where 'e = 'e] by simp
next
  case (3 sip name st ts en)
  let ?d = "\<lparr>ds_items = [], ds_entry_offset = en_pos en + length (name_bytes name), ds_file_offset = Some (en_pos en),
    ds_file_hash = hash_filename sip name\<rparr>"
  let ?pre = "name_bytes name @ meta_bytes st"
  let ?en = "en\<lparr>en_out := en_out en @ ?pre, en_pos := en_pos en + length ?pre, en_stack := ?d # en_stack en\<rparr>"
  have create: "(create_directory sip name st en :: 'e io_failure + encoder) = Inr ?en"
    using 3(2-) by (simp add: create_directory_def encode_filename_bytes encode_metadata_bytes write_all_twice
        write_all_exact Let_def)
  let ?bs = "pbytes_all sip (en_pos ?en) ts" and ?is = "pitems sip (en_pos ?en) ts"
  have "(archive_all sip ts ?en :: 'e io_failure + encoder) = Inr (written ?en ?bs ?is)"
    using 3(2-) by (intro 3(1) [of ?en]) (auto simp: Let_def ac_simps)
  then show ?case
    using 3(2-) create finish_nested [of "written ?en ?bs ?is" "?d\<lparr>ds_items := ?is\<rparr>" "hd (en_stack en)" "tl (en_stack en)" "en_pos en",
      where 'e = 'e]
    by (simp add: Let_def written_def ac_simps)
next
  case (4 sip en)
  then show ?case by (simp add: written_def)
next
  case (5 sip t ts en)
  then show ?case by (simp add: written_twice)
qed


text \<open>The whole archive.\<close>

definition archive_bytes_of :: "(nat \<Rightarrow> nat \<Rightarrow> byte list \<Rightarrow> nat) \<Rightarrow> stat \<Rightarrow> pxar_tree list \<Rightarrow> byte list" where
  "archive_bytes_of sip st ts =
     meta_bytes st @ pbytes_all sip 56 ts @ hdr PXAR_GOODBYE (24 * (length ts + 1)) @
     table_bytes (pitems sip 56 ts) (56 + length (pbytes_all sip 56 ts)) 0"

lemma write_archive_bytes:
  assumes "stat_is_dir st" and "list_all names_ok ts" and "length (archive_bytes_of sip st ts) \<le> u64_max"
  shows "(write_archive sip st ts :: 'e io_failure + byte list) = Inr (archive_bytes_of sip st ts)"
proof -
  let ?d = "\<lparr>ds_items = [], ds_entry_offset = 0, ds_file_offset = None, ds_file_hash = 0\<rparr>"
  let ?en = "\<lparr>en_out = meta_bytes st, en_pos = 56, en_stack = [?d], en_finished = False\<rparr>"
  let ?bs = "pbytes_all sip 56 ts" and ?is = "pitems sip 56 ts"
  have start: "(from_std st :: 'e io_failure + encoder) = Inr ?en"
    using assms(1) by (simp add: from_std_def encode_metadata_bytes write_all_exact u64_max_def Let_def)
  have fill: "(archive_all sip ts ?en :: 'e io_failure + encoder) = Inr (written ?en ?bs ?is)"
    using archive_bytes(2) [OF assms(2), of ?en sip, where 'e = 'e] assms(3) by (simp add: archive_bytes_of_def)
  show ?thesis
    using assms(3)
    by (simp add: write_archive_def start fill finish_def build_goodbye_table_ok write_header_hdr write_all_twice
        write_all_exact Let_def written_def close_def archive_bytes_of_def)
qed

end
