(* ===== verification/PxarDecoder.thy ===== *)
theory PxarDecoder
  imports PxarEncoder
begin

text \<open>
  The sequential archive reader of \<^verbatim>\<open>pxar/decoder.rs\<close>. The decoder keeps its input, the path of the
  last entry, the lengths of the paths of the open directories (the innermost first), a header that
  was read ahead, and whether it stands inside the content of a file. Every operation takes the
  reader as an argument and returns an error or its result with the next decoder. The second half
  proves, for every reader that meets the contract of \<^verbatim>\<open>reader\<close>, that what the encoder wrote is read
  back.
\<close>

section \<open>Operations\<close>

definition SKIP_BUF_SIZE :: nat where "SKIP_BUF_SIZE = 4096"

datatype decoder_state = Begin | InDirectory | InPayload nat | Eof

record 's decoder =
  de_input :: 's
  de_path :: "byte list"
  de_path_lengths :: "nat list"
  de_pending :: "header option"
  de_state :: decoder_state

definition decoder_new :: "'s \<Rightarrow> 's decoder" where
  "decoder_new input =
     \<lparr>de_input = input, de_path = [47], de_path_lengths = [], de_pending = None, de_state = Begin\<rparr>"

definition u64_at :: "byte list \<Rightarrow> nat \<Rightarrow> 'e io_failure + nat" where
  "u64_at buf at = read_u64 (get_range buf at (at + 8))"

definition u32_at :: "byte list \<Rightarrow> nat \<Rightarrow> 'e io_failure + nat" where
  "u32_at buf at =
     (case get_range buf at (at + 4) of
        None \<Rightarrow> Inl (Other ''pxar: truncated u32 field'')
      | Some bs \<Rightarrow> Inr (from_le_bytes bs))"

definition read_header ::
    "('s \<Rightarrow> nat \<Rightarrow> 'e + (byte list \<times> 's)) \<Rightarrow> 's decoder \<Rightarrow> 'e io_failure + (header \<times> 's decoder)" where
  "read_header read d =
     and_then (read_exact read (de_input d) 16) (\<lambda>(buf, input').
     and_then (u64_at buf 0) (\<lambda>ty.
     and_then (u64_at buf 8) (\<lambda>fs.
     let h = \<lparr>htype = ty, full_size = fs\<rparr>
     in and_then (content_size h) (\<lambda>_. Inr (h, d\<lparr>de_input := input'\<rparr>)))))"

definition take_header ::
    "('s \<Rightarrow> nat \<Rightarrow> 'e + (byte list \<times> 's)) \<Rightarrow> 's decoder \<Rightarrow> 'e io_failure + (header \<times> 's decoder)" where
  "take_header read d =
     (case de_pending d of
        Some h \<Rightarrow> Inr (h, d\<lparr>de_pending := None\<rparr>)
      | None \<Rightarrow> read_header read d)"

definition read_data ::
    "('s \<Rightarrow> nat \<Rightarrow> 'e + (byte list \<times> 's)) \<Rightarrow> 's decoder \<Rightarrow> nat \<Rightarrow> 'e io_failure + (byte list \<times> 's decoder)" where
  "read_data read d sz =
     (if MAX_DATA_LEN < sz then Inl (Other ''pxar: data section exceeds maximum length'')
      else and_then (read_exact read (de_input d) sz) (\<lambda>(buf, input'). Inr (buf, d\<lparr>de_input := input'\<rparr>)))"

function skip ::
    "('s \<Rightarrow> nat \<Rightarrow> 'e + (byte list \<times> 's)) \<Rightarrow> 's decoder \<Rightarrow> nat \<Rightarrow> 'e io_failure + 's decoder" where
  "skip read d len =
     (if len = 0 then Inr d
      else case read_exact read (de_input d) (min len SKIP_BUF_SIZE) of
             Inl e \<Rightarrow> Inl e
           | Inr (_, input') \<Rightarrow> skip read (d\<lparr>de_input := input'\<rparr>) (len - min len SKIP_BUF_SIZE))"
  by pat_completeness auto
termination
  by (relation "measure (\<lambda>(read, d, len). len)") (auto simp: SKIP_BUF_SIZE_def)

declare skip.simps [simp del]

definition read_metadata ::
    "('s \<Rightarrow> nat \<Rightarrow> 'e + (byte list \<times> 's)) \<Rightarrow> 's decoder \<Rightarrow> header \<Rightarrow> 'e io_failure + (stat \<times> 's decoder)" where
  "read_metadata read d h =
     and_then (content_size h) (\<lambda>csize.
     if csize \<noteq> STAT_SIZE then Inl (Other ''pxar: entry has an unexpected stat size'')
     else and_then (read_data read d STAT_SIZE) (\<lambda>(buf, d').
       and_then (u64_at buf 0) (\<lambda>mode.
       and_then (u64_at buf 8) (\<lambda>flags.
       and_then (u32_at buf 16) (\<lambda>uid.
       and_then (u32_at buf 20) (\<lambda>gid.
       and_then (u64_at buf 24) (\<lambda>s.
       and_then (u32_at buf 32) (\<lambda>ns.
       Inr (\<lparr>st_mode = mode, st_flags = flags, st_uid = uid, st_gid = gid,
             st_mtime = \<lparr>secs = as_i64 s, nanos = ns\<rparr>\<rparr>, d')))))))))"

definition set_path :: "'s decoder \<Rightarrow> byte list \<Rightarrow> 'e io_failure + 's decoder" where
  "set_path d name =
     (case de_path_lengths d of
        [] \<Rightarrow> Inl (Other ''pxar: path stack underflow'')
      | keep # _ \<Rightarrow> Inr (d\<lparr>de_path := path_join (take keep (de_path d)) name\<rparr>))"

definition read_root ::
    "('s \<Rightarrow> nat \<Rightarrow> 'e + (byte list \<times> 's)) \<Rightarrow> 's decoder \<Rightarrow> 'e io_failure + (entry \<times> 's decoder)" where
  "read_root read d =
     and_then (read_header read d) (\<lambda>(h, d1).
     if htype h \<noteq> PXAR_ENTRY then Inl (Other ''pxar: archive does not start with an entry'')
     else and_then (read_metadata read d1 h) (\<lambda>(md, d2).
       if \<not> stat_is_dir md then Inl (Other ''pxar: root entry is not a directory'')
       else Inr (\<lparr>e_path = [47], e_metadata = md, e_kind = EDirectory\<rparr>,
         d2\<lparr>de_path := [47], de_path_lengths := length [47 :: byte] # de_path_lengths d2, de_state := InDirectory\<rparr>)))"

text \<open>What follows the metadata of a named entry decides its kind.\<close>

definition read_entry_kind ::
    "('s \<Rightarrow> nat \<Rightarrow> 'e + (byte list \<times> 's)) \<Rightarrow> 's decoder \<Rightarrow> header \<Rightarrow> 'e io_failure + (entry_kind \<times> 's decoder)" where
  "read_entry_kind read d nxt =
     (if htype nxt = PXAR_PAYLOAD then
        and_then (content_size nxt) (\<lambda>sz. Inr (EFile sz None, d\<lparr>de_state := InPayload sz\<rparr>))
      else if htype nxt = PXAR_SYMLINK then
        and_then (content_size nxt) (\<lambda>sz.
        if MAX_SYMLINK_LEN < sz then Inl (Other ''pxar: symlink exceeds maximum length'')
        else and_then (read_data read d sz) (\<lambda>(data, d'). Inr (ESymlink data, d'\<lparr>de_state := InDirectory\<rparr>)))
      else if htype nxt = PXAR_FILENAME \<or> htype nxt = PXAR_GOODBYE then
        Inr (EDirectory, d\<lparr>de_pending := Some nxt, de_path_lengths := length (de_path d) # de_path_lengths d,
          de_state := InDirectory\<rparr>)
      else Inl (Other ''pxar: unsupported entry type''))"

definition read_named_entry ::
    "('s \<Rightarrow> nat \<Rightarrow> 'e + (byte list \<times> 's)) \<Rightarrow> 's decoder \<Rightarrow> header \<Rightarrow> 'e io_failure + (entry \<times> 's decoder)" where
  "read_named_entry read d filename_header =
     and_then (content_size filename_header) (\<lambda>filename_size.
     if MAX_FILENAME_LEN < filename_size then Inl (Other ''pxar: filename exceeds maximum length'')
     else and_then (read_data read d filename_size) (\<lambda>(raw, d1).
       if raw = [] \<or> last raw \<noteq> 0 then Inl (Other ''pxar: file name missing terminating zero'')
       else and_then (validate_filename (butlast raw)) (\<lambda>_.
         and_then (set_path d1 (butlast raw)) (\<lambda>d2.
         and_then (read_header read d2) (\<lambda>(h, d3).
         if htype h \<noteq> PXAR_ENTRY then Inl (Other ''pxar: filename not followed by an entry'')
         else and_then (read_metadata read d3 h) (\<lambda>(md, d4).
           and_then (read_header read d4) (\<lambda>(nxt, d5).
           and_then (read_entry_kind read d5 nxt) (\<lambda>(kind, d6).
           Inr (\<lparr>e_path = de_path d4, e_metadata = md, e_kind = kind\<rparr>, d6)))))))))"

text \<open>What is left of a file's content is skipped before the next header.\<close>

definition leave_payload ::
    "('s \<Rightarrow> nat \<Rightarrow> 'e + (byte list \<times> 's)) \<Rightarrow> 's decoder \<Rightarrow> 'e io_failure + 's decoder" where
  "leave_payload read d =
     (case de_state d of
        InPayload remaining \<Rightarrow> and_then (skip read d remaining) (\<lambda>d'. Inr (d'\<lparr>de_state := InDirectory\<rparr>))
      | _ \<Rightarrow> Inr d)"

lemma skip_lengths: "skip read d len = Inr d' \<Longrightarrow> de_path_lengths d' = de_path_lengths d"
proof (induction read d len rule: skip.induct)
  case (1 read d len)
  then show ?case by (auto simp: skip.simps [of read d len] split: if_splits sum.splits prod.splits)
qed

lemma leave_payload_lengths: "leave_payload read d = Inr d' \<Longrightarrow> de_path_lengths d' = de_path_lengths d"
  by (auto simp: leave_payload_def and_then_Inr dest: skip_lengths split: decoder_state.splits)

lemma take_header_lengths: "take_header read d = Inr (h, d') \<Longrightarrow> de_path_lengths d' = de_path_lengths d"
  by (auto simp: take_header_def read_header_def and_then_Inr Let_def split: option.splits prod.splits)

function next_do ::
    "('s \<Rightarrow> nat \<Rightarrow> 'e + (byte list \<times> 's)) \<Rightarrow> 's decoder \<Rightarrow> 'e io_failure + (entry option \<times> 's decoder)" where
  "next_do read d =
     (if de_state d = Eof then Inr (None, d)
      else if de_state d = Begin then and_then (read_root read d) (\<lambda>(en, d'). Inr (Some en, d'))
      else case leave_payload read d of
        Inl e \<Rightarrow> Inl e
      | Inr d1 \<Rightarrow>
          (case take_header read d1 of
             Inl e \<Rightarrow> Inl e
           | Inr (h, d2) \<Rightarrow>
               if htype h = PXAR_FILENAME then and_then (read_named_entry read d2 h) (\<lambda>(en, d'). Inr (Some en, d'))
               else if htype h = PXAR_GOODBYE then
                 (case and_then (content_size h) (skip read d2) of
                    Inl e \<Rightarrow> Inl e
                  | Inr d3 \<Rightarrow>
                      (case de_path_lengths d3 of
                         [] \<Rightarrow> Inl (Other ''pxar: goodbye table without open directory'')
                       | _ # rest \<Rightarrow>
                           if rest = [] then Inr (None, d3\<lparr>de_path_lengths := [], de_state := Eof\<rparr>)
                           else next_do read (d3\<lparr>de_path_lengths := rest\<rparr>)))
               else Inl (Other ''pxar: expected filename or goodbye in directory'')))"
  by pat_completeness auto
termination
  by (relation "measure (\<lambda>(read, d). length (de_path_lengths d))")
    (auto simp: and_then_Inr dest!: skip_lengths take_header_lengths leave_payload_lengths)

declare next_do.simps [simp del]

text \<open>The content of the current file, as a reader of its own.\<close>

definition contents_read ::
    "('s \<Rightarrow> nat \<Rightarrow> 'e + (byte list \<times> 's)) \<Rightarrow> 's decoder \<Rightarrow> nat \<Rightarrow> 'e + (byte list \<times> 's decoder)" where
  "contents_read read d n =
     (case de_state d of
        InPayload remaining \<Rightarrow>
          if remaining = 0 \<or> n = 0 then Inr ([], d)
          else (case read (de_input d) (min remaining n) of
                  Inl e \<Rightarrow> Inl e
                | Inr (got, input') \<Rightarrow>
                    Inr (got, d\<lparr>de_input := input', de_state := InPayload (wrapping_sub remaining (length got))\<rparr>))
      | _ \<Rightarrow> Inr ([], d))"


section \<open>Reading single blocks\<close>

lemma u64_at_bytes:
  "length pre = at \<Longrightarrow> n \<le> u64_max \<Longrightarrow> u64_at (pre @ to_le_bytes 8 n @ post) at = Inr n"
  by (simp add: u64_at_def read_u64_def get_range_append)

lemma u32_at_bytes:
  "length pre = at \<Longrightarrow> n < 2 ^ 32 \<Longrightarrow> u32_at (pre @ to_le_bytes 4 n @ post) at = Inr n"
  by (simp add: u32_at_def get_range_append from_to_u32)

definition stat_ok :: "stat \<Rightarrow> bool" where
  "stat_ok st \<longleftrightarrow> st_mode st \<le> u64_max \<and> st_flags st \<le> u64_max \<and> st_uid st < 2 ^ 32 \<and> st_gid st < 2 ^ 32 \<and>
     is_i64 (secs (st_mtime st)) \<and> nanos (st_mtime st) < 2 ^ 32"

lemma as_i64_as_u64: "is_i64 x \<Longrightarrow> as_i64 (as_u64 x) = x"
proof -
  assume x: "is_i64 x"
  have "(x mod 2 ^ 64 + 2 ^ 63) mod 2 ^ 64 = (x + 2 ^ 63) mod 2 ^ 64" by (simp add: mod_add_left_eq)
  then show ?thesis using wrap_i64_exact [OF x] by (simp add: as_i64_def as_u64_def wrap_i64_def)
qed

lemma as_u64_bound: "as_u64 x \<le> u64_max"
proof -
  have "x mod 2 ^ 64 < 2 ^ 64" by simp
  then show ?thesis by (simp add: as_u64_def u64_max_def nat_le_iff)
qed

lemma hdr_fields:
  "ty \<le> u64_max \<Longrightarrow> u64_at (hdr ty csize) 0 = Inr ty"
  "csize + 16 \<le> u64_max \<Longrightarrow> u64_at (hdr ty csize) 8 = Inr (csize + 16)"
  using u64_at_bytes [of "[]" 0 ty] u64_at_bytes [of "to_le_bytes 8 ty" 8 "csize + 16" "[]"]
  by (simp_all add: hdr_def)

lemma stat_fields:
  assumes "stat_ok st"
  shows "u64_at (stat_bytes st) 0 = Inr (st_mode st)" "u64_at (stat_bytes st) 8 = Inr (st_flags st)"
    "u32_at (stat_bytes st) 16 = Inr (st_uid st)" "u32_at (stat_bytes st) 20 = Inr (st_gid st)"
    "u64_at (stat_bytes st) 24 = Inr (as_u64 (secs (st_mtime st)))"
    "u32_at (stat_bytes st) 32 = Inr (nanos (st_mtime st))"
proof -
  let ?m = "to_le_bytes 8 (st_mode st)" and ?f = "to_le_bytes 8 (st_flags st)" and ?u = "to_le_bytes 4 (st_uid st)"
    and ?g = "to_le_bytes 4 (st_gid st)" and ?s = "to_le_bytes 8 (as_u64 (secs (st_mtime st)))"
  show "u64_at (stat_bytes st) 0 = Inr (st_mode st)" "u64_at (stat_bytes st) 8 = Inr (st_flags st)"
    "u32_at (stat_bytes st) 16 = Inr (st_uid st)" "u32_at (stat_bytes st) 20 = Inr (st_gid st)"
    "u64_at (stat_bytes st) 24 = Inr (as_u64 (secs (st_mtime st)))"
    "u32_at (stat_bytes st) 32 = Inr (nanos (st_mtime st))"
    using assms
    by (simp_all add: stat_bytes_def stat_ok_def as_u64_bound u64_at_bytes [of "[]" 0, simplified]
        u64_at_bytes [of ?m 8, simplified] u32_at_bytes [of "?m @ ?f" 16, simplified]
        u32_at_bytes [of "?m @ ?f @ ?u" 20, simplified] u64_at_bytes [of "?m @ ?f @ ?u @ ?g" 24, simplified]
        u32_at_bytes [of "?m @ ?f @ ?u @ ?g @ ?s" 32, simplified])
qed

lemma content_size_exact: "content_size \<lparr>htype = ty, full_size = csize + 16\<rparr> = Inr csize"
  by (simp add: content_size_def checked_sub_def HEADER_SIZE_def)

context reader
begin

lemma read_exact_front:
  assumes "live s" and "content s = bs @ rest"
  obtains s' where "read_exact read s (length bs) = Inr (bs, s')" "live s'" "content s' = rest"
  using read_exact_law [OF assms(1), of "length bs"] assms(2) that by auto

lemma read_header_front:
  assumes "live (de_input d)" and "content (de_input d) = hdr ty csize @ rest"
    and "ty \<le> u64_max" and "csize + 16 \<le> u64_max"
  obtains s' where "read_header read d = Inr (\<lparr>htype = ty, full_size = csize + 16\<rparr>, d\<lparr>de_input := s'\<rparr>)"
    "live s'" "content s' = rest"
proof -
  obtain s' where s': "read_exact read (de_input d) 16 = Inr (hdr ty csize, s')" "live s'" "content s' = rest"
    using read_exact_front [OF assms(1,2)] by (metis length_hdr)
  have "read_header read d = Inr (\<lparr>htype = ty, full_size = csize + 16\<rparr>, d\<lparr>de_input := s'\<rparr>)"
    using s'(1) assms(3,4) by (simp add: read_header_def hdr_fields content_size_exact Let_def)
  with s' that show ?thesis by blast
qed

lemma read_data_front:
  assumes "live (de_input d)" and "content (de_input d) = bs @ rest" and "length bs \<le> MAX_DATA_LEN"
  obtains s' where "read_data read d (length bs) = Inr (bs, d\<lparr>de_input := s'\<rparr>)" "live s'" "content s' = rest"
proof -
  obtain s' where "read_exact read (de_input d) (length bs) = Inr (bs, s')" "live s'" "content s' = rest"
    by (rule read_exact_front [OF assms(1,2)])
  then show ?thesis using assms(3) by (intro that [of s']) (simp_all add: read_data_def)
qed

lemma read_metadata_front:
  assumes "live (de_input d)" and "content (de_input d) = stat_bytes st @ rest" and "stat_ok st"
  obtains s' where "read_metadata read d \<lparr>htype = ty, full_size = 40 + 16\<rparr> = Inr (st, d\<lparr>de_input := s'\<rparr>)"
    "live s'" "content s' = rest"
proof -
  obtain s' where s': "read_data read d 40 = Inr (stat_bytes st, d\<lparr>de_input := s'\<rparr>)" "live s'" "content s' = rest"
    by (rule read_data_front [OF assms(1,2), unfolded length_stat_bytes]) (simp add: MAX_DATA_LEN_def)
  have "read_metadata read d \<lparr>htype = ty, full_size = 40 + 16\<rparr> = Inr (st, d\<lparr>de_input := s'\<rparr>)"
    using s'(1) assms(3) unfolding read_metadata_def content_size_exact
    by (simp add: stat_fields STAT_SIZE_def as_i64_as_u64 stat_ok_def)
  with s' that show ?thesis by blast
qed

lemma skip_front:
  "live (de_input d) \<Longrightarrow> len \<le> length (content (de_input d)) \<Longrightarrow>
     \<exists>s'. skip read d len = Inr (d\<lparr>de_input := s'\<rparr>) \<and> live s' \<and> content s' = drop len (content (de_input d))"
proof (induction len arbitrary: d rule: less_induct)
  case (less len)
  show ?case
  proof (cases "len = 0")
    case True
    with less.prems show ?thesis by (intro exI [of _ "de_input d"]) (simp add: skip.simps)
  next
    case False
    let ?m = "min len SKIP_BUF_SIZE"
    have m: "0 < ?m" "?m \<le> len" using False by (auto simp: SKIP_BUF_SIZE_def)
    have "?m \<le> length (content (de_input d))" using less.prems(2) m(2) by linarith
    then obtain s1 where s1: "read_exact read (de_input d) ?m = Inr (take ?m (content (de_input d)), s1)"
      "live s1" "content s1 = drop ?m (content (de_input d))"
      using read_exact_law [OF less.prems(1), of ?m] by (auto simp del: take_take)
    have "len - ?m < len" "len - ?m \<le> length (content (de_input (d\<lparr>de_input := s1\<rparr>)))"
      using m s1(3) less.prems(2) by auto
    from less.IH [OF this(1) _ this(2)] s1 obtain s2 where
      "skip read (d\<lparr>de_input := s1\<rparr>) (len - ?m) = Inr (d\<lparr>de_input := s2\<rparr>)" "live s2"
      "content s2 = drop (len - ?m) (content s1)" by auto
    with s1 m False show ?thesis by (intro exI [of _ s2]) (simp add: skip.simps [of read d len])
  qed
qed

end

section \<open>Standing before a block\<close>

text \<open>The paths of the open directories, each the beginning of the one inside it.\<close>

fun chain :: "byte list \<Rightarrow> byte list list \<Rightarrow> bool" where
  "chain path [] \<longleftrightarrow> True"
| "chain path (b # bs) \<longleftrightarrow> b \<noteq> [] \<and> take (length b) path = b \<and> chain b bs"

lemma chain_longer: "chain path bs \<Longrightarrow> chain (path @ xs) bs"
proof (cases bs)
  case (Cons b rest)
  assume "chain path bs"
  with Cons have "take (length b) path = b" "b \<noteq> []" "chain b rest" by simp_all
  moreover from this(1) have "length b \<le> length path" by (metis length_take min.cobounded1)
  ultimately show ?thesis using Cons by simp
qed simp

lemma path_join_valid:
  "base \<noteq> [] \<Longrightarrow> valid_name name \<Longrightarrow> \<exists>xs. path_join base name = base @ xs"
  by (cases name) (auto simp: path_join_def valid_name_def)

lemma chain_join: "base \<noteq> [] \<Longrightarrow> valid_name name \<Longrightarrow> chain base bs \<Longrightarrow> chain (path_join base name) bs"
  using path_join_valid [of base name] chain_longer by fastforce

lemma chain_pop: "chain path (b # bs) \<Longrightarrow> chain path bs"
proof -
  assume "chain path (b # bs)"
  then have "path = b @ drop (length b) path" "chain b bs" by (auto, metis append_take_drop_id)
  then show ?thesis by (metis chain_longer)
qed

lemma pxar_bounds:
  "PXAR_ENTRY \<le> u64_max" "PXAR_FILENAME \<le> u64_max" "PXAR_SYMLINK \<le> u64_max" "PXAR_PAYLOAD \<le> u64_max"
  "PXAR_GOODBYE \<le> u64_max"
  by (simp_all add: pxar_types u64_max_def)

lemma pxar_distinct:
  "PXAR_PAYLOAD \<noteq> PXAR_SYMLINK" "PXAR_FILENAME \<noteq> PXAR_PAYLOAD" "PXAR_FILENAME \<noteq> PXAR_SYMLINK"
  "PXAR_GOODBYE \<noteq> PXAR_PAYLOAD" "PXAR_GOODBYE \<noteq> PXAR_SYMLINK" "PXAR_GOODBYE \<noteq> PXAR_FILENAME"
  by (simp_all add: pxar_types)

lemma hdr_inject:
  assumes "hdr ty csize @ xs = hdr ty' csize' @ ys" and "ty \<le> u64_max" "ty' \<le> u64_max"
    and "csize + 16 \<le> u64_max" "csize' + 16 \<le> u64_max"
  shows "ty' = ty" "csize' = csize" "ys = xs"
proof -
  from assms(1) have e: "to_le_bytes 8 ty = to_le_bytes 8 ty'" "to_le_bytes 8 (csize + 16) = to_le_bytes 8 (csize' + 16)"
    and "xs = ys"
    by (simp_all add: hdr_def)
  then show "ys = xs" by simp
  show "ty' = ty" using e(1) from_to_u64 [OF assms(2)] from_to_u64 [OF assms(3)] by metis
  show "csize' = csize" using e(2) from_to_u64 [OF assms(4)] from_to_u64 [OF assms(5)] by (metis add_right_cancel)
qed

context reader
begin

definition standing :: "'s decoder \<Rightarrow> byte list list \<Rightarrow> byte list \<Rightarrow> bool" where
  "standing d bases bs \<longleftrightarrow> live (de_input d) \<and> de_path_lengths d = map length bases \<and> chain (de_path d) bases \<and>
     (case de_state d of
        InDirectory \<Rightarrow>
          (case de_pending d of
             None \<Rightarrow> content (de_input d) = bs
           | Some h \<Rightarrow> htype h \<le> u64_max \<and> full_size h \<le> u64_max \<and>
               (\<exists>csize. full_size h = csize + 16 \<and> bs = hdr (htype h) csize @ content (de_input d)))
      | InPayload r \<Rightarrow> de_pending d = None \<and> r \<le> length (content (de_input d)) \<and> bs = drop r (content (de_input d))
      | _ \<Rightarrow> False)"

lemma next_header:
  assumes "standing d bases (hdr ty csize @ rest)" and "ty \<le> u64_max" and "csize + 16 \<le> u64_max"
  obtains d1 s' where "leave_payload read d = Inr d1"
    "take_header read d1 = Inr (\<lparr>htype = ty, full_size = csize + 16\<rparr>,
       d\<lparr>de_input := s', de_pending := None, de_state := InDirectory\<rparr>)"
    "live s'" "content s' = rest"
proof (cases "de_state d")
  case InDirectory
  then have lp: "leave_payload read d = Inr d" by (simp add: leave_payload_def)
  show ?thesis
  proof (cases "de_pending d")
    case None
    then have "live (de_input d)" "content (de_input d) = hdr ty csize @ rest"
      using assms(1) InDirectory by (auto simp: standing_def)
    from read_header_front [OF this assms(2,3)] obtain s' where
      "read_header read d = Inr (\<lparr>htype = ty, full_size = csize + 16\<rparr>, d\<lparr>de_input := s'\<rparr>)" "live s'" "content s' = rest" .
    moreover have "d\<lparr>de_input := s'\<rparr> = d\<lparr>de_input := s', de_pending := None, de_state := InDirectory\<rparr>"
      using None InDirectory by (cases d) simp
    ultimately show ?thesis using lp None by (intro that [of d s']) (simp_all add: take_header_def)
  next
    case (Some h)
    with assms(1) InDirectory obtain c where c: "htype h \<le> u64_max" "full_size h = c + 16" "c + 16 \<le> u64_max"
      "hdr ty csize @ rest = hdr (htype h) c @ content (de_input d)" "live (de_input d)"
      by (auto simp: standing_def)
    from hdr_inject [OF c(4) assms(2) c(1) assms(3) c(3)] have "htype h = ty" "c = csize" "content (de_input d) = rest" .
    then have "h = \<lparr>htype = ty, full_size = csize + 16\<rparr>" using c(2) by (cases h) simp
    moreover have "d\<lparr>de_pending := None\<rparr> = d\<lparr>de_input := de_input d, de_pending := None, de_state := InDirectory\<rparr>"
      using InDirectory by (cases d) simp
    ultimately show ?thesis
      using lp Some c(5) \<open>content (de_input d) = rest\<close>
      by (intro that [of d "de_input d"]) (simp_all add: take_header_def)
  qed
next
  case (InPayload r)
  with assms(1) have st: "live (de_input d)" "de_pending d = None" "r \<le> length (content (de_input d))"
    "hdr ty csize @ rest = drop r (content (de_input d))"
    by (auto simp: standing_def)
  obtain s1 where s1: "skip read d r = Inr (d\<lparr>de_input := s1\<rparr>)" "live s1" "content s1 = drop r (content (de_input d))"
    using skip_front [OF st(1,3)] by blast
  let ?d = "d\<lparr>de_input := s1, de_state := InDirectory\<rparr>"
  have "live (de_input ?d)" "content (de_input ?d) = hdr ty csize @ rest" using s1(2,3) st(4) by simp_all
  from read_header_front [OF this assms(2,3)] obtain s' where
    "read_header read ?d = Inr (\<lparr>htype = ty, full_size = csize + 16\<rparr>, ?d\<lparr>de_input := s'\<rparr>)" "live s'" "content s' = rest" .
  moreover have "?d\<lparr>de_input := s'\<rparr> = d\<lparr>de_input := s', de_pending := None, de_state := InDirectory\<rparr>"
    using st(2) by (cases d) simp
  ultimately show ?thesis
    using InPayload s1(1) st(2) by (intro that [of ?d s']) (simp_all add: leave_payload_def take_header_def)
qed (use assms(1) in \<open>auto simp: standing_def\<close>)

lemma named_entry:
  assumes "live (de_input d)" and "content (de_input d) = name @ [0] @ meta_bytes st @ hdr ty csize @ rest"
    and "valid_name name" "length name < 256" and "stat_ok st" and "ty \<le> u64_max" "csize + 16 \<le> u64_max"
    and "de_path_lengths d = length base # ls" "take (length base) (de_path d) = base"
  obtains s' where "live s'" "content s' = rest"
    "read_named_entry read d \<lparr>htype = PXAR_FILENAME, full_size = (length name + 1) + 16\<rparr> =
       and_then (read_entry_kind read (d\<lparr>de_path := path_join base name, de_input := s'\<rparr>) \<lparr>htype = ty, full_size = csize + 16\<rparr>)
         (\<lambda>(kind, d6). Inr (\<lparr>e_path = path_join base name, e_metadata = st, e_kind = kind\<rparr>, d6))"
proof -
  let ?d = "\<lambda>s. d\<lparr>de_path := path_join base name, de_input := s\<rparr>"
  have c: "content (de_input d) = (name @ [0]) @ hdr PXAR_ENTRY 40 @ stat_bytes st @ hdr ty csize @ rest"
    using assms(2) by (simp add: meta_bytes_def)
  obtain s1 where s1: "read_data read d (length (name @ [0])) = Inr (name @ [0], d\<lparr>de_input := s1\<rparr>)" "live s1"
    "content s1 = hdr PXAR_ENTRY 40 @ stat_bytes st @ hdr ty csize @ rest"
    by (rule read_data_front [OF assms(1) c]) (use assms(4) in \<open>simp add: MAX_DATA_LEN_def\<close>)
  have "live (de_input (?d s1))" "content (de_input (?d s1)) = hdr PXAR_ENTRY 40 @ stat_bytes st @ hdr ty csize @ rest"
    using s1(2,3) by simp_all
  then obtain s2 where s2: "read_header read (?d s1) = Inr (\<lparr>htype = PXAR_ENTRY, full_size = 40 + 16\<rparr>, (?d s1)\<lparr>de_input := s2\<rparr>)"
    "live s2" "content s2 = stat_bytes st @ hdr ty csize @ rest"
    by (rule read_header_front [OF _ _ pxar_bounds(1)]) (simp_all add: u64_max_def)
  have "live (de_input (?d s2))" "content (de_input (?d s2)) = stat_bytes st @ hdr ty csize @ rest"
    using s2(2,3) by simp_all
  then obtain s3 where s3: "read_metadata read (?d s2) \<lparr>htype = PXAR_ENTRY, full_size = 40 + 16\<rparr> = Inr (st, (?d s2)\<lparr>de_input := s3\<rparr>)"
    "live s3" "content s3 = hdr ty csize @ rest"
    by (rule read_metadata_front [OF _ _ assms(5)])
  have "live (de_input (?d s3))" "content (de_input (?d s3)) = hdr ty csize @ rest"
    using s3(2,3) by simp_all
  then obtain s4 where s4: "read_header read (?d s3) = Inr (\<lparr>htype = ty, full_size = csize + 16\<rparr>, (?d s3)\<lparr>de_input := s4\<rparr>)"
    "live s4" "content s4 = rest"
    by (rule read_header_front [OF _ _ assms(6,7)])
  have "(set_path (d\<lparr>de_input := s1\<rparr>) name :: 'e io_failure + 's decoder) = Inr (?d s1)" using assms(8,9)
    by (cases d) (simp add: set_path_def)
  with s1(1) s2(1) s3(1) s4(1) assms(3,4) have
    "read_named_entry read d \<lparr>htype = PXAR_FILENAME, full_size = (length name + 1) + 16\<rparr> =
       and_then (read_entry_kind read (?d s4) \<lparr>htype = ty, full_size = csize + 16\<rparr>)
         (\<lambda>(kind, d6). Inr (\<lparr>e_path = path_join base name, e_metadata = st, e_kind = kind\<rparr>, d6))"
    unfolding read_named_entry_def content_size_exact and_then_simps
    by (simp add: MAX_FILENAME_LEN_def)
  with s4(2,3) that show ?thesis by blast
qed

lemma next_named:
  assumes "standing d (base # bases) (name_bytes name @ meta_bytes st @ hdr ty csize @ rest)"
    and "valid_name name" "length name < 256" and "stat_ok st" and "ty \<le> u64_max" "csize + 16 \<le> u64_max"
  obtains s' d' where "live s'" "content s' = rest"
    "d' = d\<lparr>de_input := s', de_path := path_join base name, de_pending := None, de_state := InDirectory\<rparr>"
    "next_do read d =
       and_then (read_entry_kind read d' \<lparr>htype = ty, full_size = csize + 16\<rparr>)
         (\<lambda>(kind, d6). Inr (Some \<lparr>e_path = path_join base name, e_metadata = st, e_kind = kind\<rparr>, d6))"
proof -
  have "standing d (base # bases) (hdr PXAR_FILENAME (length name + 1) @ (name @ [0] @ meta_bytes st @ hdr ty csize @ rest))"
    using assms(1) by (simp add: name_bytes_def)
  then obtain d1 s where s: "leave_payload read d = Inr d1"
    "take_header read d1 = Inr (\<lparr>htype = PXAR_FILENAME, full_size = (length name + 1) + 16\<rparr>,
       d\<lparr>de_input := s, de_pending := None, de_state := InDirectory\<rparr>)"
    "live s" "content s = name @ [0] @ meta_bytes st @ hdr ty csize @ rest"
    by (rule next_header) (use assms(3) in \<open>simp_all add: pxar_bounds, simp add: u64_max_def\<close>)
  let ?d = "d\<lparr>de_input := s, de_pending := None, de_state := InDirectory\<rparr>"
  have st: "de_state d \<noteq> Eof" "de_state d \<noteq> Begin" "de_path_lengths ?d = length base # map length bases"
    "take (length base) (de_path ?d) = base"
    using assms(1) by (auto simp: standing_def)
  obtain s' where s': "live s'" "content s' = rest"
    "read_named_entry read ?d \<lparr>htype = PXAR_FILENAME, full_size = (length name + 1) + 16\<rparr> =
       and_then (read_entry_kind read (?d\<lparr>de_path := path_join base name, de_input := s'\<rparr>) \<lparr>htype = ty, full_size = csize + 16\<rparr>)
         (\<lambda>(kind, d6). Inr (\<lparr>e_path = path_join base name, e_metadata = st, e_kind = kind\<rparr>, d6))"
    by (rule named_entry [of ?d name st ty csize rest base]) (use s(3,4) st(3,4) assms(2-) in simp_all)
  have "next_do read d = and_then (read_named_entry read ?d \<lparr>htype = PXAR_FILENAME, full_size = (length name + 1) + 16\<rparr>)
      (\<lambda>(en, d'). Inr (Some en, d'))"
    using s(1,2) st(1,2) by (simp add: next_do.simps [of read d])
  then show ?thesis
    using s'
    by (intro that [of s' "?d\<lparr>de_path := path_join base name, de_input := s'\<rparr>"])
      (auto simp: and_then_def split: sum.splits)
qed

lemma next_file:
  assumes "standing d (base # bases) (pbytes sip pos (PFile name st data) @ rest)"
    and "valid_name name" "length name < 256" and "stat_ok st" and "length data + 16 \<le> u64_max"
  obtains d' where "next_do read d =
      Inr (Some \<lparr>e_path = path_join base name, e_metadata = st, e_kind = EFile (length data) None\<rparr>, d')"
    "standing d' (base # bases) rest" "de_state d' = InPayload (length data)" "content (de_input d') = data @ rest"
proof -
  have "standing d (base # bases) (name_bytes name @ meta_bytes st @ hdr PXAR_PAYLOAD (length data) @ (data @ rest))"
    using assms(1) by simp
  from next_named [OF this assms(2-4) pxar_bounds(4) assms(5)] obtain s' d' where n: "live s'" "content s' = data @ rest"
    "d' = d\<lparr>de_input := s', de_path := path_join base name, de_pending := None, de_state := InDirectory\<rparr>"
    "next_do read d =
       and_then (read_entry_kind read d' \<lparr>htype = PXAR_PAYLOAD, full_size = length data + 16\<rparr>)
         (\<lambda>(kind, d6). Inr (Some \<lparr>e_path = path_join base name, e_metadata = st, e_kind = kind\<rparr>, d6))"
    by metis
  have "base \<noteq> []" "chain base bases" using assms(1) by (auto simp: standing_def)
  then have "chain (path_join base name) (base # bases)"
    using path_join_valid [OF _ assms(2)] chain_join [OF _ assms(2)] by fastforce
  with assms(1) n(1-3) have "standing (d'\<lparr>de_state := InPayload (length data)\<rparr>) (base # bases) rest"
    by (auto simp: standing_def)
  then show ?thesis
    using n by (intro that [of "d'\<lparr>de_state := InPayload (length data)\<rparr>"])
      (simp_all add: read_entry_kind_def content_size_exact)
qed

lemma next_link:
  assumes "standing d (base # bases) (pbytes sip pos (PLink name st tgt) @ rest)"
    and "valid_name name" "length name < 256" and "stat_ok st" and "length tgt < 4096"
  obtains d' where "next_do read d =
      Inr (Some \<lparr>e_path = path_join base name, e_metadata = st, e_kind = ESymlink (tgt @ [0])\<rparr>, d')"
    "standing d' (base # bases) rest" "de_state d' = InDirectory"
proof -
  have b: "length tgt + 1 + 16 \<le> u64_max" using assms(5) by (simp add: u64_max_def)
  have "standing d (base # bases) (name_bytes name @ meta_bytes st @ hdr PXAR_SYMLINK (length tgt + 1) @ ((tgt @ [0]) @ rest))"
    using assms(1) by simp
  from next_named [OF this assms(2-4) pxar_bounds(3) b] obtain s' d' where n: "live s'" "content s' = (tgt @ [0]) @ rest"
    "d' = d\<lparr>de_input := s', de_path := path_join base name, de_pending := None, de_state := InDirectory\<rparr>"
    "next_do read d =
       and_then (read_entry_kind read d' \<lparr>htype = PXAR_SYMLINK, full_size = length tgt + 1 + 16\<rparr>)
         (\<lambda>(kind, d6). Inr (Some \<lparr>e_path = path_join base name, e_metadata = st, e_kind = kind\<rparr>, d6))"
    by metis
  have "live (de_input d')" "content (de_input d') = (tgt @ [0]) @ rest" using n by simp_all
  then obtain s2 where s2: "read_data read d' (length (tgt @ [0])) = Inr (tgt @ [0], d'\<lparr>de_input := s2\<rparr>)" "live s2" "content s2 = rest"
    by (rule read_data_front) (use assms(5) in \<open>simp add: MAX_DATA_LEN_def\<close>)
  have "base \<noteq> []" "chain base bases" using assms(1) by (auto simp: standing_def)
  then have "chain (path_join base name) (base # bases)"
    using path_join_valid [OF _ assms(2)] chain_join [OF _ assms(2)] by fastforce
  with assms(1) n(3) s2 have "standing (d'\<lparr>de_input := s2, de_state := InDirectory\<rparr>) (base # bases) rest"
    by (auto simp: standing_def)
  then show ?thesis
    using n(4) s2(1) assms(5) pxar_distinct(1)
    by (intro that [of "d'\<lparr>de_input := s2, de_state := InDirectory\<rparr>"])
      (simp_all add: read_entry_kind_def content_size_exact [of _ "length tgt + 1", simplified] MAX_SYMLINK_LEN_def)
qed

lemma next_dir:
  assumes "standing d (base # bases) (name_bytes name @ meta_bytes st @ hdr ty csize @ rest)"
    and "valid_name name" "length name < 256" and "stat_ok st" and "ty = PXAR_FILENAME \<or> ty = PXAR_GOODBYE"
    and "csize + 16 \<le> u64_max"
  obtains d' where "next_do read d =
      Inr (Some \<lparr>e_path = path_join base name, e_metadata = st, e_kind = EDirectory\<rparr>, d')"
    "standing d' (path_join base name # base # bases) (hdr ty csize @ rest)" "de_state d' = InDirectory"
proof -
  have ty: "ty \<le> u64_max" "ty \<noteq> PXAR_PAYLOAD" "ty \<noteq> PXAR_SYMLINK" using assms(5) pxar_bounds pxar_distinct by metis+
  from next_named [OF assms(1-4) ty(1) assms(6)] obtain s' d' where n: "live s'" "content s' = rest"
    "d' = d\<lparr>de_input := s', de_path := path_join base name, de_pending := None, de_state := InDirectory\<rparr>"
    "next_do read d =
       and_then (read_entry_kind read d' \<lparr>htype = ty, full_size = csize + 16\<rparr>)
         (\<lambda>(kind, d6). Inr (Some \<lparr>e_path = path_join base name, e_metadata = st, e_kind = kind\<rparr>, d6))"
    by metis
  let ?d = "d'\<lparr>de_pending := Some \<lparr>htype = ty, full_size = csize + 16\<rparr>,
    de_path_lengths := length (de_path d') # de_path_lengths d', de_state := InDirectory\<rparr>"
  have "base \<noteq> []" "chain base bases" using assms(1) by (auto simp: standing_def)
  then have "chain (path_join base name) (path_join base name # base # bases)"
    using path_join_valid [OF _ assms(2)] chain_join [OF _ assms(2)] by fastforce
  with assms(1,6) n(1-3) ty(1) have "standing ?d (path_join base name # base # bases) (hdr ty csize @ rest)"
    by (auto simp: standing_def)
  then show ?thesis
    using n(4) ty assms(5) by (intro that [of ?d]) (auto simp: read_entry_kind_def)
qed

text \<open>A goodbye table is skipped; the loop goes on in the parent or ends with the root.\<close>

lemma goodbye_front:
  assumes "standing d bases (hdr PXAR_GOODBYE (length tbl) @ tbl @ rest)" and "length tbl + 16 \<le> u64_max"
  obtains d1 h d2 s' where "leave_payload read d = Inr d1" "take_header read d1 = Inr (h, d2)" "htype h = PXAR_GOODBYE"
    "and_then (content_size h) (skip read d2) =
       Inr (d\<lparr>de_input := s', de_pending := None, de_state := InDirectory\<rparr>)" "live s'" "content s' = rest"
proof -
  obtain d1 s where s: "leave_payload read d = Inr d1"
    "take_header read d1 = Inr (\<lparr>htype = PXAR_GOODBYE, full_size = length tbl + 16\<rparr>,
       d\<lparr>de_input := s, de_pending := None, de_state := InDirectory\<rparr>)" "live s" "content s = tbl @ rest"
    by (rule next_header [OF assms(1) pxar_bounds(5) assms(2)])
  let ?d = "d\<lparr>de_input := s, de_pending := None, de_state := InDirectory\<rparr>"
  obtain s' where "skip read ?d (length tbl) = Inr (?d\<lparr>de_input := s'\<rparr>)" "live s'" "content s' = rest"
    using skip_front [of ?d "length tbl"] s(3,4) by auto
  then show ?thesis
    using s(1,2) by (intro that [of d1 "\<lparr>htype = PXAR_GOODBYE, full_size = length tbl + 16\<rparr>" ?d s'])
      (simp_all add: content_size_exact)
qed

lemma next_goodbye:
  assumes "standing d (b # base # bases) (hdr PXAR_GOODBYE (length tbl) @ tbl @ rest)" and "length tbl + 16 \<le> u64_max"
  obtains d' where "next_do read d = next_do read d'" "standing d' (base # bases) rest"
proof -
  obtain d1 h d2 s' where g: "leave_payload read d = Inr d1" "take_header read d1 = Inr (h, d2)" "htype h = PXAR_GOODBYE"
    "and_then (content_size h) (skip read d2) =
       Inr (d\<lparr>de_input := s', de_pending := None, de_state := InDirectory\<rparr>)" "live s'" "content s' = rest"
    by (rule goodbye_front [OF assms])
  let ?d = "d\<lparr>de_input := s', de_pending := None, de_state := InDirectory, de_path_lengths := map length (base # bases)\<rparr>"
  have "chain (de_path d) (b # base # bases)" using assms(1) by (simp add: standing_def)
  from chain_pop [OF this] have st: "de_state d \<noteq> Eof" "de_state d \<noteq> Begin"
    "de_path_lengths d = length b # map length (base # bases)" "chain (de_path d) (base # bases)"
    using assms(1) by (auto simp: standing_def)
  have "next_do read d = next_do read ?d"
    using g(1-4) st(1-3) pxar_distinct(6) by (simp add: next_do.simps [of read d])
  moreover have "standing ?d (base # bases) rest" using g(5,6) st(4) by (simp add: standing_def)
  ultimately show ?thesis by (rule that)
qed

lemma next_end:
  assumes "standing d [b] (hdr PXAR_GOODBYE (length tbl) @ tbl @ rest)" and "length tbl + 16 \<le> u64_max"
  shows "\<exists>d'. next_do read d = Inr (None, d')"
proof -
  obtain d1 h d2 s' where g: "leave_payload read d = Inr d1" "take_header read d1 = Inr (h, d2)" "htype h = PXAR_GOODBYE"
    "and_then (content_size h) (skip read d2) =
       Inr (d\<lparr>de_input := s', de_pending := None, de_state := InDirectory\<rparr>)" "live s'" "content s' = rest"
    by (rule goodbye_front [OF assms])
  have "de_state d \<noteq> Eof" "de_state d \<noteq> Begin" "de_path_lengths d = [length b]"
    using assms(1) by (auto simp: standing_def)
  with g(1-4) pxar_distinct(6) show ?thesis by (simp add: next_do.simps [of read d])
qed

text \<open>The content of the current file is a reader; reading it leaves the decoder before the same block.\<close>

definition payload :: "'s decoder \<Rightarrow> byte list" where
  "payload d = (case de_state d of InPayload r \<Rightarrow> take r (content (de_input d)) | _ \<Rightarrow> [])"

definition in_payload :: "byte list list \<Rightarrow> byte list \<Rightarrow> 's decoder \<Rightarrow> bool" where
  "in_payload bases bs d \<longleftrightarrow> standing d bases bs \<and> (\<exists>r \<le> u64_max. de_state d = InPayload r)"

lemma contents_reader: "reader (contents_read read) payload (in_payload bases bs)"
proof
  fix d :: "'s decoder" and n
  assume "in_payload bases bs d"
  then obtain r where r: "r \<le> u64_max" "de_state d = InPayload r" "live (de_input d)" "de_pending d = None"
    "r \<le> length (content (de_input d))" "bs = drop r (content (de_input d))"
    "de_path_lengths d = map length bases" "chain (de_path d) bases"
    by (auto simp: in_payload_def standing_def)
  show "\<exists>got d'. contents_read read d n = Inr (got, d') \<and> in_payload bases bs d' \<and> payload d = got @ payload d' \<and>
      length got \<le> n \<and> (0 < n \<longrightarrow> payload d \<noteq> [] \<longrightarrow> got \<noteq> [])"
  proof (cases "r = 0 \<or> n = 0")
    case True
    with r \<open>in_payload bases bs d\<close> show ?thesis by (auto simp: contents_read_def payload_def)
  next
    case False
    let ?m = "min r n"
    obtain got s' where g: "read (de_input d) ?m = Inr (got, s')" "live s'" "content (de_input d) = got @ content s'"
      "length got \<le> ?m" "0 < ?m \<longrightarrow> content (de_input d) \<noteq> [] \<longrightarrow> got \<noteq> []"
      using read_law [OF r(3), of ?m] by (elim exE conjE) (rule that)
    have le: "length got \<le> r" "length got \<le> n" using g(4) by simp_all
    let ?d = "d\<lparr>de_input := s', de_state := InPayload (r - length got)\<rparr>"
    have "contents_read read d n = Inr (got, ?d)"
      using False g(1) le(1) r(1,2) by (simp add: contents_read_def wrapping_sub_exact)
    moreover have "in_payload bases bs ?d"
      using r g(2,3) le by (auto simp: in_payload_def standing_def)
    moreover have "payload d = got @ payload ?d" using r(2) g(3) le(1) by (simp add: payload_def)
    moreover have "got \<noteq> []" using g(5) False r(5) by auto
    ultimately show ?thesis using le(2) by blast
  qed
qed

end

section \<open>Extracting an archive\<close>

text \<open>
  A client that walks the archive and reads the contents of the files it wants: at most \<open>n\<close> calls of
  \<^verbatim>\<open>next\<close>, and \<open>cf\<close> rounds of the copy loop for a file.
\<close>

fun unpack ::
    "nat \<Rightarrow> nat \<Rightarrow> (entry \<Rightarrow> bool) \<Rightarrow> ('s \<Rightarrow> nat \<Rightarrow> 'e + (byte list \<times> 's)) \<Rightarrow> 's decoder \<Rightarrow>
     'e io_failure + (entry \<times> byte list option) list" where
  "unpack cf 0 wanted read d = Inl OutOfFuel"
| "unpack cf (Suc n) wanted read d =
     (case next_do read d of
        Inl e \<Rightarrow> Inl e
      | Inr (None, d') \<Rightarrow> Inr []
      | Inr (Some en, d') \<Rightarrow>
          and_then
            (case de_state d' of
               InPayload _ \<Rightarrow>
                 if wanted en then and_then (copy cf (contents_read read) d' []) (\<lambda>(data, d''). Inr (Some data, d''))
                 else Inr (None, d')
             | _ \<Rightarrow> Inr (None, d'))
            (\<lambda>(data, d''). and_then (unpack cf n wanted read d'') (\<lambda>es. Inr ((en, data) # es))))"

lemma unpack_cong: "next_do read d = next_do read d' \<Longrightarrow> unpack cf n wanted read d = unpack cf n wanted read d'"
  by (cases n) simp_all

definition listed :: "(entry \<Rightarrow> bool) \<Rightarrow> byte list \<Rightarrow> stat \<Rightarrow> entry_kind \<Rightarrow> byte list option \<Rightarrow> entry \<times> byte list option" where
  "listed wanted path st kind data =
     (let en = \<lparr>e_path = path, e_metadata = st, e_kind = kind\<rparr> in (en, if wanted en then data else None))"

fun listing :: "(entry \<Rightarrow> bool) \<Rightarrow> byte list \<Rightarrow> pxar_tree \<Rightarrow> (entry \<times> byte list option) list" where
  "listing wanted base (PFile name st data) = [listed wanted (path_join base name) st (EFile (length data) None) (Some data)]"
| "listing wanted base (PLink name st tgt) = [listed wanted (path_join base name) st (ESymlink (tgt @ [0])) None]"
| "listing wanted base (PDir name st ts) =
     listed wanted (path_join base name) st EDirectory None # concat (map (listing wanted (path_join base name)) ts)"

text \<open>The limits of the decoder: names of at most 255 bytes, link targets below 4096.\<close>

fun limits_ok :: "pxar_tree \<Rightarrow> bool" where
  "limits_ok (PFile name st data) \<longleftrightarrow> length name < 256 \<and> stat_ok st"
| "limits_ok (PLink name st tgt) \<longleftrightarrow> length name < 256 \<and> stat_ok st \<and> length tgt < 4096"
| "limits_ok (PDir name st ts) \<longleftrightarrow> length name < 256 \<and> stat_ok st \<and> list_all limits_ok ts"

lemma children_start:
  assumes "list_all names_ok ts" and "list_all limits_ok ts" and "24 * (length ts + 1) + 16 \<le> u64_max"
  obtains ty csize rest where "pbytes_all sip pos ts @ hdr PXAR_GOODBYE (24 * (length ts + 1)) @ xs = hdr ty csize @ rest"
    "ty = PXAR_FILENAME \<or> ty = PXAR_GOODBYE" "csize + 16 \<le> u64_max"
proof (cases ts)
  case Nil
  with assms(3) show ?thesis by (intro that [of PXAR_GOODBYE 24 xs]) simp_all
next
  case (Cons t us)
  have "length (tree_name t) < 256" using assms(2) Cons by (cases t) simp_all
  moreover obtain ys where "pbytes sip pos t = hdr PXAR_FILENAME (length (tree_name t) + 1) @ ys"
    by (cases t) (simp_all add: Let_def name_bytes_def)
  ultimately show ?thesis
    using Cons by (intro that [of PXAR_FILENAME "length (tree_name t) + 1" "ys @ _"]) (auto simp: u64_max_def)
qed

context reader
begin

lemma unpack_file:
  assumes "standing d (base # bases) (pbytes sip pos (PFile name st data) @ rest)"
    and "names_ok (PFile name st data)" "limits_ok (PFile name st data)"
    and "length data + 16 \<le> u64_max" and "length data < cf"
  shows "\<exists>d'. standing d' (base # bases) rest \<and> (\<forall>n. unpack cf (Suc n) wanted read d =
    and_then (unpack cf n wanted read d') (\<lambda>es. Inr (listing wanted base (PFile name st data) @ es)))"
proof -
  let ?en = "\<lparr>e_path = path_join base name, e_metadata = st, e_kind = EFile (length data) None\<rparr>"
  obtain d1 where d1: "next_do read d = Inr (Some ?en, d1)" "standing d1 (base # bases) rest"
    "de_state d1 = InPayload (length data)" "content (de_input d1) = data @ rest"
    by (rule next_file [OF assms(1)]) (use assms(2-4) in simp_all)
  show ?thesis
  proof (cases "wanted ?en")
    case False
    with d1 show ?thesis by (intro exI [of _ d1]) (simp add: listed_def)
  next
    case True
    have "in_payload (base # bases) rest d1" "length (payload d1) < cf"
      using d1 assms(4,5) by (auto simp: in_payload_def payload_def)
    from reader.copy_all [OF contents_reader this, of "[]"] obtain d2 where
      "copy cf (contents_read read) d1 [] = Inr (payload d1, d2)" "in_payload (base # bases) rest d2" by auto
    moreover have "payload d1 = data" using d1(3,4) by (simp add: payload_def)
    ultimately show ?thesis using True d1(1,3) by (intro exI [of _ d2]) (simp add: listed_def in_payload_def)
  qed
qed

definition unpacks :: "(entry \<Rightarrow> bool) \<Rightarrow> nat \<Rightarrow> pxar_tree \<Rightarrow> bool" where
  "unpacks wanted cf t \<longleftrightarrow>
     (\<forall>d base bases sip pos rest. standing d (base # bases) (pbytes sip pos t @ rest) \<longrightarrow> names_ok t \<longrightarrow> limits_ok t \<longrightarrow>
       length (pbytes sip pos t) \<le> u64_max \<longrightarrow> length (pbytes sip pos t) < cf \<longrightarrow>
       (\<exists>d'. standing d' (base # bases) rest \<and> (\<forall>n. unpack cf (length (listing wanted base t) + n) wanted read d =
         and_then (unpack cf n wanted read d') (\<lambda>es. Inr (listing wanted base t @ es)))))"

lemma unpack_trees:
  "\<forall>t \<in> set ts. unpacks wanted cf t \<Longrightarrow> standing d (base # bases) (pbytes_all sip pos ts @ rest) \<Longrightarrow>
     list_all names_ok ts \<Longrightarrow> list_all limits_ok ts \<Longrightarrow>
     length (pbytes_all sip pos ts) \<le> u64_max \<Longrightarrow> length (pbytes_all sip pos ts) < cf \<Longrightarrow>
     \<exists>d'. standing d' (base # bases) rest \<and>
       (\<forall>n. unpack cf (length (concat (map (listing wanted base) ts)) + n) wanted read d =
         and_then (unpack cf n wanted read d') (\<lambda>es. Inr (concat (map (listing wanted base) ts) @ es)))"
proof (induction ts arbitrary: d pos)
  case Nil
  then show ?case by (intro exI [of _ d]) (auto simp: and_then_def split: sum.splits)
next
  case (Cons t ts)
  let ?l = "listing wanted base t" and ?ls = "concat (map (listing wanted base) ts)"
  have "standing d (base # bases) (pbytes sip pos t @ pbytes_all sip (pos + length (pbytes sip pos t)) ts @ rest)"
    using Cons.prems(2) by simp
  moreover have "unpacks wanted cf t" using Cons.prems(1) by simp
  ultimately obtain d1 where d1: "standing d1 (base # bases) (pbytes_all sip (pos + length (pbytes sip pos t)) ts @ rest)"
    "\<And>n. unpack cf (length ?l + n) wanted read d = and_then (unpack cf n wanted read d1) (\<lambda>es. Inr (?l @ es))"
    using Cons.prems(3-6) unfolding unpacks_def by fastforce
  have "\<exists>d'. standing d' (base # bases) rest \<and> (\<forall>n. unpack cf (length ?ls + n) wanted read d1 =
      and_then (unpack cf n wanted read d') (\<lambda>es. Inr (?ls @ es)))"
    using Cons.prems d1(1) by (intro Cons.IH) auto
  then obtain d2 where "standing d2 (base # bases) rest"
    "\<And>n. unpack cf (length ?ls + n) wanted read d1 = and_then (unpack cf n wanted read d2) (\<lambda>es. Inr (?ls @ es))"
    by blast
  with d1(2) show ?case
    by (intro exI [of _ d2]) (auto simp: add.assoc and_then_def split: sum.splits)
qed

lemma unpack_dir:
  assumes "\<forall>t \<in> set ts. unpacks wanted cf t"
  shows "unpacks wanted cf (PDir name st ts)"
  unfolding unpacks_def
proof (intro allI impI)
  fix d base bases sip pos rest
  let ?p = "pos + length (name_bytes name) + 56"
  let ?tbl = "table_bytes (pitems sip ?p ts) (?p + length (pbytes_all sip ?p ts)) (pos + length (name_bytes name))"
  let ?finish = "hdr PXAR_GOODBYE (24 * (length ts + 1)) @ ?tbl @ rest"
  let ?path = "path_join base name" and ?ls = "concat (map (listing wanted (path_join base name)) ts)"
  assume st: "standing d (base # bases) (pbytes sip pos (PDir name st ts) @ rest)" and ok: "names_ok (PDir name st ts)"
    "limits_ok (PDir name st ts)" and len: "length (pbytes sip pos (PDir name st ts)) \<le> u64_max"
    "length (pbytes sip pos (PDir name st ts)) < cf"
  have "24 * (length ts + 1) + 16 \<le> u64_max" using len(1) by (simp add: Let_def)
  then obtain ty csize more where more: "pbytes_all sip ?p ts @ ?finish = hdr ty csize @ more"
    "ty = PXAR_FILENAME \<or> ty = PXAR_GOODBYE" "csize + 16 \<le> u64_max"
    using children_start ok by (metis names_ok.simps(3) limits_ok.simps(3))
  have "standing d (base # bases) (name_bytes name @ meta_bytes st @ hdr ty csize @ more)"
    using st more(1) by (simp add: Let_def)
  then obtain d1 where d1: "next_do read d = Inr (Some \<lparr>e_path = ?path, e_metadata = st, e_kind = EDirectory\<rparr>, d1)"
    "standing d1 (?path # base # bases) (hdr ty csize @ more)" "de_state d1 = InDirectory"
    by (rule next_dir) (use ok more(2,3) in simp_all)
  have "\<exists>d'. standing d' (?path # base # bases) ?finish \<and> (\<forall>n. unpack cf (length ?ls + n) wanted read d1 =
      and_then (unpack cf n wanted read d') (\<lambda>es. Inr (?ls @ es)))"
    using d1(2) ok len more(1) by (intro unpack_trees [OF assms, of _ _ _ sip ?p]) (auto simp: Let_def)
  then obtain d2 where d2: "standing d2 (?path # base # bases) ?finish"
    "\<And>n. unpack cf (length ?ls + n) wanted read d1 = and_then (unpack cf n wanted read d2) (\<lambda>es. Inr (?ls @ es))"
    by blast
  have "standing d2 (?path # base # bases) (hdr PXAR_GOODBYE (length ?tbl) @ ?tbl @ rest)" "length ?tbl + 16 \<le> u64_max"
    using d2(1) len(1) by (simp_all add: Let_def)
  then obtain d3 where d3: "next_do read d2 = next_do read d3" "standing d3 (base # bases) rest"
    by (rule next_goodbye)
  show "\<exists>d'. standing d' (base # bases) rest \<and>
      (\<forall>n. unpack cf (length (listing wanted base (PDir name st ts)) + n) wanted read d =
        and_then (unpack cf n wanted read d') (\<lambda>es. Inr (listing wanted base (PDir name st ts) @ es)))"
    using d3(2) d1(1,3) d2(2) unpack_cong [OF d3(1)]
    by (intro exI [of _ d3]) (auto simp: listed_def and_then_def split: sum.splits)
qed

lemma unpack_tree: "unpacks wanted cf t"
proof (induction t)
  case (PFile name st data)
  then show ?case using unpack_file [of _ _ _ _ _ name st data _ cf wanted] by (fastforce simp: unpacks_def)
next
  case (PLink name st tgt)
  show ?case unfolding unpacks_def
  proof (intro allI impI)
    fix d base bases sip pos rest
    assume st: "standing d (base # bases) (pbytes sip pos (PLink name st tgt) @ rest)"
      and ok: "names_ok (PLink name st tgt)" "limits_ok (PLink name st tgt)"
    obtain d' where "next_do read d =
        Inr (Some \<lparr>e_path = path_join base name, e_metadata = st, e_kind = ESymlink (tgt @ [0])\<rparr>, d')"
      "standing d' (base # bases) rest" "de_state d' = InDirectory"
      by (rule next_link [OF st]) (use ok in simp_all)
    then show "\<exists>d'. standing d' (base # bases) rest \<and>
      (\<forall>n. unpack cf (length (listing wanted base (PLink name st tgt)) + n) wanted read d =
        and_then (unpack cf n wanted read d') (\<lambda>es. Inr (listing wanted base (PLink name st tgt) @ es)))"
      by (intro exI [of _ d']) (simp add: listed_def)
  qed
next
  case (PDir name st ts)
  then show ?case by (intro unpack_dir) auto
qed

lemma next_root:
  assumes "live s" and "content s = meta_bytes st @ rest" and "stat_ok st" and "stat_is_dir st"
  obtains d' where "next_do read (decoder_new s) = Inr (Some \<lparr>e_path = [47], e_metadata = st, e_kind = EDirectory\<rparr>, d')"
    "standing d' [[47]] rest" "de_state d' = InDirectory"
proof -
  let ?d = "decoder_new s"
  have "live (de_input ?d)" "content (de_input ?d) = hdr PXAR_ENTRY 40 @ stat_bytes st @ rest"
    using assms(1,2) by (simp_all add: decoder_new_def meta_bytes_def)
  then obtain s1 where s1: "read_header read ?d = Inr (\<lparr>htype = PXAR_ENTRY, full_size = 40 + 16\<rparr>, ?d\<lparr>de_input := s1\<rparr>)"
    "live s1" "content s1 = stat_bytes st @ rest"
    by (rule read_header_front [OF _ _ pxar_bounds(1)]) (simp_all add: u64_max_def)
  have "live (de_input (?d\<lparr>de_input := s1\<rparr>))" "content (de_input (?d\<lparr>de_input := s1\<rparr>)) = stat_bytes st @ rest"
    using s1(2,3) by simp_all
  then obtain s2 where s2: "read_metadata read (?d\<lparr>de_input := s1\<rparr>) \<lparr>htype = PXAR_ENTRY, full_size = 40 + 16\<rparr> =
      Inr (st, ?d\<lparr>de_input := s1\<rparr>\<lparr>de_input := s2\<rparr>)" "live s2" "content s2 = rest"
    by (rule read_metadata_front [OF _ _ assms(3)])
  let ?d' = "?d\<lparr>de_input := s2, de_path := [47], de_path_lengths := [1], de_state := InDirectory\<rparr>"
  have "next_do read ?d = Inr (Some \<lparr>e_path = [47], e_metadata = st, e_kind = EDirectory\<rparr>, ?d')"
    using s1(1) s2(1) assms(4) by (simp add: next_do.simps [of read ?d] read_root_def, simp add: decoder_new_def)
  moreover have "standing ?d' [[47]] rest" using s2(2,3) by (simp add: standing_def decoder_new_def)
  ultimately show ?thesis by (rule that) simp
qed

lemma unpack_archive:
  assumes "live s" and "content s = archive_bytes_of sip st ts" and "stat_ok st" "stat_is_dir st"
    and "list_all names_ok ts" "list_all limits_ok ts"
    and "length (archive_bytes_of sip st ts) \<le> u64_max" "length (archive_bytes_of sip st ts) < cf"
    and "es = listed wanted [47] st EDirectory None # concat (map (listing wanted [47]) ts)" and "length es < n"
  shows "unpack cf n wanted read (decoder_new s) = Inr es"
proof -
  let ?tbl = "table_bytes (pitems sip 56 ts) (56 + length (pbytes_all sip 56 ts)) 0"
  let ?finish = "hdr PXAR_GOODBYE (24 * (length ts + 1)) @ ?tbl" and ?ls = "concat (map (listing wanted [47]) ts)"
  obtain d1 where d1: "next_do read (decoder_new s) = Inr (Some \<lparr>e_path = [47], e_metadata = st, e_kind = EDirectory\<rparr>, d1)"
    "standing d1 [[47]] (pbytes_all sip 56 ts @ ?finish)" "de_state d1 = InDirectory"
    using assms(2) by (auto intro: next_root [OF assms(1) _ assms(3,4)] simp: archive_bytes_of_def)
  have "\<exists>d'. standing d' [[47]] ?finish \<and> (\<forall>n. unpack cf (length ?ls + n) wanted read d1 =
      and_then (unpack cf n wanted read d') (\<lambda>es. Inr (?ls @ es)))"
    using d1(2) assms(5-8) unpack_tree by (intro unpack_trees [of _ _ _ _ _ _ sip 56]) (auto simp: archive_bytes_of_def)
  then obtain d2 where d2: "standing d2 [[47]] ?finish"
    "\<And>n. unpack cf (length ?ls + n) wanted read d1 = and_then (unpack cf n wanted read d2) (\<lambda>es. Inr (?ls @ es))"
    by blast
  have "standing d2 [[47]] (hdr PXAR_GOODBYE (length ?tbl) @ ?tbl @ [])" "length ?tbl + 16 \<le> u64_max"
    using d2(1) assms(7) by (simp_all add: archive_bytes_of_def)
  then obtain d3 where "next_do read d2 = Inr (None, d3)" using next_end by blast
  moreover obtain k where "n = Suc (length ?ls + Suc k)"
    using assms(9,10) less_imp_Suc_add [of "length es" n] by auto
  ultimately show ?thesis using d1(1,3) d2(2) [of "Suc k"] assms(9) by (simp add: listed_def)
qed

end

text \<open>
  C20. Whatever tree is archived, reading the archive back yields it: the encoder accepts every tree
  whose names are valid file names, and the decoder then lists its entries in order with their full
  paths, metadata, kinds and link targets, ends without an error, and delivers the contents of
  exactly those files the client asks for, skipping the others.
\<close>

theorem pxar_round_trip:
  assumes "stat_ok st" "stat_is_dir st" and "list_all names_ok ts" "list_all limits_ok ts"
    and "length (archive_bytes_of sip st ts) \<le> u64_max"
    and "es = listed wanted [47] st EDirectory None # concat (map (listing wanted [47]) ts)"
  shows "\<exists>data. (write_archive sip st ts :: 'e io_failure + byte list) = Inr data \<and>
    (\<forall>cf n. length data < cf \<longrightarrow> length es < n \<longrightarrow>
       unpack cf n wanted (read_slice :: _ \<Rightarrow> _ \<Rightarrow> 'e + _) (decoder_new data) = Inr es)"
  using write_archive_bytes [OF assms(2,3,5), where 'e = 'e]
    slice.unpack_archive [OF TrueI refl assms(1-5) _ assms(6)] by blast

definition sample_dir :: stat where
  "sample_dir = \<lparr>st_mode = 16877, st_flags = 0, st_uid = 1000, st_gid = 1000, st_mtime = \<lparr>secs = - 5, nanos = 7\<rparr>\<rparr>"

definition sample_tree :: "pxar_tree list" where
  "sample_tree = [PDir [97] sample_dir [PFile [98] (builder 33188) [1, 2, 3]], PLink [99] (builder 41471) [97]]"

theorem pxar_round_trip_witness:
  "\<exists>data. (write_archive (\<lambda>_ _. sum_list) sample_dir sample_tree :: nat io_failure + byte list) = Inr data \<and>
     unpack (Suc (length data)) 5 (\<lambda>en. e_path en = [47, 97, 47, 98]) (read_slice :: _ \<Rightarrow> _ \<Rightarrow> nat + _) (decoder_new data) =
       Inr [(\<lparr>e_path = [47], e_metadata = sample_dir, e_kind = EDirectory\<rparr>, None),
            (\<lparr>e_path = [47, 97], e_metadata = sample_dir, e_kind = EDirectory\<rparr>, None),
            (\<lparr>e_path = [47, 97, 47, 98], e_metadata = builder 33188, e_kind = EFile 3 None\<rparr>, Some [1, 2, 3]),
            (\<lparr>e_path = [47, 99], e_metadata = builder 41471, e_kind = ESymlink [97, 0]\<rparr>, None)]"
proof -
  have ok: "stat_ok sample_dir" "stat_is_dir sample_dir" "list_all names_ok sample_tree" "list_all limits_ok sample_tree"
    "length (archive_bytes_of (\<lambda>_ _. sum_list) sample_dir sample_tree) \<le> u64_max"
    by (simp_all add: sample_tree_def sample_dir_def builder_def stat_ok_def stat_is_dir_def stat_file_type_def IFMT_def
        IFDIR_def valid_name_def u64_max_def is_i64_def archive_bytes_of_def Let_def)
  show ?thesis
    using pxar_round_trip [OF ok refl, of "\<lambda>en. e_path en = [47, 97, 47, 98]", where 'e = nat]
    by (fastforce simp: sample_tree_def listed_def path_join_def)
qed

end
