(* ===== verification/ChunkReader.thy ===== *)
theory ChunkReader
  imports ChunkStore PxarAccessor
begin

text \<open>
  Reading single files out of a stored archive, \<^verbatim>\<open>pbs-client/src/accessor.rs\<close>: a cache of decoded
  chunks that evicts the least recently used one, a random-access input that finds the chunk of an
  offset in the index, and a reader over the content of one archived file. The mutex around the cache
  is held for one operation at a time; a single reader is modelled. The input is interpreted as
  \<^verbatim>\<open>random_access\<close> and the file reader as \<^verbatim>\<open>reader\<close>, so that the results about lookups and about copying
  apply to archives that are only on the server.
\<close>

section \<open>The chunk cache\<close>

definition CHUNK_CACHE_CAPACITY :: nat where
  "CHUNK_CACHE_CAPACITY = 32"

record chunk_cache =
  cc_map :: "nat \<rightharpoonup> byte list"
  cc_order :: "nat list"
  cc_capacity :: nat

definition cache_new :: "nat \<Rightarrow> chunk_cache" where
  "cache_new capacity = \<lparr>cc_map = Map.empty, cc_order = [], cc_capacity = max capacity 1\<rparr>"

definition cache_get :: "nat \<Rightarrow> chunk_cache \<Rightarrow> byte list option \<times> chunk_cache" where
  "cache_get idx c =
     (case cc_map c idx of
        None \<Rightarrow> (None, c)
      | Some chunk \<Rightarrow> (Some chunk, c\<lparr>cc_order := remove1 idx (cc_order c) @ [idx]\<rparr>))"

fun evict :: "nat \<Rightarrow> nat list \<Rightarrow> (nat \<rightharpoonup> byte list) \<Rightarrow> nat list \<times> (nat \<rightharpoonup> byte list)" where
  "evict capacity [] m = ([], m)"
| "evict capacity (x # xs) m =
     (if capacity \<le> length (x # xs) then evict capacity xs (m(x := None)) else (x # xs, m))"

definition cache_insert :: "nat \<Rightarrow> byte list \<Rightarrow> chunk_cache \<Rightarrow> chunk_cache" where
  "cache_insert idx chunk c =
     (if cc_map c idx \<noteq> None then c
      else case evict (cc_capacity c) (cc_order c) (cc_map c) of
             (order, m) \<Rightarrow> c\<lparr>cc_order := order @ [idx], cc_map := m(idx \<mapsto> chunk)\<rparr>)"


section \<open>Chunks by offset\<close>

record chunk_reader =
  cr_ends :: "nat list"
  cr_digests :: "digest list"
  cr_size :: nat
  cr_cache :: chunk_cache

type_synonym store = "digest \<Rightarrow> pbs_error + byte list"
type_synonym decoding = "byte list \<Rightarrow> pbs_error + byte list"

definition fetch_chunk ::
    "store \<Rightarrow> decoding \<Rightarrow> chunk_reader \<Rightarrow> nat \<Rightarrow> pbs_error io_failure + (byte list \<times> chunk_reader)" where
  "fetch_chunk download decode r idx =
     (case cache_get idx (cr_cache r) of
        (Some cached, cache) \<Rightarrow> Inr (cached, r\<lparr>cr_cache := cache\<rparr>)
      | (None, cache) \<Rightarrow>
          if length (cr_digests r) \<le> idx then Inl (Other ''chunk index out of range'')
          else case download (cr_digests r ! idx) of
                 Inl e \<Rightarrow> Inl (Failed e)
               | Inr encoded \<Rightarrow>
                   (case decode encoded of
                      Inl e \<Rightarrow> Inl (Failed e)
                    | Inr plaintext \<Rightarrow> Inr (plaintext, r\<lparr>cr_cache := cache_insert idx plaintext cache\<rparr>)))"

text \<open>\<^verbatim>\<open>slice::partition_point\<close> of the standard library, by binary search.\<close>

definition partition_point :: "('a \<Rightarrow> bool) \<Rightarrow> 'a list \<Rightarrow> nat" where
  "partition_point P xs =
     (case binary_search_by (\<lambda>x. if P x then Less else Greater) xs of Inr i \<Rightarrow> i | Inl i \<Rightarrow> i)"

definition read_into ::
    "store \<Rightarrow> decoding \<Rightarrow> (chunk_reader, pbs_error io_failure) input" where
  "read_into download decode r offset n =
     (if n = 0 \<or> cr_size r \<le> offset then Inr ([], r)
      else
        let idx = partition_point (\<lambda>e. e \<le> offset) (cr_ends r);
            chunk_start = (case checked_sub idx 1 of
                Some prev \<Rightarrow> if prev < length (cr_ends r) then cr_ends r ! prev else 0
              | None \<Rightarrow> 0)
        in and_then (fetch_chunk download decode r idx) (\<lambda>(chunk, r').
           let within = wrapping_sub offset chunk_start;
               len = min (length chunk - within) n
           in and_then (ok_or (Other ''chunk shorter than its index entry'') (get_range chunk within (within + len)))
                (\<lambda>src. Inr (src, r'))))"


section \<open>The archive\<close>

record pbs_archive =
  pa_reader :: chunk_reader
  pa_size :: nat

definition connect :: "(string \<Rightarrow> pbs_error + byte list) \<Rightarrow> pbs_error + pbs_archive" where
  "connect download_file =
     and_then (download_file ''root.pxar.didx'') (\<lambda>index.
     and_then (parse_dynamic_index_entries index) (\<lambda>entries.
     let sz = (if entries = [] then 0 else fst (last entries))
     in Inr \<lparr>pa_reader = \<lparr>cr_ends = map fst entries, cr_digests = map snd entries, cr_size = sz,
                          cr_cache = cache_new CHUNK_CACHE_CAPACITY\<rparr>,
              pa_size = sz\<rparr>))"

text \<open>Errors become \<^verbatim>\<open>PbsError::Decode\<close> with the text they display.\<close>

fun pbs_error_text :: "pbs_error \<Rightarrow> string" where
  "pbs_error_text (Config msg) = ''invalid PBS configuration: '' @ msg"
| "pbs_error_text (Unauthorized token_id) =
     ''PBS rejected the API token (HTTP 401); verify the token id and secret for '' @ [CHR 0x27] @ token_id @ [CHR 0x27]"
| "pbs_error_text (Forbidden datastore) =
     ''PBS denied access (HTTP 403); the token likely lacks the required datastore ACL (DatastoreAudit/DatastoreBackup) on ''
       @ [CHR 0x27] @ datastore @ [CHR 0x27]"
| "pbs_error_text (NotFound datastore) =
     ''PBS datastore or namespace not found (HTTP 404) for datastore '' @ [CHR 0x27] @ datastore @ [CHR 0x27]"
| "pbs_error_text (FingerprintMismatch expected actual) =
     ''PBS TLS certificate fingerprint mismatch: expected '' @ expected @ '', server presented '' @ actual"
| "pbs_error_text (Http status message) = ''PBS returned HTTP '' @ decimal status @ '': '' @ message"
| "pbs_error_text (Transport msg) = ''failed to reach PBS: '' @ msg"
| "pbs_error_text (Decode msg) = ''failed to parse PBS response: '' @ msg"

fun io_text :: "('e \<Rightarrow> string) \<Rightarrow> 'e io_failure \<Rightarrow> string" where
  "io_text inner_text (Failed e) = inner_text e"
| "io_text inner_text (Other msg) = msg"
| "io_text inner_text InvalidInput = ''invalid input parameter''"
| "io_text inner_text UnexpectedEof = ''failed to fill whole buffer''"
| "io_text inner_text OutOfFuel = ''''"

definition decode_err :: "pbs_error io_failure io_failure \<Rightarrow> pbs_error" where
  "decode_err err = Decode (io_text (io_text pbs_error_text) err)"

definition or_decode_err :: "pbs_error io_failure io_failure + 'a \<Rightarrow> pbs_error + 'a" where
  "or_decode_err r = map_sum decode_err id r"

text \<open>
  Opening the root and looking up a path, the common part of \<^verbatim>\<open>open_reader\<close> and \<^verbatim>\<open>read_link\<close>; the state
  of the input carries the cache.
\<close>

definition find_entry ::
    "(nat \<Rightarrow> nat \<Rightarrow> byte list \<Rightarrow> nat) \<Rightarrow> store \<Rightarrow> decoding \<Rightarrow> pbs_archive \<Rightarrow> string \<Rightarrow> string \<Rightarrow>
     pbs_error + (file_entry \<times> chunk_reader)" where
  "find_entry sip download decode a path missing =
     and_then (or_decode_err (accessor_open_root (read_into download decode) (pa_reader a) (pa_size a))) (\<lambda>(root, s1).
     and_then (or_decode_err (lookup_path sip (read_into download decode) s1 root path)) (\<lambda>(found, s2).
     and_then (ok_or (Decode missing) found) (\<lambda>fe. Inr (fe, s2))))"

definition read_link ::
    "(nat \<Rightarrow> nat \<Rightarrow> byte list \<Rightarrow> nat) \<Rightarrow> store \<Rightarrow> decoding \<Rightarrow> pbs_archive \<Rightarrow> string \<Rightarrow>
     pbs_error + (byte list \<times> chunk_reader)" where
  "read_link sip download decode a path =
     and_then (find_entry sip download decode a path ''symlink not found in archive'') (\<lambda>(fe, s).
     case e_kind (fe_entry fe) of
       ESymlink data \<Rightarrow> Inr (symlink_as_os_str data, s)
     | _ \<Rightarrow> Inl (Decode ''archive entry is not a symlink''))"

text \<open>
  \<^verbatim>\<open>PbsFileReader\<close>: an offset into the content, the bytes still to deliver, and a read that was started
  and not finished, of which the model keeps the offset and the length asked for.
\<close>

record pbs_file_reader =
  pf_contents :: "nat \<times> nat"
  pf_offset :: nat
  pf_remaining :: nat
  pf_pending :: "(nat \<times> nat) option"

definition pbs_file_reader_new :: "nat \<times> nat \<Rightarrow> nat \<Rightarrow> nat \<Rightarrow> pbs_file_reader" where
  "pbs_file_reader_new contents offset remaining =
     \<lparr>pf_contents = contents, pf_offset = offset, pf_remaining = remaining, pf_pending = None\<rparr>"

definition open_reader ::
    "(nat \<Rightarrow> nat \<Rightarrow> byte list \<Rightarrow> nat) \<Rightarrow> store \<Rightarrow> decoding \<Rightarrow> pbs_archive \<Rightarrow> string \<Rightarrow>
     (nat \<times> nat) option \<Rightarrow> pbs_error + (pbs_file_reader \<times> chunk_reader)" where
  "open_reader sip download decode a path rng =
     and_then (find_entry sip download decode a path ''file not found in archive'') (\<lambda>(fe, s).
     case e_kind (fe_entry fe) of
       EFile _ _ \<Rightarrow>
         and_then (or_decode_err (entry_contents fe)) (\<lambda>contents.
         case (case rng of Some (start, len) \<Rightarrow> (start, len) | None \<Rightarrow> (0, snd contents)) of
           (offset, remaining) \<Rightarrow> Inr (pbs_file_reader_new contents offset remaining, s))
     | _ \<Rightarrow> Inl (Decode ''archive entry is not a regular file''))"

datatype 'a polled = PollPending | PollReady 'a | PollPanic

text \<open>
  One call of \<^verbatim>\<open>poll_read\<close> with room for \<open>n\<close> bytes; \<open>ready\<close> tells whether the read that is under way
  completes now. \<^verbatim>\<open>put_slice\<close> panics when the data does not fit.
\<close>

definition poll_read ::
    "('s, 'e) input \<Rightarrow> bool \<Rightarrow> pbs_file_reader \<times> 's \<Rightarrow> nat \<Rightarrow>
     ('e + byte list) polled \<times> pbs_file_reader \<times> 's" where
  "poll_read ra ready rs n =
     (case rs of (r, s) \<Rightarrow>
        if pf_pending r = None \<and> (pf_remaining r = 0 \<or> n = 0) then (PollReady (Inr []), r, s)
        else
          let (offset, want) = (case pf_pending r of
                Some p \<Rightarrow> p
              | None \<Rightarrow> (pf_offset r, min n (pf_remaining r)));
              waiting = r\<lparr>pf_pending := Some (offset, want)\<rparr>
          in if \<not> ready then (PollPending, waiting, s)
             else case contents_read_at ra (pf_contents r) s offset want of
                    Inl e \<Rightarrow> (PollReady (Inl e), waiting, s)
                  | Inr (data, s') \<Rightarrow>
                      if n < length data then (PollPanic, waiting, s')
                      else (PollReady (Inr data),
                        r\<lparr>pf_pending := None, pf_offset := wrapping_add (pf_offset r) (length data),
                          pf_remaining := wrapping_sub (pf_remaining r) (length data)\<rparr>, s'))"

text \<open>\<^verbatim>\<open>SyncPbsFileReader::read\<close>: the read is awaited with the same buffer.\<close>

definition sync_read :: "('s, 'e) input \<Rightarrow> pbs_file_reader \<times> 's \<Rightarrow> nat \<Rightarrow> 'e option + (byte list \<times> pbs_file_reader \<times> 's)" where
  "sync_read ra rs n =
     (case poll_read ra True rs n of
        (PollReady (Inr data), rs') \<Rightarrow> Inr (data, rs')
      | (PollReady (Inl e), _) \<Rightarrow> Inl (Some e)
      | _ \<Rightarrow> Inl None)"

fun gather_chunks :: "store \<Rightarrow> decoding \<Rightarrow> (nat \<times> digest) list \<Rightarrow> byte list \<Rightarrow> pbs_error + byte list" where
  "gather_chunks download decode [] catalog = Inr catalog"
| "gather_chunks download decode ((_, d) # chunks) catalog =
     and_then (download d) (\<lambda>encoded.
     and_then (decode encoded) (\<lambda>plaintext. gather_chunks download decode chunks (catalog @ plaintext)))"

definition read_catalog :: "store \<Rightarrow> decoding \<Rightarrow> (string \<Rightarrow> pbs_error + byte list) \<Rightarrow> pbs_error + byte list" where
  "read_catalog download decode download_file =
     and_then (download_file ''catalog.pcat1.didx'') (\<lambda>index.
     and_then (parse_dynamic_index_entries index) (\<lambda>chunks. gather_chunks download decode chunks []))"


section \<open>The cache keeps the most recently used chunks\<close>

definition last_n :: "nat \<Rightarrow> 'a list \<Rightarrow> 'a list" where
  "last_n k xs = drop (length xs - k) xs"

lemma length_last_n [simp]: "length (last_n k xs) = min k (length xs)"
  by (simp add: last_n_def)

lemma last_n_append: "k \<le> length ys \<Longrightarrow> last_n k (xs @ ys) = last_n k ys"
  by (simp add: last_n_def)

lemma last_n_all: "length xs \<le> k \<Longrightarrow> last_n k xs = xs"
  by (simp add: last_n_def)

lemma last_n_split: "xs = take (length xs - k) xs @ last_n k xs"
  by (simp add: last_n_def)

lemma remdups_snoc: "remdups (xs @ [x]) = remove1 x (remdups xs) @ [x]"
  by (induction xs) (auto simp: remove1_idem)

text \<open>Using \<open>x\<close> again moves it to the end of the window or pushes the oldest element out of it.\<close>

lemma last_n_use:
  assumes "distinct xs" and "0 < k"
  shows "last_n k (remove1 x xs @ [x]) =
    (if x \<in> set (last_n k xs) then remove1 x (last_n k xs) @ [x] else last_n (k - 1) (last_n k xs) @ [x])"
proof -
  let ?old = "take (length xs - k) xs" and ?new = "last_n k xs"
  have split: "xs = ?old @ ?new" by (rule last_n_split)
  have disj: "set ?old \<inter> set ?new = {}" using assms(1) split by (metis distinct_append)
  show ?thesis
  proof (cases "x \<in> set ?new")
    case True
    then have "remove1 x xs = ?old @ remove1 x ?new" using disj by (subst split) (auto simp: remove1_append)
    moreover have "length (remove1 x ?new @ [x]) = length ?new" using True length_pos_if_in_set [OF True] by (simp add: length_remove1)
    ultimately have "last_n k (remove1 x xs @ [x]) = last_n k (?old @ (remove1 x ?new @ [x]))" by simp
    also have "\<dots> = remove1 x ?new @ [x]"
      using True \<open>length (remove1 x ?new @ [x]) = length ?new\<close>
      by (cases "k \<le> length xs") (simp_all add: last_n_append last_n_all)
    finally show ?thesis using True by simp
  next
    case False
    have r: "remove1 x xs = remove1 x ?old @ ?new" using False by (subst split) (auto simp: remove1_append remove1_idem)
    have "last_n k (remove1 x ?old @ ?new @ [x]) = last_n (k - 1) ?new @ [x]"
    proof (cases "k \<le> length xs")
      case True
      then have "last_n k ((remove1 x ?old) @ (?new @ [x])) = last_n k (?new @ [x])" by (intro last_n_append) simp
      also have "\<dots> = last_n (k - 1) ?new @ [x]" using True assms(2) by (simp add: last_n_def)
      finally show ?thesis .
    next
      case short: False
      then have "?old = []" "?new = xs" by (simp_all add: last_n_all)
      with short assms(2) show ?thesis by (simp add: last_n_all)
    qed
    with r False show ?thesis by simp
  qed
qed

lemma evict_spec:
  "0 < k \<Longrightarrow> evict k xs m = (last_n (k - 1) xs, m |` (- set (take (length xs - (k - 1)) xs)))"
proof (induction xs arbitrary: m)
  case (Cons x xs)
  show ?case
  proof (cases "k \<le> length (x # xs)")
    case True
    then have "Suc (length xs) - (k - 1) = Suc (length xs - (k - 1))" using Cons.prems by simp
    with True Cons show ?thesis
      by (simp add: last_n_def) (auto simp: restrict_map_def fun_eq_iff)
  next
    case False
    with Cons.prems show ?thesis by (simp add: last_n_def)
  qed
qed (simp add: last_n_def restrict_map_def)

text \<open>The cache after the chunks \<open>uses\<close> were fetched in this order, when chunk \<open>i\<close> is \<open>f i\<close>.\<close>

definition cached_after :: "nat list \<Rightarrow> (nat \<Rightarrow> byte list) \<Rightarrow> chunk_cache \<Rightarrow> bool" where
  "cached_after uses f c \<longleftrightarrow> 0 < cc_capacity c \<and> cc_order c = last_n (cc_capacity c) (remdups uses) \<and>
     cc_map c = (\<lambda>i. if i \<in> set (cc_order c) then Some (f i) else None)"

lemma cached_after_new: "cached_after [] f (cache_new capacity)"
  by (simp add: cached_after_def cache_new_def last_n_def)

lemma cached_after_get:
  assumes "cached_after uses f c" and "x \<in> set (cc_order c)"
  shows "\<exists>c'. cache_get x c = (Some (f x), c') \<and> cached_after (uses @ [x]) f c' \<and> cc_capacity c' = cc_capacity c"
proof -
  have "set (remove1 x (cc_order c) @ [x]) = set (cc_order c)"
    using assms by (auto simp: cached_after_def set_remove1_eq last_n_def distinct_drop)
  with assms show ?thesis
    by (simp add: cache_get_def cached_after_def remdups_snoc last_n_use)
qed

lemma cached_after_insert:
  assumes "cached_after uses f c" and "x \<notin> set (cc_order c)"
  shows "cache_get x c = (None, c)" "cached_after (uses @ [x]) f (cache_insert x (f x) c)"
    "cc_capacity (cache_insert x (f x) c) = cc_capacity c"
proof -
  let ?k = "cc_capacity c" and ?o = "cc_order c"
  have d: "distinct ?o" using assms(1) by (simp add: cached_after_def last_n_def distinct_drop)
  let ?kept = "last_n (?k - 1) ?o"
  have part: "distinct (as @ bs) \<Longrightarrow> set bs = set (as @ bs) - set as" for as bs :: "nat list" by auto
  have sets: "set ?kept = set ?o - set (take (length ?o - (?k - 1)) ?o)"
    using part [of "take (length ?o - (?k - 1)) ?o" ?kept] d by (simp add: last_n_split [symmetric])
  have none: "cc_map c x = None" using assms by (simp add: cached_after_def)
  then show "cache_get x c = (None, c)" by (simp add: cache_get_def)
  have ins: "cache_insert x (f x) c = c\<lparr>cc_order := ?kept @ [x],
      cc_map := (cc_map c |` (- set (take (length ?o - (?k - 1)) ?o)))(x \<mapsto> f x)\<rparr>"
    using assms none by (simp add: cache_insert_def evict_spec cached_after_def)
  then show "cc_capacity (cache_insert x (f x) c) = ?k" by simp
  show "cached_after (uses @ [x]) f (cache_insert x (f x) c)"
    using assms sets unfolding ins cached_after_def
    by (auto simp: remdups_snoc last_n_use restrict_map_def fun_eq_iff)
qed


section \<open>The input serves the archive\<close>

text \<open>A reader whose index describes the chunks \<open>cs\<close>, which the server has, after the chunks \<open>uses\<close> were fetched.\<close>

definition serves :: "store \<Rightarrow> decoding \<Rightarrow> byte list list \<Rightarrow> nat list \<Rightarrow> chunk_reader \<Rightarrow> bool" where
  "serves download decode cs uses r \<longleftrightarrow> length (concat cs) \<le> u64_max \<and> cr_ends r = ends 0 cs \<and>
     cr_size r = length (concat cs) \<and> length (cr_digests r) = length cs \<and>
     (\<forall>i < length cs. download_chunk_plaintext download decode (cr_digests r ! i) = Inr (cs ! i)) \<and>
     cached_after uses (\<lambda>i. cs ! i) (cr_cache r)"

lemma serves_fetch:
  assumes "serves download decode cs uses r" and "i < length cs"
  shows "\<exists>r'. fetch_chunk download decode r i = Inr (cs ! i, r') \<and> serves download decode cs (uses @ [i]) r' \<and>
    cc_capacity (cr_cache r') = cc_capacity (cr_cache r)"
proof (cases "i \<in> set (cc_order (cr_cache r))")
  case True
  with assms cached_after_get [of uses "\<lambda>i. cs ! i" "cr_cache r" i] show ?thesis
    by (auto simp: serves_def fetch_chunk_def)
next
  case False
  have c: "cached_after uses (\<lambda>i. cs ! i) (cr_cache r)" using assms(1) by (simp add: serves_def)
  have "download_chunk_plaintext download decode (cr_digests r ! i) = Inr (cs ! i)" using assms by (simp add: serves_def)
  then obtain raw where "download (cr_digests r ! i) = Inr raw" "decode raw = Inr (cs ! i)"
    by (auto simp: download_chunk_plaintext_def and_then_Inr)
  then have "fetch_chunk download decode r i = Inr (cs ! i, r\<lparr>cr_cache := cache_insert i (cs ! i) (cr_cache r)\<rparr>)"
    using assms cached_after_insert(1) [OF c False] by (simp add: serves_def fetch_chunk_def)
  then show ?thesis using assms cached_after_insert(2,3) [OF c False] by (simp add: serves_def)
qed

lemma ends_nth: "i < length cs \<Longrightarrow> ends p cs ! i = p + length (concat (take (Suc i) cs))"
proof (induction cs arbitrary: p i)
  case (Cons c cs)
  then show ?case by (cases i) (auto simp: add.assoc)
qed simp

lemma sorted_ends: "sorted (ends p cs)"
proof (induction cs arbitrary: p)
  case (Cons c cs)
  have "e \<in> set (ends q cs) \<Longrightarrow> q \<le> e" for q e by (induction cs arbitrary: q) fastforce+
  with Cons show ?case by (fastforce)
qed simp

lemma partition_point_sorted:
  assumes "sorted xs"
  shows "partition_point (\<lambda>e. e \<le> x) xs \<le> length xs"
    "j < partition_point (\<lambda>e. e \<le> x) xs \<Longrightarrow> xs ! j \<le> x"
    "partition_point (\<lambda>e. e \<le> x) xs \<le> j \<Longrightarrow> j < length xs \<Longrightarrow> x < xs ! j"
proof -
  let ?f = "\<lambda>e. if e \<le> x then Less else Greater"
  have "partitioned ?f xs" unfolding partitioned_def
  proof (intro allI impI)
    fix i j
    assume "i < j" "j < length xs"
    then have "xs ! i \<le> xs ! j" using assms by (simp add: sorted_nth_mono)
    then show "(?f (xs ! j) = Less \<longrightarrow> ?f (xs ! i) = Less) \<and> (?f (xs ! i) = Greater \<longrightarrow> ?f (xs ! j) = Greater)"
      by auto
  qed
  from binary_search_by_spec [OF this]
  show "partition_point (\<lambda>e. e \<le> x) xs \<le> length xs"
    "j < partition_point (\<lambda>e. e \<le> x) xs \<Longrightarrow> xs ! j \<le> x"
    "partition_point (\<lambda>e. e \<le> x) xs \<le> j \<Longrightarrow> j < length xs \<Longrightarrow> x < xs ! j"
    by (auto simp: partition_point_def split: sum.splits if_splits)
qed

text \<open>The chunk found for an offset contains that offset.\<close>

lemma chunk_of_offset:
  assumes "offset < length (concat cs)" and "idx = partition_point (\<lambda>e. e \<le> offset) (ends 0 cs)"
    and "start = length (concat (take idx cs))"
  shows "idx < length cs" "start \<le> offset" "offset - start < length (cs ! idx)"
    "drop offset (concat cs) = drop (offset - start) (cs ! idx) @ concat (drop (Suc idx) cs)"
    "0 < idx \<Longrightarrow> ends 0 cs ! (idx - 1) = start"
proof -
  note pp = partition_point_sorted [OF sorted_ends [of 0 cs], where x = offset, folded assms(2)]
  show idx: "idx < length cs"
  proof (rule ccontr)
    assume "\<not> idx < length cs"
    with pp(1) have e: "idx = length cs" by simp
    with assms(1) have "0 < length cs" by (cases cs) auto
    with pp(2) [of "length cs - 1"] e assms(1) show False by (simp add: ends_nth)
  qed
  show before: "0 < idx \<Longrightarrow> ends 0 cs ! (idx - 1) = start" using idx assms(3) by (simp add: ends_nth)
  show st: "start \<le> offset"
    using pp(2) [of "idx - 1"] before assms(3) by (cases "idx = 0") simp_all
  have after: "offset < length (concat (take (Suc idx) cs))" using pp(3) [of idx] idx by (simp add: ends_nth)
  then show lt: "offset - start < length (cs ! idx)" using idx assms(3) st by (simp add: take_Suc_conv_app_nth)
  have "concat cs = concat (take idx cs) @ cs ! idx @ concat (drop (Suc idx) cs)"
    using idx by (metis append_take_drop_id concat.simps(2) concat_append Cons_nth_drop_Suc)
  then show "drop offset (concat cs) = drop (offset - start) (cs ! idx) @ concat (drop (Suc idx) cs)"
    using st lt assms(3) by simp
qed

lemma serves_read:
  assumes "serves download decode cs uses r"
  shows "\<exists>bs uses' r'. read_into download decode r offset n = Inr (bs, r') \<and> serves download decode cs uses' r' \<and>
    length bs \<le> n \<and> bs = take (length bs) (drop offset (concat cs)) \<and> (0 < n \<longrightarrow> offset < length (concat cs) \<longrightarrow> bs \<noteq> [])"
proof (cases "n = 0 \<or> length (concat cs) \<le> offset")
  case True
  then have "read_into download decode r offset n = Inr ([], r)"
    using assms by (auto simp: read_into_def serves_def)
  with assms True show ?thesis by auto
next
  case False
  define idx where "idx = partition_point (\<lambda>e. e \<le> offset) (ends 0 cs)"
  define start where "start = length (concat (take idx cs))"
  have f: "idx < length cs" "start \<le> offset" "offset - start < length (cs ! idx)"
    "drop offset (concat cs) = drop (offset - start) (cs ! idx) @ concat (drop (Suc idx) cs)"
    "0 < idx \<Longrightarrow> ends 0 cs ! (idx - 1) = start"
    using chunk_of_offset [OF _ idx_def start_def] False by simp_all
  from serves_fetch [OF assms f(1)] obtain r' where r': "fetch_chunk download decode r idx = Inr (cs ! idx, r')"
    "serves download decode cs (uses @ [idx]) r'" by blast
  have s: "cr_ends r = ends 0 cs" "cr_size r = length (concat cs)" "offset \<le> u64_max"
    using assms False by (simp_all add: serves_def)
  have cs: "(case checked_sub idx (Suc 0) of None \<Rightarrow> 0
      | Some prev \<Rightarrow> if prev < length (cr_ends r) then cr_ends r ! prev else 0) = start"
    using f(1,5) start_def s(1) by (cases "idx = 0") (simp_all add: checked_sub_def)
  let ?bs = "take (min (length (cs ! idx) - (offset - start)) n) (drop (offset - start) (cs ! idx))"
  have "wrapping_sub offset start = offset - start" using f(2) s(3) by (simp add: wrapping_sub_exact)
  then have "read_into download decode r offset n = Inr (?bs, r')"
    using False s(1,2) r'(1) f(3) by (simp add: read_into_def idx_def [symmetric] cs get_range_def Let_def)
  moreover have "?bs = take (length ?bs) (drop offset (concat cs))" "length ?bs \<le> n" "?bs \<noteq> []"
    using f(3,4) False by (simp_all add: min_def)
  ultimately show ?thesis using r'(2) by blast
qed

interpretation chunk_input: random_access "read_into download decode" "concat cs" "\<lambda>r. \<exists>uses. serves download decode cs uses r"
proof
  fix r offset n
  assume "\<exists>uses. serves download decode cs uses r"
  then show "\<exists>bs r'. read_into download decode r offset n = Inr (bs, r') \<and> (\<exists>uses. serves download decode cs uses r') \<and>
      length bs \<le> n \<and> bs = take (length bs) (drop offset (concat cs)) \<and>
      (0 < n \<longrightarrow> offset < length (concat cs) \<longrightarrow> bs \<noteq> [])"
    using serves_read [of download decode cs _ r offset n] by (elim exE) (meson)
qed (auto simp: serves_def)

section \<open>Reading an archived file\<close>

text \<open>What a file reader still has to deliver of \<open>content\<close>, and when it is between two reads.\<close>

definition file_rest :: "byte list \<Rightarrow> pbs_file_reader \<times> 's \<Rightarrow> byte list" where
  "file_rest content rs = (case rs of (r, s) \<Rightarrow> take (pf_remaining r) (drop (pf_offset r) content))"

definition file_ready :: "nat \<Rightarrow> byte list \<Rightarrow> ('s \<Rightarrow> bool) \<Rightarrow> pbs_file_reader \<times> 's \<Rightarrow> bool" where
  "file_ready off content live rs \<longleftrightarrow> (case rs of (r, s) \<Rightarrow> pf_contents r = (off, length content) \<and> pf_pending r = None \<and>
     live s \<and> pf_remaining r \<le> u64_max \<and> pf_offset r \<le> u64_max)"

context random_access
begin

text \<open>Whatever the sizes of the reads, the file reader delivers the bytes of its range and then reports the end.\<close>

lemma file_reader:
  assumes "block data off content"
  shows "reader (sync_read ra) (file_rest content) (file_ready off content live)"
proof
  fix rs n
  assume live: "file_ready off content live rs"
  obtain r s where rs: "rs = (r, s)" by force
  have 1: "pf_contents r = (off, length content)" "pf_pending r = None" "live s"
    "pf_remaining r \<le> u64_max" "pf_offset r \<le> u64_max" using live rs by (auto simp: file_ready_def)
  let ?rest = "take (pf_remaining r) (drop (pf_offset r) content)"
  show "\<exists>bs rs'. sync_read ra rs n = Inr (bs, rs') \<and> file_ready off content live rs' \<and>
      file_rest content rs = bs @ file_rest content rs' \<and> length bs \<le> n \<and> (0 < n \<longrightarrow> file_rest content rs \<noteq> [] \<longrightarrow> bs \<noteq> [])"
  proof (cases "pf_remaining r = 0 \<or> n = 0")
    case True
    then have "sync_read ra (r, s) n = Inr ([], r, s)" using 1 by (auto simp: sync_read_def poll_read_def)
    with 1 True show ?thesis by (intro exI [of _ "[]"] exI [of _ "(r, s)"]) (auto simp: rs file_rest_def file_ready_def)
  next
    case False
    let ?want = "min n (pf_remaining r)"
    obtain bs s' where b: "contents_read_at ra (off, length content) s (pf_offset r) ?want = Inr (bs, s')" "live s'"
      "length bs \<le> ?want" "bs = take (length bs) (drop (pf_offset r) content)"
      "0 < ?want \<longrightarrow> pf_offset r < length content \<longrightarrow> bs \<noteq> []"
      using random_access.ra_law [OF contents_random_access [OF assms] 1(3), of "pf_offset r" ?want]
      by (elim exE conjE) (rule that)
    have len: "length content \<le> u64_max" by (rule random_access.data_size [OF contents_random_access [OF assms] 1(3)])
    have "length bs \<le> length content - pf_offset r" by (subst b(4)) simp
    then have off: "wrapping_add (pf_offset r) (length bs) = pf_offset r + length bs"
      using len 1(5) by (intro wrapping_add_exact) linarith
    have rem: "wrapping_sub (pf_remaining r) (length bs) = pf_remaining r - length bs"
      using b(3) 1(4) by (intro wrapping_sub_exact) simp_all
    let ?r = "r\<lparr>pf_offset := pf_offset r + length bs, pf_remaining := pf_remaining r - length bs\<rparr>"
    have "sync_read ra (r, s) n = Inr (bs, ?r, s')"
      using False 1(1,2) b(1,3) off rem by (auto simp: sync_read_def poll_read_def)
    moreover have "?rest = bs @ take (pf_remaining r - length bs) (drop (pf_offset r + length bs) content)"
      using take_add [of "length bs" "pf_remaining r - length bs" "drop (pf_offset r) content"] b(3)
      by (simp add: b(4) [symmetric] add.commute)
    moreover have "pf_offset r + length bs \<le> u64_max" using wrapping_add_bound [of "pf_offset r" "length bs"] by (simp only: off)
    ultimately show ?thesis using False 1 b(2,3,5)
      by (intro exI [of _ bs] exI [of _ "(?r, s')"])
        (auto simp: rs file_rest_def file_ready_def)
  qed
qed

lemma lookup_archived:
  assumes "live s" and "data = archive_bytes_of sip st ts" and "\<And>a b name. sip a b name \<le> u64_max"
    and "list_all names_ok ts" "list_all limits_ok ts" and "collision_free sip (PDir root_name st ts)"
    and "normal_names (components path) = (Inr names :: 'e io_failure + _)"
    and "resolve ts names = (Inr (Some t) :: 'e io_failure + _)"
  obtains root s1 fe s2 where "accessor_open_root ra s (length data) = Inr (root, s1)"
    "lookup_path sip ra s1 root path = Inr (Some fe, s2)" "live s2" "presents data (foldl path_join [47] names) t fe"
proof -
  obtain s1 where s1: "accessor_open_root ra s (length data) = Inr (opened sip 56 ts [47], s1)" "live s1"
    "block data 56 (pbytes_all sip 56 ts)"
    by (rule open_root_block [OF assms(1-3)])
  have cf: "distinct (map (name_hash sip) ts)" "list_all (collision_free sip) ts" using assms(6) by simp_all
  from lookup_names_block [OF s1(2,3) assms(3-5) cf, where names = names and base = "[47]"] assms(7,8) that s1(1)
  show ?thesis by (auto simp: lookup_path_def)
qed

end


text \<open>A server that has exactly the blobs that were posted.\<close>

definition posted_store :: "request list \<Rightarrow> store" where
  "posted_store rs d = (case map_of (posted rs) d of Some raw \<Rightarrow> Inr raw | None \<Rightarrow> Inl (NotFound ''''))"

lemma keeps_posted:
  assumes "distinct (map fst (posted rs))"
  shows "keeps (posted_store rs) decode sha256 {} cs rs"
  using assms by (auto simp: keeps_def posted_store_def)

text \<open>What a client reads of a file: everything, or a range given by its start and length.\<close>

definition in_range :: "(nat \<times> nat) option \<Rightarrow> byte list \<Rightarrow> byte list" where
  "in_range rng content = (case rng of None \<Rightarrow> content | Some (start, len) \<Rightarrow> take len (drop start content))"

definition range_ok :: "(nat \<times> nat) option \<Rightarrow> bool" where
  "range_ok rng \<longleftrightarrow> (case rng of None \<Rightarrow> True | Some (start, len) \<Rightarrow> start \<le> u64_max \<and> len \<le> u64_max)"

lemma open_reader_archived:
  assumes "serves download decode cs uses (pa_reader a)" "pa_size a = length (concat cs)"
    and "concat cs = archive_bytes_of sip st ts" and "\<And>x y name. sip x y name \<le> u64_max"
    and "list_all names_ok ts" "list_all limits_ok ts" and "collision_free sip (PDir root_name st ts)"
    and "normal_names (components path) = (Inr names :: pbs_error io_failure io_failure + _)"
    and "resolve ts names = (Inr (Some (PFile nm fst_stat content)) :: pbs_error io_failure io_failure + _)"
    and "range_ok rng"
  shows "length content \<le> u64_max \<and> (\<exists>rs rs'. open_reader sip download decode a path rng = Inr rs \<and>
    copy (Suc (length content)) (sync_read (read_into download decode)) rs [] = Inr (in_range rng content, rs'))"
proof -
  let ?live = "\<lambda>r. \<exists>uses. serves download decode cs uses r"
  have live: "?live (pa_reader a)" using assms(1) by blast
  obtain root s1 fe s2 where l: "accessor_open_root (read_into download decode) (pa_reader a) (length (concat cs)) = Inr (root, s1)"
    "lookup_path sip (read_into download decode) s1 root path = Inr (Some fe, s2)" "?live s2"
    "presents (concat cs) (foldl path_join [47] names) (PFile nm fst_stat content) fe"
    by (rule chunk_input.lookup_archived [OF live assms(3-9)])
  obtain off where off: "e_kind (fe_entry fe) = EFile (length content) (Some off)" "block (concat cs) off content"
    using l(4) by auto
  let ?r = "case rng of Some (start, len) \<Rightarrow> pbs_file_reader_new (off, length content) start len
    | None \<Rightarrow> pbs_file_reader_new (off, length content) 0 (length content)"
  have "open_reader sip download decode a path rng = Inr (?r, s2)"
    using l(1,2) off(1) assms(2)
    by (simp add: open_reader_def find_entry_def or_decode_err_def entry_contents_def split: option.split)
  moreover have le: "length content \<le> u64_max"
    using block_take [OF off(2)] chunk_input.data_size [OF live] by simp
  moreover have "file_ready off content ?live (?r, s2)"
    using l(3) le assms(10) by (auto simp: file_ready_def range_ok_def pbs_file_reader_new_def split: option.split)
  moreover have "file_rest content (?r, s2) = in_range rng content"
    by (auto simp: file_rest_def in_range_def pbs_file_reader_new_def split: option.split)
  moreover have "length (in_range rng content) < Suc (length content)"
    by (auto simp: in_range_def split: option.split)
  ultimately show ?thesis
    using reader.copy_all [OF chunk_input.file_reader [OF off(2)], where s = "(?r, s2)" and fuel = "Suc (length content)" and out = "[]"]
    by force
qed

lemma connect_index:
  assumes "download_file ''root.pxar.didx'' = Inr (header @ index_bytes (zip (ends 0 cs) ds))"
    and "length header = 4096" "length ds = length cs" and "\<forall>d \<in> set ds. length d = 32" "length (concat cs) \<le> u64_max"
  shows "connect download_file = Inr \<lparr>pa_reader = \<lparr>cr_ends = ends 0 cs, cr_digests = ds, cr_size = length (concat cs),
      cr_cache = cache_new CHUNK_CACHE_CAPACITY\<rparr>, pa_size = length (concat cs)\<rparr>"
    "parse_dynamic_index (header @ index_bytes (zip (ends 0 cs) ds)) = Inr ds"
proof -
  let ?es = "zip (ends 0 cs) ds"
  have "\<forall>(e, d) \<in> set ?es. e \<le> u64_max \<and> length d = 32"
    using assms(4,5) ends_bound [of _ 0 cs] by (fastforce dest: set_zip_leftD set_zip_rightD)
  from index_round_trip [OF this assms(2)] have p: "parse_dynamic_index_entries (header @ index_bytes ?es) = Inr ?es" .
  have "(if ?es = [] then 0 else fst (last ?es)) = length (concat cs)"
  proof (cases "cs = []")
    case False
    then have ne: "?es \<noteq> []" using assms(3) by (metis length_0_conv length_ends length_zip min.idem)
    then have "fst (last ?es) = ends 0 cs ! (length cs - 1)" using assms(3) False by (simp add: last_conv_nth)
    with False assms(3) show ?thesis by (simp only: ne if_False) (simp add: ends_nth)
  qed simp
  then show "connect download_file = Inr \<lparr>pa_reader = \<lparr>cr_ends = ends 0 cs, cr_digests = ds, cr_size = length (concat cs),
      cr_cache = cache_new CHUNK_CACHE_CAPACITY\<rparr>, pa_size = length (concat cs)\<rparr>"
    using assms(1,3) p by (simp add: connect_def Let_def)
  show "parse_dynamic_index (header @ index_bytes ?es) = Inr ds" using p assms(3) by (simp add: parse_dynamic_index_def)
qed

section \<open>Properties\<close>

fun fetch_all :: "store \<Rightarrow> decoding \<Rightarrow> chunk_reader \<Rightarrow> nat list \<Rightarrow> pbs_error io_failure + (byte list list \<times> chunk_reader)" where
  "fetch_all download decode r [] = Inr ([], r)"
| "fetch_all download decode r (i # is) =
     and_then (fetch_chunk download decode r i) (\<lambda>(chunk, r1).
     and_then (fetch_all download decode r1 is) (\<lambda>(chunks, r2). Inr (chunk # chunks, r2)))"

lemma fetch_all_serves:
  "serves download decode cs uses r \<Longrightarrow> \<forall>i \<in> set is. i < length cs \<Longrightarrow>
   \<exists>r'. fetch_all download decode r is = Inr (map (\<lambda>i. cs ! i) is, r') \<and> serves download decode cs (uses @ is) r' \<and>
     cc_capacity (cr_cache r') = cc_capacity (cr_cache r)"
proof (induction "is" arbitrary: uses r)
  case (Cons i "is")
  obtain r1 where r1: "fetch_chunk download decode r i = Inr (cs ! i, r1)" "serves download decode cs (uses @ [i]) r1"
    "cc_capacity (cr_cache r1) = cc_capacity (cr_cache r)"
    using serves_fetch [OF Cons.prems(1), of i] Cons.prems(2) by auto
  with Cons.IH [OF r1(2)] Cons.prems(2) show ?case by auto
qed simp

text \<open>
  C24. The chunk cache refines the ideal of the most recently used chunks: after any sequence of
  fetches from a server that has the chunks, the cache holds exactly the last \<open>k\<close> different chunks of
  the sequence, in the order of their last use, with their contents, where \<open>k\<close> is its capacity (at
  least one); every fetch returns the chunk asked for.
\<close>

theorem cache_keeps_recent:
  assumes "serves download decode cs [] r" and "list_all (\<lambda>i. i < length cs) is"
  shows "\<exists>r'. fetch_all download decode r is = Inr (map (\<lambda>i. cs ! i) is, r') \<and>
    (let k = cc_capacity (cr_cache r); recent = last_n k (remdups is)
     in cc_order (cr_cache r') = recent \<and> length recent \<le> k \<and>
        cc_map (cr_cache r') = (\<lambda>i. if i \<in> set recent then Some (cs ! i) else None))"
  using fetch_all_serves [OF assms(1), of "is"] assms(2)
  by (auto simp: serves_def cached_after_def list_all_iff Let_def)

text \<open>An archive of four chunks on a server that answers with the digest itself.\<close>

definition sample_reader :: "nat \<Rightarrow> chunk_reader" where
  "sample_reader capacity = \<lparr>cr_ends = [1, 2, 3, 4], cr_digests = [[7], [8], [9], [6]], cr_size = 4, cr_cache = cache_new capacity\<rparr>"

theorem cache_keeps_recent_witness:
  "\<exists>r'. fetch_all Inr Inr (sample_reader 2) [0, 1, 0, 3] = Inr ([[7], [8], [7], [6]], r') \<and> cc_order (cr_cache r') = [0, 3]"
proof -
  have "serves Inr Inr [[7], [8], [9], [6]] [] (sample_reader 2)"
    by (auto simp: serves_def sample_reader_def cached_after_new u64_max_def download_chunk_plaintext_def)
  from cache_keeps_recent [OF this, of "[0, 1, 0, 3]"] show ?thesis
    by (auto simp: last_n_def sample_reader_def cache_new_def Let_def)
qed

text \<open>
  C23. What was backed up can be read back, end to end. A tree is written as an archive, cut into chunks
  anywhere (each at most 256 MiB), and uploaded; the server keeps the posted blobs, has blobs of the
  chunks it claimed to know, and its index lists the registered digests with the end offsets. Then
  connecting succeeds; opening any archived file through the index and the chunk cache and copying it
  yields its content, or the requested range of it; and reassembling the archive yields the bytes the
  encoder wrote. The packages enter as laws: the decompressor inverts the compressor, the checksum has
  32 bits, digests have 32 bytes and separate the chunks of this archive.
\<close>

theorem stored_archive_readable:
  assumes "stat_is_dir st" and "list_all names_ok ts" "list_all limits_ok ts"
    and "\<And>x y name. sip x y name \<le> u64_max" and "collision_free sip (PDir root_name st ts)"
    and "concat cs = archive_bytes_of sip st ts" "length (concat cs) \<le> u64_max"
    and "list_all (\<lambda>c. length c \<le> MAX_DECODED_BLOB) cs"
    and "\<And>p c. compress p = Some c \<Longrightarrow> length p \<le> MAX_DECODED_BLOB \<Longrightarrow> decompress c MAX_DECODED_BLOB = Inr p"
    and "\<And>p. crc32 p < 2 ^ 32" and "\<And>c. length (sha256 c) = 32" and "inj_on sha256 (set cs)"
    and "upload_archive_named sha256 (encode_blob_with_digest compress crc32) (record_requests wid) ''root.pxar.didx''
      (map Inr cs) known [] = Inr (uploaded, rs)"
    and "keeps download (decode_blob decompress crc32) sha256 known cs rs"
    and "download_file ''root.pxar.didx'' = Inr (header @ index_bytes (zip (ends 0 cs) (map fst (registered rs))))"
    and "length header = 4096"
    and "normal_names (components path) = (Inr names :: pbs_error io_failure io_failure + _)"
    and "resolve ts names = (Inr (Some (PFile nm file_stat content)) :: pbs_error io_failure io_failure + _)"
    and "range_ok rng"
  shows "\<exists>a reader rs'. (write_archive sip st ts :: unit io_failure + byte list) = Inr (concat cs) \<and>
    connect download_file = Inr a \<and>
    open_reader sip download (decode_blob decompress crc32) a path rng = Inr reader \<and>
    copy (Suc (length content)) (sync_read (read_into download (decode_blob decompress crc32))) reader [] =
      Inr (in_range rng content, rs') \<and>
    reassemble_archive download (decode_blob decompress crc32) (download_file ''root.pxar.didx'') [] 0 =
      Inr (concat cs, length (concat cs))"
proof -
  let ?encode = "encode_blob_with_digest compress crc32" and ?decode = "decode_blob decompress crc32"
  have enc: "b_digest (?encode c d) = d \<and> plaintext_size (?encode c d) = length c" for c d
    by (simp add: encode_blob_with_digest_def Let_def split: prod.split)
  from upload_archive_requests [OF enc assms(7) refl, of sha256 wid "''root.pxar.didx''" known] assms(13)
  have up: "registered rs = zip (map sha256 cs) (starts 0 cs)" "posted rs = new_blobs sha256 ?encode known cs"
    by auto
  then have ds: "map fst (registered rs) = map sha256 cs" by simp
  have dl: "download_chunk_plaintext download ?decode (sha256 c) = Inr c" if "c \<in> set cs" for c
    using keeps_chunks [OF assms(14) up(2) assms(12) _ that] decode_encode_with_digest(1) [of compress decompress crc32] assms(8-10)
    by (simp add: list_all_iff)
  have idx: "download_file ''root.pxar.didx'' = Inr (header @ index_bytes (zip (ends 0 cs) (map sha256 cs)))"
    using assms(15) ds by simp
  note con = connect_index [where download_file = download_file, OF idx assms(16) _ _ assms(7)]
  let ?a = "\<lparr>pa_reader = \<lparr>cr_ends = ends 0 cs, cr_digests = map sha256 cs, cr_size = length (concat cs),
      cr_cache = cache_new CHUNK_CACHE_CAPACITY\<rparr>, pa_size = length (concat cs)\<rparr>"
  have c: "connect download_file = Inr ?a" "parse_dynamic_index (header @ index_bytes (zip (ends 0 cs) (map sha256 cs))) = Inr (map sha256 cs)"
    using con assms(11) by auto
  have "serves download ?decode cs [] (pa_reader ?a)"
    using assms(7) dl by (simp add: serves_def cached_after_new)
  from open_reader_archived [OF this _ assms(6,4,2,3,5,17-19)]
  have "\<exists>rs rs'. open_reader sip download ?decode ?a path rng = Inr rs \<and>
      copy (Suc (length content)) (sync_read (read_into download ?decode)) rs [] = Inr (in_range rng content, rs')" by simp
  moreover have "reassemble_archive download ?decode (download_file ''root.pxar.didx'') [] 0 = Inr (concat cs, length (concat cs))"
    using write_chunks_concat [of cs download ?decode sha256 0 "[]"] dl assms(7) c(2) idx
    by (simp add: reassemble_archive_def)
  moreover have "(write_archive sip st ts :: unit io_failure + byte list) = Inr (concat cs)"
    using write_archive_bytes [OF assms(1,2), of sip, where 'e = unit] assms(6,7) by simp
  ultimately show ?thesis using c(1) by blast
qed

text \<open>The sample tree in two chunks, with a digest that is the length of the chunk.\<close>

definition sample_digest :: "byte list \<Rightarrow> digest" where
  "sample_digest c = to_le_bytes 8 (length c) @ replicate 24 0"

definition sample_chunks :: "byte list list" where
  "sample_chunks = [take 100 (archive_bytes_of sample_sip sample_dir sample_tree),
     drop 100 (archive_bytes_of sample_sip sample_dir sample_tree)]"

lemma sample_tree_ok:
  "stat_is_dir sample_dir" "list_all names_ok sample_tree" "list_all limits_ok sample_tree"
  "\<And>a b name. sample_sip a b name \<le> u64_max" "collision_free sample_sip (PDir [] sample_dir sample_tree)"
  "200 < length (archive_bytes_of sample_sip sample_dir sample_tree)"
  "length (archive_bytes_of sample_sip sample_dir sample_tree) < 1000"
  by (simp_all add: sample_tree_def sample_dir_def builder_def stat_ok_def stat_is_dir_def stat_file_type_def IFMT_def
      IFDIR_def valid_name_def u64_max_def is_i64_def archive_bytes_of_def sample_sip_def name_hash_def
      hash_filename_def)

lemma sample_chunks_ok:
  "concat sample_chunks = archive_bytes_of sample_sip sample_dir sample_tree"
  "length (concat sample_chunks) \<le> u64_max" "list_all (\<lambda>c. length c \<le> MAX_DECODED_BLOB) sample_chunks"
  "\<And>c. length (sample_digest c) = 32" "inj_on sample_digest (set sample_chunks)"
proof -
  show "concat sample_chunks = archive_bytes_of sample_sip sample_dir sample_tree" by (simp add: sample_chunks_def)
  show "length (concat sample_chunks) \<le> u64_max" "list_all (\<lambda>c. length c \<le> MAX_DECODED_BLOB) sample_chunks"
    using sample_tree_ok(7) by (auto simp: sample_chunks_def u64_max_def MAX_DECODED_BLOB_def)
  show "length (sample_digest c) = 32" for c by (simp add: sample_digest_def)
  let ?data = "archive_bytes_of sample_sip sample_dir sample_tree"
  have "length x = length y" if "sample_digest x = sample_digest y" "length x < 1000" "length y < 1000" for x y
  proof -
    have "to_le_bytes 8 (length x) = to_le_bytes 8 (length y)" using that(1) by (simp only: sample_digest_def append_same_eq)
    moreover have "length x \<le> u64_max" "length y \<le> u64_max" using that by (simp_all add: u64_max_def)
    ultimately show ?thesis by (metis from_to_u64)
  qed
  moreover have "length (drop 100 ?data) < 1000" "length (take 100 ?data) < 1000" "length (take 100 ?data) \<noteq> length (drop 100 ?data)"
    using sample_tree_ok(6,7) by auto
  ultimately have "sample_digest (take 100 ?data) \<noteq> sample_digest (drop 100 ?data)" by metis
  then show "inj_on sample_digest (set sample_chunks)" by (auto simp: sample_chunks_def)
qed

theorem stored_archive_readable_witness:
  "\<exists>u rs a reader rs'. upload_archive_named sample_digest (encode_blob_with_digest (\<lambda>_. None) (\<lambda>_. 0)) (record_requests 1)
       ''root.pxar.didx'' (map Inr sample_chunks) {} [] = Inr (u, rs) \<and>
     open_reader sample_sip (posted_store rs) (decode_blob (\<lambda>_ _. Inl '''') (\<lambda>_. 0)) a ''a/b'' (Some (1, 9)) = Inr reader \<and>
     copy 4 (sync_read (read_into (posted_store rs) (decode_blob (\<lambda>_ _. Inl '''') (\<lambda>_. 0)))) reader [] = Inr ([2, 3], rs')"
proof -
  let ?enc = "encode_blob_with_digest (\<lambda>_. None) (\<lambda>_. 0)"
  have enc: "b_digest (?enc c d) = d \<and> plaintext_size (?enc c d) = length c" for c d
    by (simp add: encode_blob_with_digest_def)
  from upload_archive_requests [OF enc sample_chunks_ok(2) refl, of sample_digest 1 "''root.pxar.didx''" "{}"]
  obtain u rs where up: "upload_archive_named sample_digest ?enc (record_requests 1) ''root.pxar.didx'' (map Inr sample_chunks) {} [] =
      Inr (u, rs)" "distinct (map fst (posted rs))"
    by force
  let ?files = "\<lambda>_ :: string. Inr (replicate 4096 0 @ index_bytes (zip (ends 0 sample_chunks) (map fst (registered rs)))) :: pbs_error + byte list"
  have names: "normal_names (components ''a/b'') = (Inr [[97], [98]] :: pbs_error io_failure io_failure + _)"
    by (simp add: components_def Let_def)
  have res: "(resolve sample_tree [[97], [98]] :: pbs_error io_failure io_failure + _) = Inr (Some (PFile [98] (builder 33188) [1, 2, 3]))"
    by (simp add: sample_tree_def)
  have none: "None = Some c \<Longrightarrow> length p \<le> MAX_DECODED_BLOB \<Longrightarrow> Inl '''' = Inr p" for p c :: "byte list" by simp
  have zero: "(0 :: nat) < 2 ^ 32" by simp
  obtain a reader rs' where r: "open_reader sample_sip (posted_store rs) (decode_blob (\<lambda>_ _. Inl '''') (\<lambda>_. 0)) a ''a/b'' (Some (1, 9)) = Inr reader"
    "copy (Suc (length [1, 2, 3 :: byte])) (sync_read (read_into (posted_store rs) (decode_blob (\<lambda>_ _. Inl '''') (\<lambda>_. 0)))) reader [] =
       Inr (in_range (Some (1, 9)) [1, 2, 3], rs')"
    using stored_archive_readable [where download_file = ?files and rng = "Some (1, 9)", OF sample_tree_ok(1-5) sample_chunks_ok(1-3) none zero
      sample_chunks_ok(4,5) up(1) keeps_posted [OF up(2)] refl _ names res] by (auto simp: range_ok_def u64_max_def)
  have "copy 4 (sync_read (read_into (posted_store rs) (decode_blob (\<lambda>_ _. Inl '''') (\<lambda>_. 0)))) reader [] = Inr ([2, 3], rs')"
    using r(2) by (simp add: in_range_def eval_nat_numeral)
  with r(1) up(1) show ?thesis by blast
qed

text \<open>
  A read that did not complete at once keeps the length it asked for: when the next call comes with a
  smaller buffer than the data that arrives, the reader panics instead of delivering what fits.
\<close>

lemma shrunk_buffer_panics:
  assumes "pf_pending r = None" and "0 < pf_remaining r" "0 < n"
    and "contents_read_at ra (pf_contents r) s (pf_offset r) (min n (pf_remaining r)) = Inr (data, s')"
    and "m < length data"
  shows "fst (poll_read ra True (snd (poll_read ra False (r, s) n)) m) = PollPanic"
  using assms by (simp add: poll_read_def Let_def)

end
