(* ===== verification/HttpRange.thy ===== *)
theory HttpRange
  imports Readers
begin

text \<open>
  Byte ranges of downloads, \<^verbatim>\<open>server/filesystem/virtualfs/mod.rs\<close>: the \<^verbatim>\<open>Range\<close> header of a request
  becomes a pair of bounds, the reader of a file is opened for it, and the answer carries the length
  and a \<^verbatim>\<open>Content-Range\<close> header. The PBS backend (\<^verbatim>\<open>backup/adapters/pbs.rs\<close>) resolves the same bounds on
  its own.
\<close>

section \<open>Parsing the header\<close>

definition digit_value :: "char \<Rightarrow> nat option" where
  "digit_value c = (let n = of_char c in if 48 \<le> n \<and> n \<le> 57 then Some (n - 48) else None)"

fun parse_digits :: "nat \<Rightarrow> string \<Rightarrow> nat option" where
  "parse_digits acc [] = Some acc"
| "parse_digits acc (c # cs) =
     (case digit_value c of
        None \<Rightarrow> None
      | Some d \<Rightarrow> if acc * 10 + d \<le> u64_max then parse_digits (acc * 10 + d) cs else None)"

text \<open>\<^verbatim>\<open>str::parse::<u64>\<close>: digits with an optional plus sign; overflow is an error.\<close>

definition parse_u64 :: "string \<Rightarrow> nat option" where
  "parse_u64 s =
     (case s of
        [] \<Rightarrow> None
      | c # cs \<Rightarrow>
          if c = CHR ''+'' then (if cs = [] then None else parse_digits 0 cs) else parse_digits 0 s)"

fun split_dash :: "string \<Rightarrow> string list" where
  "split_dash [] = [[]]"
| "split_dash (c # cs) =
     (if c = CHR ''-'' then [] # split_dash cs
      else case split_dash cs of [] \<Rightarrow> [[c]] | s # ss \<Rightarrow> (c # s) # ss)"

definition strip_prefix :: "string \<Rightarrow> string \<Rightarrow> string option" where
  "strip_prefix pre s = (if take (length pre) s = pre then Some (drop (length pre) s) else None)"

definition bound_of :: "string \<Rightarrow> bound option" where
  "bound_of s = (if s = '''' then Some Unbounded else map_option Included (parse_u64 s))"

type_synonym byte_range = "bound \<times> bound"

definition from_headers :: "string option \<Rightarrow> byte_range option" where
  "from_headers range_header =
     (case range_header of
        None \<Rightarrow> None
      | Some range_str \<Rightarrow>
          (case strip_prefix ''bytes='' range_str of
             None \<Rightarrow> None
           | Some range_values \<Rightarrow>
               (case split_dash range_values of
                  [start_str, end_str] \<Rightarrow>
                    (case bound_of start_str of
                       None \<Rightarrow> None
                     | Some start \<Rightarrow> (case bound_of end_str of None \<Rightarrow> None | Some end_pos \<Rightarrow> Some (start, end_pos)))
                | _ \<Rightarrow> None)))"


section \<open>Bounds and the answer\<close>

fun get_start :: "byte_range \<Rightarrow> nat option" where
  "get_start (Included s, _) = Some s"
| "get_start (Excluded s, _) = Some (wrapping_add s 1)"
| "get_start (Unbounded, _) = None"

fun get_end :: "byte_range \<Rightarrow> nat option" where
  "get_end (_, Included e) = Some e"
| "get_end (_, Excluded e) = Some (wrapping_sub e 1)"
| "get_end (_, Unbounded) = None"

definition is_full :: "byte_range \<Rightarrow> bool" where
  "is_full r \<longleftrightarrow> r = (Unbounded, Unbounded)"

definition content_range_text :: "nat \<Rightarrow> nat \<Rightarrow> nat \<Rightarrow> string" where
  "content_range_text first_byte last_byte total_size = ''bytes '' @ decimal first_byte @ ''-'' @ decimal last_byte @ ''/'' @ decimal total_size"

text \<open>The first and last byte a \<^verbatim>\<open>Content-Range\<close> header announces.\<close>

fun announced :: "byte_range \<Rightarrow> nat \<Rightarrow> nat \<times> nat" where
  "announced (Included s, Included e) total_size = (s, e)"
| "announced (Included s, Excluded e) total_size = (s, wrapping_sub e 1)"
| "announced (Included s, Unbounded) total_size = (s, wrapping_sub total_size 1)"
| "announced (Excluded s, Included e) total_size = (wrapping_add s 1, e)"
| "announced (Excluded s, Excluded e) total_size = (wrapping_add s 1, wrapping_sub e 1)"
| "announced (Excluded s, Unbounded) total_size = (wrapping_add s 1, wrapping_sub total_size 1)"
| "announced (Unbounded, Included e) total_size = (0, e)"
| "announced (Unbounded, Excluded e) total_size = (0, wrapping_sub e 1)"
| "announced (Unbounded, Unbounded) total_size = (0, wrapping_sub total_size 1)"

definition get_header_value :: "byte_range \<Rightarrow> nat \<Rightarrow> string" where
  "get_header_value r total_size = (case announced r total_size of (first_byte, last_byte) \<Rightarrow> content_range_text first_byte last_byte total_size)"

record 'r file_read =
  fr_length :: nat
  fr_total :: nat
  fr_range :: "byte_range option"
  fr_reader :: 'r

datatype 's opened_file = Whole 's | Ranged "'s range_reader"

definition from_file ::
    "('s \<Rightarrow> nat \<Rightarrow> 'e + 's) \<Rightarrow> 's \<Rightarrow> 'e + nat \<Rightarrow> byte_range option \<Rightarrow> 'e io_failure + 's opened_file file_read" where
  "from_file seek handle metadata reader_range =
     (case metadata of
        Inl e \<Rightarrow> Inl (Failed e)
      | Inr len \<Rightarrow>
          (case reader_range of
             Some rng \<Rightarrow>
               and_then (range_new seek handle rng len) (\<lambda>reader.
               Inr \<lparr>fr_length = range_len reader, fr_total = len, fr_range = Some rng, fr_reader = Ranged reader\<rparr>)
           | None \<Rightarrow> Inr \<lparr>fr_length = len, fr_total = len, fr_range = None, fr_reader = Whole handle\<rparr>))"

text \<open>The headers: \<^verbatim>\<open>Content-Length\<close>, and for a range \<^verbatim>\<open>Accept-Ranges\<close> and \<^verbatim>\<open>Content-Range\<close>.\<close>

definition range_headers :: "'r file_read \<Rightarrow> (string \<times> string) list" where
  "range_headers f = (''content-length'', decimal (fr_length f)) #
     (case fr_range f of
        None \<Rightarrow> []
      | Some rng \<Rightarrow> [(''accept-ranges'', ''bytes''), (''content-range'', get_header_value rng (fr_total f))])"

text \<open>\<^verbatim>\<open>resolve_range\<close> of the PBS adapter: the window (start and length) to read, its length, and the range for the header.\<close>

definition resolve_window :: "byte_range option \<Rightarrow> nat \<Rightarrow> (nat \<times> nat) option \<times> nat \<times> byte_range option" where
  "resolve_window wanted total_size =
     (case wanted of
        None \<Rightarrow> (None, total_size, None)
      | Some rng \<Rightarrow>
          (let (start, len) =
             (case (get_start rng, get_end rng) of
                (Some start, Some end_pos) \<Rightarrow>
                  let start' = min start total_size; end' = min (saturating_add end_pos 1) total_size
                  in (start', saturating_sub end' start')
              | (Some start, None) \<Rightarrow> let start' = min start total_size in (start', saturating_sub total_size start')
              | (None, Some suff) \<Rightarrow> let len = min suff total_size in (saturating_sub total_size len, len)
              | (None, None) \<Rightarrow> (0, total_size))
           in (Some (start, len), len, Some rng)))"


section \<open>Reading what was written\<close>

lemma of_char_digit: "d < 10 \<Longrightarrow> (of_char (char_of (48 + d :: nat)) :: nat) = 48 + d"
  by (simp add: of_char_of)

lemma digit_value_digit [simp]: "d < 10 \<Longrightarrow> digit_value (char_of (48 + d)) = Some d"
  by (simp add: digit_value_def of_char_digit Let_def)

lemma digit_neq:
  assumes "d < 10"
  shows "char_of (48 + d :: nat) \<noteq> CHR ''-''" "char_of (48 + d :: nat) \<noteq> CHR ''+''"
  using of_char_digit [OF assms] by (auto dest: arg_cong [of _ _ "of_char :: char \<Rightarrow> nat"])

lemma parse_digits_snoc:
  "parse_digits acc (cs @ [c]) =
     (case parse_digits acc cs of None \<Rightarrow> None
      | Some n \<Rightarrow> (case digit_value c of None \<Rightarrow> None | Some d \<Rightarrow> if n * 10 + d \<le> u64_max then Some (n * 10 + d) else None))"
  by (induction acc cs rule: parse_digits.induct) (auto split: option.splits)

lemma parse_digits_decimal: "n \<le> u64_max \<Longrightarrow> parse_digits 0 (decimal n) = Some n"
proof (induction n rule: decimal.induct)
  case (1 n)
  show ?case
  proof (cases "n < 10")
    case True
    with "1.prems" show ?thesis by (simp add: decimal.simps [of n])
  next
    case False
    have "n div 10 \<le> u64_max" using "1.prems" by simp
    from "1.IH" [OF False this] False "1.prems" show ?thesis
      by (simp add: decimal.simps [of n] parse_digits_snoc)
  qed
qed

lemma decimal_chars: "c \<in> set (decimal n) \<Longrightarrow> \<exists>d < 10. c = char_of (48 + d :: nat)"
proof (induction n rule: decimal.induct)
  case (1 n)
  show ?case
  proof (cases "n < 10")
    case True
    with "1.prems" show ?thesis by (auto simp: decimal.simps [of n])
  next
    case False
    with "1.prems" have "c \<in> set (decimal (n div 10)) \<or> c = char_of (48 + n mod 10)" by (auto simp: decimal.simps [of n])
    moreover have "n mod 10 < 10" by simp
    ultimately show ?thesis using "1.IH" [OF False] by metis
  qed
qed

lemma decimal_ne: "decimal n \<noteq> []"
  by (subst decimal.simps) simp

lemma parse_u64_decimal: "n \<le> u64_max \<Longrightarrow> parse_u64 (decimal n) = Some n"
proof -
  assume n: "n \<le> u64_max"
  obtain c cs where c: "decimal n = c # cs" using decimal_ne by (cases "decimal n") auto
  then have "c \<noteq> CHR ''+''" using decimal_chars [of c n] digit_neq(2) by auto
  with c parse_digits_decimal [OF n] show ?thesis by (simp add: parse_u64_def)
qed

lemma split_dash_none: "CHR ''-'' \<notin> set s \<Longrightarrow> split_dash s = [s]"
  by (induction s) auto

lemma split_dash_two: "CHR ''-'' \<notin> set a \<Longrightarrow> split_dash (a @ CHR ''-'' # b) = a # split_dash b"
  by (induction a) auto

lemma dash_not_in_decimal: "CHR ''-'' \<notin> set (decimal n)"
  using decimal_chars digit_neq(1) by metis

lemma bound_of_empty: "bound_of '''' = Some Unbounded"
  by (simp add: bound_of_def)

lemma bound_of_decimal: "n \<le> u64_max \<Longrightarrow> bound_of (decimal n) = Some (Included n)"
  by (simp add: bound_of_def decimal_ne parse_u64_decimal)

section \<open>Properties\<close>

text \<open>
  Range headers are read as they are written: for all 64-bit numbers the three forms of a range
  (first and last byte, first byte only, last byte only) are parsed to the bounds they denote.
\<close>

lemma range_header_round_trip:
  assumes "s \<le> u64_max" and "e \<le> u64_max"
  shows "from_headers (Some (''bytes='' @ decimal s @ ''-'' @ decimal e)) = Some (Included s, Included e) \<and>
    from_headers (Some (''bytes='' @ decimal s @ ''-'')) = Some (Included s, Unbounded) \<and>
    from_headers (Some (''bytes=-'' @ decimal e)) = Some (Unbounded, Included e)"
proof -
  have "split_dash (decimal s @ CHR ''-'' # decimal e) = [decimal s, decimal e]"
    "split_dash (decimal s @ CHR ''-'' # '''') = [decimal s, '''']"
    by (simp_all add: split_dash_two split_dash_none dash_not_in_decimal)
  moreover have "split_dash (CHR ''-'' # decimal e) = ['''', decimal e]"
    by (simp add: split_dash_none dash_not_in_decimal)
  ultimately show ?thesis
    using assms by (simp add: from_headers_def strip_prefix_def bound_of_decimal bound_of_empty)
qed

text \<open>The bytes of a file that a range asks for.\<close>

definition requested :: "byte_range \<Rightarrow> nat \<Rightarrow> nat \<Rightarrow> bool" where
  "requested rng total_size i \<longleftrightarrow> i < total_size \<and>
     (case (get_start rng, get_end rng) of
        (Some s, Some e) \<Rightarrow> s \<le> i \<and> i \<le> e
      | (Some s, None) \<Rightarrow> s \<le> i
      | (None, Some n) \<Rightarrow> total_size - n \<le> i
      | (None, None) \<Rightarrow> True)"

lemma resolve_window_spec:
  assumes "total_size \<le> u64_max" and "resolve_window (Some rng) total_size = (Some (start, len), sz, rng')"
  shows "start + len \<le> total_size \<and> sz = len \<and> rng' = Some rng \<and>
    {i. start \<le> i \<and> i < start + len} = {i. requested rng total_size i}"
proof -
  have sat: "min (saturating_add e (Suc 0)) total_size = min (Suc e) total_size" for e
    using assms(1) by (auto simp: saturating_add_def min_def)
  have cap: "min a total_size + (min b total_size - min a total_size) \<le> total_size" for a b by linarith
  show ?thesis
    using assms(2)
    by (cases "get_start rng"; cases "get_end rng")
      (auto simp: resolve_window_def requested_def Let_def sat cap saturating_sub_def)
qed



text \<open>
  Suffix ranges are answered inconsistently: for a request of the last \<open>n\<close> bytes the PBS backend
  serves the last \<open>n\<close> bytes and announces the first \<open>n + 1\<close> in its header, while the reader for local
  files serves the first \<open>n + 1\<close> bytes.
\<close>

lemma suffix_range_misreported:
  assumes "0 < n" and "n < total_size" "total_size \<le> u64_max"
  shows "\<exists>rng. from_headers (Some (''bytes=-'' @ decimal n)) = Some rng \<and>
    resolve_window (Some rng) total_size = (Some (total_size - n, n), n, Some rng) \<and>
    get_header_value rng total_size = content_range_text 0 n total_size \<and>
    (resolve_range rng total_size :: unit io_failure + _) = Inr (0, n)"
proof (intro exI [of _ "(Unbounded, Included n)"] conjI)
  have "split_dash (CHR ''-'' # decimal n) = ['''', decimal n]"
    by (simp add: split_dash_none dash_not_in_decimal)
  then show "from_headers (Some (''bytes=-'' @ decimal n)) = Some (Unbounded, Included n)"
    using assms bound_of_decimal [of n] by (simp add: from_headers_def strip_prefix_def bound_of_empty)
  show "resolve_window (Some (Unbounded, Included n)) total_size = (Some (total_size - n, n), n, Some (Unbounded, Included n))"
    using assms by (simp add: resolve_window_def saturating_sub_def Let_def)
  show "get_header_value (Unbounded, Included n) total_size = content_range_text 0 n total_size"
    by (simp add: get_header_value_def)
  show "(resolve_range (Unbounded, Included n) total_size :: unit io_failure + _) = Inr (0, n)"
    using assms by (simp add: resolve_range_def checked_sub_def min_def)
qed

end
