(* ===== verification/PbsTree.thy ===== *)
theory PbsTree
  imports SortedVec Catalog WalkDir ChunkReader HttpRange "HOL-Library.Multiset"
begin

text \<open>
  Browsing a backup snapshot, \<^verbatim>\<open>server/backup/adapters/pbs.rs\<close>: the entries of the catalogue become a tree
  of directories with sorted children, directories get the size of what lies below them, and the
  virtual file system looks up paths, lists directories page by page, walks subtrees and opens files
  for a range. The clock library's range check (\<open>from_timestamp\<close>), the detection of MIME types, the
  file type encoded in a raw mode and the unstable sort of the standard library are parameters.
\<close>

section \<open>The tree\<close>

record file_meta =
  fm_file_type :: file_type
  fm_mode :: nat
  fm_size :: nat
  fm_mtime :: int
  fm_symlink :: "byte list option"

datatype pbs_node = PbsNode (pn_size: nat) (pn_mtime: int) (pn_mode: nat) (pn_explicit: bool)
  (pn_dirs: "(string \<times> pbs_node) list") (pn_files: "(string \<times> file_meta) list")

definition default_node :: pbs_node where
  "default_node = PbsNode 0 0 0 False [] []"

definition with_dirs :: "(string \<times> pbs_node) list \<Rightarrow> pbs_node \<Rightarrow> pbs_node" where
  "with_dirs ds n = PbsNode (pn_size n) (pn_mtime n) (pn_mode n) (pn_explicit n) ds (pn_files n)"

text \<open>
  \<^verbatim>\<open>upsert_dir_path\<close> hands out a mutable reference to the node at a path, creating the nodes on the way;
  the model takes the update that is made through it.
\<close>

fun upsert_dir_path :: "(pbs_node \<Rightarrow> pbs_node) \<Rightarrow> string list \<Rightarrow> pbs_node \<Rightarrow> pbs_node" where
  "upsert_dir_path update [] current = update current"
| "upsert_dir_path update (name # names) current =
     (case search_entry name (pn_dirs current) of
        Inr idx \<Rightarrow>
          with_dirs ((pn_dirs current)[idx := (fst (pn_dirs current ! idx),
            upsert_dir_path update names (snd (pn_dirs current ! idx)))]) current
      | Inl idx \<Rightarrow>
          with_dirs (take idx (pn_dirs current) @ (name, upsert_dir_path update names default_node) #
            drop idx (pn_dirs current)) current)"

definition entry_names :: "byte list \<Rightarrow> string list" where
  "entry_names path = List.map_filter (\<lambda>c. to_str (as_os_str c)) (components (map char_of path))"

definition meta_of :: "(int \<Rightarrow> int option) \<Rightarrow> archive_entry \<Rightarrow> file_meta" where
  "meta_of from_timestamp e =
     \<lparr>fm_file_type = (if a_kind e = KSymlink then WalkDir.Symlink else File), fm_mode = a_mode e, fm_size = a_size e,
      fm_mtime = (case from_timestamp (a_mtime e) of Some t \<Rightarrow> t | None \<Rightarrow> 0), fm_symlink = a_symlink e\<rparr>"

definition mark_dir :: "(int \<Rightarrow> int option) \<Rightarrow> archive_entry \<Rightarrow> pbs_node \<Rightarrow> pbs_node" where
  "mark_dir from_timestamp e n =
     PbsNode (pn_size n) (case from_timestamp (a_mtime e) of Some t \<Rightarrow> t | None \<Rightarrow> 0) (a_mode e) True (pn_dirs n) (pn_files n)"

definition push_file :: "string \<times> file_meta \<Rightarrow> pbs_node \<Rightarrow> pbs_node" where
  "push_file f n = PbsNode (pn_size n) (pn_mtime n) (pn_mode n) (pn_explicit n) (pn_dirs n) (pn_files n @ [f])"

definition insert_entry :: "(int \<Rightarrow> int option) \<Rightarrow> archive_entry \<Rightarrow> pbs_node \<Rightarrow> pbs_node" where
  "insert_entry from_timestamp e root =
     (let names = entry_names (a_path e)
      in if names = [] then root
         else if a_kind e = KDirectory then upsert_dir_path (mark_dir from_timestamp e) names root
         else upsert_dir_path (push_file (last names, meta_of from_timestamp e)) (butlast names) root)"

text \<open>\<^verbatim>\<open>dedup_by\<close>: of entries in a row with the same name the first stays.\<close>

fun dedup_files :: "(string \<times> file_meta) list \<Rightarrow> (string \<times> file_meta) list" where
  "dedup_files (x # y # zs) = (if fst y = fst x then dedup_files (x # zs) else x # dedup_files (y # zs))"
| "dedup_files xs = xs"

fun sort_files :: "pbs_node \<Rightarrow> pbs_node" where
  "sort_files (PbsNode sz mtime mode ex ds fs) =
     PbsNode sz mtime mode ex (map (\<lambda>(name, child). (name, sort_files child)) ds) (dedup_files (sort_key fst (rev fs)))"

fun aggregate_sizes :: "pbs_node \<Rightarrow> pbs_node" where
  "aggregate_sizes (PbsNode sz mtime mode ex ds fs) =
     (let children = map (\<lambda>(name, child). (name, aggregate_sizes child)) ds
      in PbsNode (foldl (\<lambda>total_size (_, child). saturating_add total_size (pn_size child))
                    (foldl wrapping_add 0 (map (\<lambda>(_, m). fm_size m) fs)) children)
           mtime mode ex children fs)"

definition build :: "(int \<Rightarrow> int option) \<Rightarrow> archive_entry list \<Rightarrow> pbs_node" where
  "build from_timestamp es = aggregate_sizes (sort_files (fold (insert_entry from_timestamp) es default_node))"

text \<open>\<^verbatim>\<open>Path::parent\<close> and \<^verbatim>\<open>Path::file_name\<close> on the components of a path.\<close>

definition parent_components :: "component list \<Rightarrow> component list option" where
  "parent_components cs = (if cs = [] \<or> last cs = RootDir then None else Some (butlast cs))"

fun last_name :: "component list \<Rightarrow> string option" where
  "last_name [] = None"
| "last_name cs = (case last cs of Normal s \<Rightarrow> Some s | _ \<Rightarrow> None)"

fun descend :: "pbs_node \<Rightarrow> component list \<Rightarrow> pbs_node option" where
  "descend current [] = Some current"
| "descend current (c # cs) =
     (case to_str (as_os_str c) of
        None \<Rightarrow> None
      | Some name \<Rightarrow>
          (case search_entry name (pn_dirs current) of
             Inl _ \<Rightarrow> None
           | Inr idx \<Rightarrow> if idx < length (pn_dirs current) then descend (snd (pn_dirs current ! idx)) cs else None))"

definition lookup_dir :: "pbs_node \<Rightarrow> component list \<Rightarrow> pbs_node option" where
  "lookup_dir root cs = (if cs = [] \<or> cs = [RootDir] then Some root else descend root cs)"

definition lookup_file :: "pbs_node \<Rightarrow> component list \<Rightarrow> file_meta option" where
  "lookup_file root cs =
     (case parent_components cs of
        None \<Rightarrow> None
      | Some parent_path \<Rightarrow>
          (case last_name cs of
             None \<Rightarrow> None
           | Some leaf \<Rightarrow>
               (case to_str leaf of
                  None \<Rightarrow> None
                | Some leaf_name \<Rightarrow>
                    (case lookup_dir root parent_path of
                       None \<Rightarrow> None
                     | Some parent \<Rightarrow>
                         (case search_entry leaf_name (pn_files parent) of
                            Inl _ \<Rightarrow> None
                          | Inr idx \<Rightarrow> if idx < length (pn_files parent) then Some (snd (pn_files parent ! idx)) else None)))))"


section \<open>The virtual file system\<close>

definition from_mode_file :: "nat \<Rightarrow> nat" where
  "from_mode_file mode = (mode AND 511) OR 384"

definition from_mode_dir :: "nat \<Rightarrow> nat" where
  "from_mode_dir mode = (mode AND 511) OR 448"

record file_metadata =
  md_file_type :: file_type
  md_permissions :: nat
  md_size :: nat
  md_modified :: "int option"

definition dir_mode :: "pbs_node \<Rightarrow> nat" where
  "dir_mode node = (if pn_mode node \<noteq> 0 then pn_mode node else 493)"

definition metadata :: "pbs_node \<Rightarrow> string \<Rightarrow> file_metadata option" where
  "metadata tree path =
     (let cs = components path
      in if cs = [] \<or> cs = [RootDir] then
           Some \<lparr>md_file_type = Dir, md_permissions = from_mode_dir 493, md_size = 0, md_modified = None\<rparr>
         else case lookup_dir tree cs of
                Some node \<Rightarrow>
                  Some \<lparr>md_file_type = Dir, md_permissions = from_mode_dir (dir_mode node), md_size = 0,
                        md_modified = (if pn_explicit node then Some (pn_mtime node) else None)\<rparr>
              | None \<Rightarrow>
                  map_option (\<lambda>m. \<lparr>md_file_type = fm_file_type m, md_permissions = from_mode_file (fm_mode m),
                      md_size = fm_size m, md_modified = Some (fm_mtime m)\<rparr>) (lookup_file tree cs))"

text \<open>\<^verbatim>\<open>encode_mode\<close> of \<^verbatim>\<open>server/filesystem/mod.rs\<close>: the type and the nine permission bits.\<close>

definition encode_mode :: "(nat \<Rightarrow> char) \<Rightarrow> nat \<Rightarrow> string" where
  "encode_mode type_char mode =
     type_char mode # map (\<lambda>i. if mode AND push_bit (8 - i) 1 \<noteq> 0
       then (if i mod 3 = 0 then CHR ''r'' else if i mod 3 = 1 then CHR ''w'' else CHR ''x'') else CHR ''-'') [0..<9]"

fun octal :: "nat \<Rightarrow> string" where
  "octal n = (if n < 8 then [char_of (48 + n)] else octal (n div 8) @ [char_of (48 + n mod 8)])"

declare octal.simps [simp del]

record mime_value =
  mv_mime :: string
  mv_valid_utf8 :: bool
  mv_valid_inner_utf8 :: bool

record directory_entry =
  en_name :: string
  en_mode :: string
  en_mode_bits :: string
  en_size :: nat
  en_editable :: bool
  en_inner_editable :: bool
  en_directory :: bool
  en_file :: bool
  en_symlink :: bool
  en_mime :: string
  en_modified :: int

definition display_name :: "string \<Rightarrow> string" where
  "display_name path = (case last_name (components path) of Some s \<Rightarrow> to_string_lossy s | None \<Rightarrow> '''')"

definition directory_entry_from_dir_node :: "(nat \<Rightarrow> char) \<Rightarrow> string \<Rightarrow> pbs_node \<Rightarrow> directory_entry" where
  "directory_entry_from_dir_node type_char path node =
     \<lparr>en_name = display_name path, en_mode = encode_mode type_char (dir_mode node), en_mode_bits = octal (dir_mode node AND 511),
      en_size = pn_size node, en_editable = False, en_inner_editable = False, en_directory = True, en_file = False,
      en_symlink = False, en_mime = ''inode/directory'', en_modified = pn_mtime node\<rparr>"

definition directory_entry_from_file_meta ::
    "(nat \<Rightarrow> char) \<Rightarrow> (string \<Rightarrow> byte list option \<Rightarrow> mime_value) \<Rightarrow> string \<Rightarrow> file_meta \<Rightarrow> byte list option \<Rightarrow> directory_entry" where
  "directory_entry_from_file_meta type_char detect_mime path meta buffer =
     (let mime =
        (if fm_file_type meta = WalkDir.Symlink then
           \<lparr>mv_mime = ''inode/symlink'', mv_valid_utf8 = False, mv_valid_inner_utf8 = False\<rparr>
         else if fm_file_type meta = File \<and> fm_size meta = 0 then
           \<lparr>mv_mime = ''text/plain'', mv_valid_utf8 = True, mv_valid_inner_utf8 = False\<rparr>
         else detect_mime path buffer)
      in \<lparr>en_name = display_name path, en_mode = encode_mode type_char (fm_mode meta), en_mode_bits = octal (fm_mode meta AND 511),
          en_size = fm_size meta, en_editable = (fm_file_type meta = File \<and> mv_valid_utf8 mime),
          en_inner_editable = (fm_file_type meta = File \<and> mv_valid_inner_utf8 mime), en_directory = False,
          en_file = (fm_file_type meta = File), en_symlink = (fm_file_type meta = WalkDir.Symlink), en_mime = mv_mime mime,
          en_modified = fm_mtime meta\<rparr>)"

definition lookup_entry ::
    "(nat \<Rightarrow> char) \<Rightarrow> (string \<Rightarrow> byte list option \<Rightarrow> mime_value) \<Rightarrow> pbs_node \<Rightarrow> string \<Rightarrow> byte list option \<Rightarrow> directory_entry option" where
  "lookup_entry type_char detect_mime tree path buffer =
     (case lookup_dir tree (components path) of
        Some node \<Rightarrow> Some (directory_entry_from_dir_node type_char path node)
      | None \<Rightarrow> map_option (\<lambda>m. directory_entry_from_file_meta type_char detect_mime path m buffer) (lookup_file tree (components path)))"

datatype directory_sorting_mode = NameAsc | NameDesc | SizeAsc | SizeDesc | PhysicalSizeAsc | PhysicalSizeDesc
  | ModifiedAsc | ModifiedDesc | CreatedAsc | CreatedDesc

datatype child = ChildDir string pbs_node | ChildFile string file_meta

fun child_key :: "child \<Rightarrow> string \<times> nat \<times> int" where
  "child_key (ChildDir name node) = (name, pn_size node, pn_mtime node)"
| "child_key (ChildFile name meta) = (name, fm_size meta, fm_mtime meta)"

definition to_ascii_lowercase :: "char \<Rightarrow> char" where
  "to_ascii_lowercase c = (let n = of_char c :: nat in if 65 \<le> n \<and> n \<le> 90 then char_of (n + 32) else c)"

definition cmp_ascii_case_insensitive :: "string \<Rightarrow> string \<Rightarrow> ordering" where
  "cmp_ascii_case_insensitive a b = cmp (map to_ascii_lowercase a) (map to_ascii_lowercase b)"

definition compare_children :: "directory_sorting_mode \<Rightarrow> child \<Rightarrow> child \<Rightarrow> ordering" where
  "compare_children sort_mode a b =
     (case (child_key a, child_key b) of ((name_a, size_a, mtime_a), (name_b, size_b, mtime_b)) \<Rightarrow>
        (case sort_mode of
           NameAsc \<Rightarrow> cmp_ascii_case_insensitive name_a name_b
         | NameDesc \<Rightarrow> cmp_ascii_case_insensitive name_b name_a
         | SizeAsc \<Rightarrow> cmp size_a size_b
         | PhysicalSizeAsc \<Rightarrow> cmp size_a size_b
         | SizeDesc \<Rightarrow> cmp size_b size_a
         | PhysicalSizeDesc \<Rightarrow> cmp size_b size_a
         | ModifiedAsc \<Rightarrow> cmp mtime_a mtime_b
         | CreatedAsc \<Rightarrow> cmp mtime_a mtime_b
         | ModifiedDesc \<Rightarrow> cmp mtime_b mtime_a
         | CreatedDesc \<Rightarrow> cmp mtime_b mtime_a))"

text \<open>\<^verbatim>\<open>PathBuf::push\<close> on byte strings.\<close>

definition push_path :: "string \<Rightarrow> string \<Rightarrow> string" where
  "push_path base name = map char_of (path_join (map of_char base) (map of_char name))"

type_synonym ignore_filter = "file_type \<Rightarrow> string \<Rightarrow> string option"

definition kept_dirs :: "ignore_filter \<Rightarrow> string \<Rightarrow> pbs_node \<Rightarrow> child list" where
  "kept_dirs is_ignored path node =
     map (\<lambda>(name, d). ChildDir name d) (filter (\<lambda>(name, d). is_ignored Dir (push_path path name) \<noteq> None) (pn_dirs node))"

definition kept_files :: "ignore_filter \<Rightarrow> string \<Rightarrow> pbs_node \<Rightarrow> child list" where
  "kept_files is_ignored path node =
     map (\<lambda>(name, m). ChildFile name m)
       (filter (\<lambda>(name, m). is_ignored (fm_file_type m) (push_path path name) \<noteq> None) (pn_files node))"

definition child_entry ::
    "(nat \<Rightarrow> char) \<Rightarrow> (string \<Rightarrow> byte list option \<Rightarrow> mime_value) \<Rightarrow> string \<Rightarrow> child \<Rightarrow> directory_entry" where
  "child_entry type_char detect_mime path c =
     (case c of
        ChildDir name node \<Rightarrow> directory_entry_from_dir_node type_char (push_path path name) node
      | ChildFile name meta \<Rightarrow> directory_entry_from_file_meta type_char detect_mime (push_path path name) meta None)"

definition select_page :: "nat option \<Rightarrow> nat \<Rightarrow> 'a list \<Rightarrow> 'a list" where
  "select_page per_page page merged =
     (case per_page of
        Some k \<Rightarrow> take k (drop (((page - 1) * k) mod 2 ^ 64) merged)
      | None \<Rightarrow> merged)"

definition read_dir ::
    "((child \<Rightarrow> child \<Rightarrow> ordering) \<Rightarrow> child list \<Rightarrow> child list) \<Rightarrow> (nat \<Rightarrow> char) \<Rightarrow>
     (string \<Rightarrow> byte list option \<Rightarrow> mime_value) \<Rightarrow> pbs_node \<Rightarrow> string \<Rightarrow> nat option \<Rightarrow> nat \<Rightarrow> ignore_filter \<Rightarrow>
     directory_sorting_mode \<Rightarrow> nat \<times> directory_entry list" where
  "read_dir sort_unstable_by type_char detect_mime tree path per_page page is_ignored sort_mode =
     (case lookup_dir tree (components path) of
        None \<Rightarrow> (0, [])
      | Some node \<Rightarrow>
          (let dirs = sort_unstable_by (compare_children sort_mode) (kept_dirs is_ignored path node);
               files = sort_unstable_by (compare_children sort_mode) (kept_files is_ignored path node)
           in (length dirs + length files, map (child_entry type_char detect_mime path) (select_page per_page page (dirs @ files)))))"

text \<open>The walks below a directory, files before subdirectories.\<close>

fun walk :: "ignore_filter \<Rightarrow> pbs_node \<Rightarrow> string \<Rightarrow> (file_type \<times> string) list" where
  "walk is_ignored (PbsNode sz mtime mode ex ds fs) path =
     List.map_filter (\<lambda>(name, m). map_option (\<lambda>p. (fm_file_type m, p)) (is_ignored (fm_file_type m) (push_path path name))) fs @
     concat (map (\<lambda>(name, child).
       (case is_ignored Dir (push_path path name) of Some p \<Rightarrow> [(Dir, p)] | None \<Rightarrow> []) @
       walk is_ignored child (push_path path name)) ds)"

definition walk_dir :: "pbs_node \<Rightarrow> ignore_filter \<Rightarrow> string \<Rightarrow> (file_type \<times> string) list" where
  "walk_dir tree is_ignored path =
     (case lookup_dir tree (components path) of None \<Rightarrow> [] | Some node \<Rightarrow> walk is_ignored node path)"

record subtree_entry =
  se_relative :: string
  se_archive_path :: string
  se_file_type :: file_type
  se_mode :: nat
  se_mtime :: int
  se_size :: nat
  se_symlink :: "byte list option"

fun collect_subtree :: "ignore_filter \<Rightarrow> pbs_node \<Rightarrow> string \<Rightarrow> string \<Rightarrow> subtree_entry list" where
  "collect_subtree is_ignored (PbsNode sz mtime mode ex ds fs) archive_dir relative_dir =
     map (\<lambda>(name, m). \<lparr>se_relative = push_path relative_dir name, se_archive_path = push_path archive_dir name,
         se_file_type = fm_file_type m, se_mode = fm_mode m, se_mtime = fm_mtime m, se_size = fm_size m, se_symlink = fm_symlink m\<rparr>)
       (filter (\<lambda>(name, m). is_ignored (fm_file_type m) (push_path archive_dir name) \<noteq> None) fs) @
     concat (map (\<lambda>(name, child).
       (if is_ignored Dir (push_path archive_dir name) = None then []
        else \<lparr>se_relative = push_path relative_dir name, se_archive_path = push_path archive_dir name,
              se_file_type = Dir, se_mode = dir_mode child, se_mtime = pn_mtime child, se_size = 0, se_symlink = None\<rparr> #
             collect_subtree is_ignored child (push_path archive_dir name) (push_path relative_dir name))) ds)"

datatype vfs_error = VfsNotFound string | Pbs pbs_error

definition read_file ::
    "(nat \<Rightarrow> nat \<Rightarrow> byte list \<Rightarrow> nat) \<Rightarrow> store \<Rightarrow> decoding \<Rightarrow> pbs_node \<Rightarrow> pbs_archive \<Rightarrow> string \<Rightarrow>
     byte_range option \<Rightarrow> vfs_error + (pbs_file_reader \<times> chunk_reader) file_read" where
  "read_file sip download decode tree a path rng =
     (case metadata tree path of
        None \<Rightarrow> Inl (VfsNotFound ''File not found'')
      | Some md \<Rightarrow>
          if md_file_type md \<noteq> File then Inl (VfsNotFound ''File not found'')
          else case resolve_window rng (md_size md) of
                 (window, sz, reader_range) \<Rightarrow>
                   and_then (map_sum Pbs id (open_reader sip download decode a path window)) (\<lambda>reader.
                   Inr \<lparr>fr_length = sz, fr_total = md_size md, fr_range = reader_range, fr_reader = reader\<rparr>))"

definition read_symlink ::
    "(nat \<Rightarrow> nat \<Rightarrow> byte list \<Rightarrow> nat) \<Rightarrow> store \<Rightarrow> decoding \<Rightarrow> pbs_node \<Rightarrow> pbs_archive \<Rightarrow> string \<Rightarrow> vfs_error + byte list" where
  "read_symlink sip download decode tree a path =
     (case lookup_file tree (components path) of
        Some m \<Rightarrow>
          if fm_file_type m = WalkDir.Symlink then
            (case fm_symlink m of
               Some tgt \<Rightarrow> Inr tgt
             | None \<Rightarrow> map_sum Pbs fst (read_link sip download decode a path))
          else Inl (VfsNotFound ''Symlink not found'')
      | None \<Rightarrow> Inl (VfsNotFound ''Symlink not found''))"

definition browse ::
    "(int \<Rightarrow> int option) \<Rightarrow> store \<Rightarrow> decoding \<Rightarrow> (string \<Rightarrow> pbs_error + byte list) \<Rightarrow> pbs_error + (pbs_archive \<times> pbs_node)" where
  "browse from_timestamp download decode download_file =
     and_then (connect download_file) (\<lambda>a.
     and_then (read_catalog download decode download_file) (\<lambda>catalog.
     and_then (parse_catalog catalog) (\<lambda>es. Inr (a, build from_timestamp es))))"

section \<open>The tree as a map from paths\<close>

fun wf_node :: "pbs_node \<Rightarrow> bool" where
  "wf_node (PbsNode sz mtime mode ex ds fs) \<longleftrightarrow> sorted_keys ds \<and> (\<forall>d \<in> set ds. wf_node (snd d))"

fun dir_at :: "pbs_node \<Rightarrow> string list \<Rightarrow> pbs_node option" where
  "dir_at n [] = Some n"
| "dir_at n (x # xs) = (case map_of (pn_dirs n) x of None \<Rightarrow> None | Some m \<Rightarrow> dir_at m xs)"

abbreviation node_or_new :: "pbs_node option \<Rightarrow> pbs_node" where
  "node_or_new r \<equiv> (case r of None \<Rightarrow> default_node | Some m \<Rightarrow> m)"

lemma with_dirs_sel [simp]:
  "pn_size (with_dirs ds n) = pn_size n" "pn_mtime (with_dirs ds n) = pn_mtime n" "pn_mode (with_dirs ds n) = pn_mode n"
  "pn_explicit (with_dirs ds n) = pn_explicit n" "pn_dirs (with_dirs ds n) = ds" "pn_files (with_dirs ds n) = pn_files n"
  by (simp_all add: with_dirs_def)

lemma default_node_sel [simp]: "pn_dirs default_node = []" "pn_files default_node = []" "wf_node default_node"
  by (simp_all add: default_node_def)

lemma wf_node_iff: "wf_node n \<longleftrightarrow> sorted_keys (pn_dirs n) \<and> (\<forall>x m. map_of (pn_dirs n) x = Some m \<longrightarrow> wf_node m)"
proof (cases n)
  case (PbsNode sz mtime mode ex ds fs)
  have "sorted_keys ds \<Longrightarrow> (\<forall>d \<in> set ds. wf_node (snd d)) \<longleftrightarrow> (\<forall>x m. map_of ds x = Some m \<longrightarrow> wf_node m)"
    using sorted_keys_distinct [of ds] by (auto simp: map_of_eq_Some_iff)
  with PbsNode show ?thesis by auto
qed

lemma upsert_dirs:
  assumes "sorted_keys (pn_dirs n)"
  shows "\<exists>ds. upsert_dir_path update (x # xs) n = with_dirs ds n \<and> sorted_keys ds \<and>
    map_of ds = (map_of (pn_dirs n))(x \<mapsto> upsert_dir_path update xs (node_or_new (map_of (pn_dirs n) x)))"
proof (cases "search_entry x (pn_dirs n)")
  case (Inl idx)
  with assms search_entry_map_of [OF assms, of x] show ?thesis
    by (intro exI [of _ "take idx (pn_dirs n) @ (x, upsert_dir_path update xs default_node) # drop idx (pn_dirs n)"])
      (simp add: sorted_keys_insert map_of_insert del: map_of_append)
next
  case (Inr idx)
  note hit = search_entry_Inr [OF assms Inr]
  with assms Inr search_entry_map_of [OF assms, of x] sorted_keys_update_nth [OF hit(1)] map_of_update_nth [OF assms hit(1)]
  show ?thesis
    by (intro exI [of _ "(pn_dirs n)[idx := (fst (pn_dirs n ! idx), upsert_dir_path update xs (snd (pn_dirs n ! idx)))]"]) simp
qed

lemma wf_upsert:
  "(\<And>m. wf_node m \<Longrightarrow> wf_node (update m)) \<Longrightarrow> wf_node n \<Longrightarrow> wf_node (upsert_dir_path update p n)"
proof (induction p arbitrary: n)
  case (Cons x xs)
  have "sorted_keys (pn_dirs n)" using Cons.prems(2) wf_node_iff by blast
  from upsert_dirs [OF this, of update x xs] obtain ds where ds: "upsert_dir_path update (x # xs) n = with_dirs ds n"
    "sorted_keys ds" "map_of ds = (map_of (pn_dirs n))(x \<mapsto> upsert_dir_path update xs (node_or_new (map_of (pn_dirs n) x)))"
    by blast
  have "wf_node (node_or_new (map_of (pn_dirs n) x))"
    using Cons.prems(2) wf_node_iff [of n] by (simp split: option.split)
  with Cons have "wf_node (upsert_dir_path update xs (node_or_new (map_of (pn_dirs n) x)))" by blast
  with ds Cons.prems(2) wf_node_iff [of n] wf_node_iff [of "with_dirs ds n"] show ?case by simp
qed simp

text \<open>
  What can be seen of a node apart from its subdirectories: updating the node at \<open>p\<close> creates the nodes
  on the way and changes nothing else.
\<close>

lemma dir_at_upsert:
  assumes "\<And>m. pn_dirs (update m) = pn_dirs m" and "\<And>ds m. g (with_dirs ds m) = g m"
  shows "wf_node n \<Longrightarrow> map_option g (dir_at (upsert_dir_path update p n) q) =
    (if q = p then Some (g (update (node_or_new (dir_at n p))))
     else if prefix q p then Some (g (node_or_new (dir_at n q)))
     else map_option g (dir_at n q))"
proof (induction p arbitrary: n q)
  case Nil
  then show ?case using assms(1) by (cases q) (simp_all split: option.split)
next
  case (Cons x xs)
  have "sorted_keys (pn_dirs n)" using Cons.prems wf_node_iff by blast
  from upsert_dirs [OF this, of update x xs] obtain ds where ds: "upsert_dir_path update (x # xs) n = with_dirs ds n"
    "map_of ds = (map_of (pn_dirs n))(x \<mapsto> upsert_dir_path update xs (node_or_new (map_of (pn_dirs n) x)))" by blast
  show ?case
  proof (cases q)
    case Nil
    with ds assms(2) show ?thesis by simp
  next
    case (Cons y ys)
    have wf: "wf_node (node_or_new (map_of (pn_dirs n) x))"
      using Cons.prems wf_node_iff [of n] by (simp split: option.split)
    have new: "dir_at default_node zs = (if zs = [] then Some default_node else None)" for zs by (cases zs) auto
    show ?thesis
      using Cons.IH [OF wf, of ys] ds Cons
      by (cases "x = y"; cases "map_of (pn_dirs n) x") (auto simp: new)
  qed
qed

section \<open>What the entries of a snapshot build\<close>

abbreviation raw_tree :: "(int \<Rightarrow> int option) \<Rightarrow> archive_entry list \<Rightarrow> pbs_node" where
  "raw_tree ft es \<equiv> fold (insert_entry ft) es default_node"

text \<open>The directory an entry is stored in or describes.\<close>

definition home :: "archive_entry \<Rightarrow> string list" where
  "home e = (if a_kind e = KDirectory then entry_names (a_path e) else butlast (entry_names (a_path e)))"

definition files_in :: "(int \<Rightarrow> int option) \<Rightarrow> archive_entry list \<Rightarrow> string list \<Rightarrow> (string \<times> file_meta) list" where
  "files_in ft es q = map (\<lambda>e. (last (entry_names (a_path e)), meta_of ft e))
     (filter (\<lambda>e. a_kind e \<noteq> KDirectory \<and> entry_names (a_path e) \<noteq> [] \<and> home e = q) es)"

definition change_of :: "(int \<Rightarrow> int option) \<Rightarrow> archive_entry \<Rightarrow> pbs_node \<Rightarrow> pbs_node" where
  "change_of ft e = (if a_kind e = KDirectory then mark_dir ft e else push_file (last (entry_names (a_path e)), meta_of ft e))"

lemma insert_entry_home:
  "insert_entry ft e n = (if entry_names (a_path e) = [] then n else upsert_dir_path (change_of ft e) (home e) n)"
  by (simp add: insert_entry_def home_def change_of_def Let_def)

lemma change_of_sel [simp]:
  "pn_dirs (change_of ft e m) = pn_dirs m"
  "pn_files (change_of ft e m) = pn_files m @ (if a_kind e = KDirectory then [] else [(last (entry_names (a_path e)), meta_of ft e)])"
  by (simp_all add: change_of_def mark_dir_def push_file_def)

lemma wf_change [simp]: "wf_node (change_of ft e m) \<longleftrightarrow> wf_node m"
  using wf_node_iff [of m] wf_node_iff [of "change_of ft e m"] by simp

lemma wf_raw_tree: "wf_node (raw_tree ft es)"
  by (induction es rule: rev_induct) (simp_all add: insert_entry_home wf_upsert)

lemma home_Nil: "entry_names (a_path e) = [] \<Longrightarrow> home e = []"
  by (simp add: home_def)

text \<open>Exactly the homes of the entries and the directories above them exist, with the files in the order of the entries.\<close>

lemma raw_tree_files:
  "map_option pn_files (dir_at (raw_tree ft es) q) =
     (if q = [] \<or> (\<exists>e \<in> set es. prefix q (home e)) then Some (files_in ft es q) else None)"
proof (induction es arbitrary: q rule: rev_induct)
  case Nil
  show ?case by (cases q) (simp_all add: files_in_def)
next
  case (snoc e es)
  have new: "pn_files (node_or_new (dir_at (raw_tree ft es) q)) = files_in ft es q" for q
    using snoc.IH [of q] home_Nil
    by (cases "dir_at (raw_tree ft es) q") (auto simp: files_in_def filter_empty_conv split: if_splits)
  show ?case
  proof (cases "entry_names (a_path e) = []")
    case True
    with snoc.IH [of q] home_Nil [OF True] show ?thesis by (auto simp: insert_entry_home files_in_def)
  next
    case False
    have "map_option pn_files (dir_at (raw_tree ft (es @ [e])) q) =
      (if q = home e then Some (pn_files (change_of ft e (node_or_new (dir_at (raw_tree ft es) (home e)))))
       else if prefix q (home e) then Some (pn_files (node_or_new (dir_at (raw_tree ft es) q)))
       else map_option pn_files (dir_at (raw_tree ft es) q))"
      using dir_at_upsert [of "change_of ft e" pn_files "raw_tree ft es" "home e" q] False
      by (simp only: fold_append fold.simps comp_apply id_apply insert_entry_home if_False wf_raw_tree change_of_sel(1) with_dirs_sel)
    then show ?thesis
      using False snoc.IH [of q] by (auto simp: new files_in_def)
  qed
qed


section \<open>Sorting and sizes\<close>

lemma map_of_sort_key: "map_of (sort_key fst xs) = map_of xs"
proof
  fix k
  have "map_of ys k = (case filter (\<lambda>y. fst y = k) ys of [] \<Rightarrow> None | y # _ \<Rightarrow> Some (snd y))" for ys :: "('a \<times> 'b) list"
    by (induction ys) auto
  then show "map_of (sort_key fst xs) k = map_of xs k" by (simp add: sort_key_stable)
qed

lemma map_of_dedup_files: "map_of (dedup_files xs) = map_of xs"
  by (induction xs rule: dedup_files.induct) (auto simp: fun_eq_iff)

lemma fst_dedup_files: "set (dedup_files xs) \<subseteq> set xs"
  by (induction xs rule: dedup_files.induct) auto

lemma sorted_dedup_files: "sorted (map fst xs) \<Longrightarrow> sorted_keys (dedup_files xs)"
proof (induction xs rule: dedup_files.induct)
  case (1 x y zs)
  show ?case
  proof (cases "fst y = fst x")
    case False
    have "sorted_keys (dedup_files (y # zs))" using 1 False by simp
    moreover have "\<forall>z \<in> set (dedup_files (y # zs)). fst x < fst z"
      using fst_dedup_files [of "y # zs"] "1.prems" False by fastforce
    ultimately show ?thesis using False by (simp add: sorted_keys_Cons)
  qed (use 1 in simp)
qed (simp_all add: sorted_keys_def)

lemma dir_at_mapped:
  assumes "\<And>m. map_of (pn_dirs (f m)) = map_option f \<circ> map_of (pn_dirs m)"
  shows "dir_at (f n) q = map_option f (dir_at n q)"
  by (induction q arbitrary: n) (auto simp: assms split: option.split)

lemma map_of_map_snd: "map_of (map (\<lambda>(name, child). (name, f child)) ds) = map_option f \<circ> map_of ds"
  by (induction ds) (auto simp: fun_eq_iff)

lemma sort_files_sel [simp]:
  "map_of (pn_dirs (sort_files m)) = map_option sort_files \<circ> map_of (pn_dirs m)"
  "pn_files (sort_files m) = dedup_files (sort_key fst (rev (pn_files m)))"
  by (cases m, simp add: map_of_map_snd)+

lemma aggregate_sizes_sel [simp]:
  "map_of (pn_dirs (aggregate_sizes m)) = map_option aggregate_sizes \<circ> map_of (pn_dirs m)"
  "pn_files (aggregate_sizes m) = pn_files m"
  by (cases m, simp add: map_of_map_snd Let_def)+

lemma sorted_keys_map_snd [simp]: "sorted_keys (map (\<lambda>(name, child). (name, f child)) ds) \<longleftrightarrow> sorted_keys ds"
proof -
  have "map fst (map (\<lambda>(name, child). (name, f child)) ds) = map fst ds" by (induction ds) auto
  then show ?thesis unfolding sorted_keys_def by (simp only:)
qed

lemma wf_sort_files [simp]: "wf_node n \<Longrightarrow> wf_node (sort_files n)"
  by (induction n rule: sort_files.induct) auto

lemma wf_aggregate_sizes [simp]: "wf_node n \<Longrightarrow> wf_node (aggregate_sizes n)"
  by (induction n rule: aggregate_sizes.induct) (auto simp: Let_def)

lemma wf_build: "wf_node (build ft es)"
  by (simp add: build_def wf_raw_tree)

lemma dir_at_build: "dir_at (build ft es) q = map_option (aggregate_sizes \<circ> sort_files) (dir_at (raw_tree ft es) q)"
  by (simp add: build_def dir_at_mapped option.map_comp)

lemma descend_dir_at:
  "wf_node n \<Longrightarrow> \<forall>s \<in> set ns. to_str s = Some s \<Longrightarrow> descend n (map Normal ns) = dir_at n ns"
proof (induction ns arbitrary: n)
  case (Cons s ns)
  have sk: "sorted_keys (pn_dirs n)" using Cons.prems(1) wf_node_iff by blast
  have sub: "wf_node m" if "map_of (pn_dirs n) s = Some m" for m using that Cons.prems(1) wf_node_iff [of n] by blast
  with search_entry_map_of [OF sk, of s] search_entry_Inr [OF sk, of s] Cons show ?case
    by (auto split: sum.splits)
qed simp

lemma lookup_dir_names:
  assumes "wf_node n" and "\<forall>s \<in> set ns. to_str s = Some s"
  shows "lookup_dir n (map Normal ns) = dir_at n ns"
  using descend_dir_at [OF assms] by (cases ns) (auto simp: lookup_dir_def)

section \<open>Properties\<close>

lemma map_of_pairs: "map_of (map (\<lambda>e. (k e, v e)) xs) x = map_option v (find (\<lambda>e. k e = x) xs)"
  by (induction xs) auto

lemma find_filter: "find P (filter Q xs) = find (\<lambda>x. Q x \<and> P x) xs"
  by (induction xs) auto

lemma last_name_snoc [simp]: "last_name (cs @ [Normal s]) = Some s"
  by (cases cs) auto

lemma search_entry_lookup:
  assumes "sorted_keys fs"
  shows "(case search_entry x fs of Inl _ \<Rightarrow> None | Inr idx \<Rightarrow> if idx < length fs then Some (snd (fs ! idx)) else None) = map_of fs x"
  using search_entry_map_of [OF assms, of x] search_entry_Inr [OF assms, of x] by (auto split: sum.splits)

lemma files_at_build:
  assumes "dir_at (build ft es) q = Some node"
  shows "sorted_keys (pn_files node)"
    "map_of (pn_files node) leaf = map_option (meta_of ft) (find (\<lambda>e. a_kind e \<noteq> KDirectory \<and> entry_names (a_path e) = q @ [leaf]) (rev es))"
proof -
  obtain raw where raw: "dir_at (raw_tree ft es) q = Some raw" "node = aggregate_sizes (sort_files raw)"
    using assms by (auto simp: dir_at_build)
  have fs: "pn_files node = dedup_files (sort_key fst (rev (files_in ft es q)))"
    using raw raw_tree_files [of ft es q] by (auto split: if_splits)
  show "sorted_keys (pn_files node)" unfolding fs by (intro sorted_dedup_files) simp
  have names: "a_kind e \<noteq> KDirectory \<and> entry_names (a_path e) \<noteq> [] \<and> home e = q \<and> last (entry_names (a_path e)) = leaf \<longleftrightarrow>
      a_kind e \<noteq> KDirectory \<and> entry_names (a_path e) = q @ [leaf]" for e
    by (auto simp: home_def)
  show "map_of (pn_files node) leaf = map_option (meta_of ft) (find (\<lambda>e. a_kind e \<noteq> KDirectory \<and> entry_names (a_path e) = q @ [leaf]) (rev es))"
    by (simp add: fs map_of_dedup_files map_of_sort_key files_in_def rev_map map_of_pairs rev_filter find_filter conj_assoc names)
qed



text \<open>Sizes: the sum over the files in a subtree.\<close>

fun file_total :: "pbs_node \<Rightarrow> nat" where
  "file_total (PbsNode sz mtime mode ex ds fs) = sum_list (map (\<lambda>(_, m). fm_size m) fs) + sum_list (map (\<lambda>(_, c). file_total c) ds)"

lemma foldl_wrapping_add: "s + sum_list xs \<le> u64_max \<Longrightarrow> foldl wrapping_add s xs = s + sum_list xs"
  by (induction xs arbitrary: s) (simp_all add: wrapping_add_exact)

lemma foldl_saturating_add:
  "s + sum_list (map (\<lambda>(_, c). pn_size c) ds) \<le> u64_max \<Longrightarrow>
     foldl (\<lambda>t (_, c). saturating_add t (pn_size c)) s ds = s + sum_list (map (\<lambda>(_, c). pn_size c) ds)"
  by (induction ds arbitrary: s) (auto simp: saturating_add_exact)

lemma file_total_child: "(name, c) \<in> set ds \<Longrightarrow> file_total c \<le> sum_list (map (\<lambda>(_, c). file_total c) ds)"
  by (induction ds) auto

lemma size_aggregate_sizes: "file_total n \<le> u64_max \<Longrightarrow> pn_size (aggregate_sizes n) = file_total n"
proof (induction n rule: aggregate_sizes.induct)
  case (1 sz mtime mode ex ds fs)
  let ?children = "map (\<lambda>(name, child). (name, aggregate_sizes child)) ds"
  have "pn_size (aggregate_sizes c) = file_total c" if "(name, c) \<in> set ds" for name c
    using 1(1) [OF that refl] file_total_child [OF that] 1(2) by simp
  then have c: "sum_list (map (\<lambda>(_, c). pn_size c) ?children) = sum_list (map (\<lambda>(_, c). file_total c) ds)"
    by (intro arg_cong [of _ _ sum_list]) auto
  have f: "foldl wrapping_add 0 (map (\<lambda>(_, m). fm_size m) fs) = sum_list (map (\<lambda>(_, m). fm_size m) fs)"
    using foldl_wrapping_add [of 0 "map (\<lambda>(_, m). fm_size m) fs"] 1(2) by simp
  show ?case using foldl_saturating_add [of "sum_list (map (\<lambda>(_, m). fm_size m) fs)" ?children] 1(2) c by (simp add: Let_def f)
qed

lemma file_total_aggregate [simp]: "file_total (aggregate_sizes n) = file_total n"
proof (induction n rule: aggregate_sizes.induct)
  case (1 sz mtime mode ex ds fs)
  then have "sum_list (map (\<lambda>(_, c). file_total c) (map (\<lambda>(name, child). (name, aggregate_sizes child)) ds)) =
      sum_list (map (\<lambda>(_, c). file_total c) ds)"
    by (intro arg_cong [of _ _ sum_list]) auto
  then show ?case by (simp add: Let_def)
qed

abbreviation keep_all :: ignore_filter where
  "keep_all \<equiv> \<lambda>_ p. Some p"

lemma collect_subtree_total: "sum_list (map se_size (collect_subtree keep_all n a r)) = file_total n"
proof (induction n arbitrary: a r rule: file_total.induct)
  case (1 sz mtime mode ex ds fs)
  let ?g = "\<lambda>(name, child). \<lparr>se_relative = push_path r name, se_archive_path = push_path a name,
      se_file_type = Dir, se_mode = dir_mode child, se_mtime = pn_mtime child, se_size = 0, se_symlink = None\<rparr> #
      collect_subtree keep_all child (push_path a name) (push_path r name)"
  have "sum_list (map (\<lambda>x. sum_list (map se_size (?g x))) ds) = sum_list (map (\<lambda>(_, c). file_total c) ds)"
    using 1 by (intro arg_cong [of _ _ sum_list]) auto
  moreover have "sum_list (map se_size (concat (map ?g ds))) = sum_list (map (\<lambda>x. sum_list (map se_size (?g x))) ds)"
    by (induction ds) auto
  moreover have "map se_size (map (\<lambda>(name, m). \<lparr>se_relative = push_path r name, se_archive_path = push_path a name, se_file_type = fm_file_type m,
      se_mode = fm_mode m, se_mtime = fm_mtime m, se_size = fm_size m, se_symlink = fm_symlink m\<rparr>) fs) = map (\<lambda>(_, m). fm_size m) fs"
    by auto
  ultimately show ?case by (simp del: map_map map_eq_conv)
qed

lemma descend_dir: "wf_node n \<Longrightarrow> descend n cs = Some node \<Longrightarrow> \<exists>q. dir_at n q = Some node"
proof (induction cs arbitrary: n)
  case Nil
  then show ?case by (intro exI [of _ "[]"]) simp
next
  case (Cons c cs)
  obtain name where name: "to_str (as_os_str c) = Some name" using Cons.prems(2) by (auto split: option.splits)
  have sk: "sorted_keys (pn_dirs n)" using Cons.prems(1) wf_node_iff by blast
  obtain m where m: "map_of (pn_dirs n) name = Some m" "descend m cs = Some node"
    using Cons.prems(2) name search_entry_lookup [OF sk, of name]
    by (auto split: sum.splits if_splits dest!: sym [of "Some _"])
  moreover have "wf_node m" using m(1) Cons.prems(1) wf_node_iff [of n] by blast
  ultimately obtain q where "dir_at m q = Some node" using Cons.IH by blast
  with m(1) show ?case by (intro exI [of _ "name # q"]) simp
qed

lemma file_total_dir_at: "dir_at n q = Some m \<Longrightarrow> file_total m \<le> file_total n"
proof (induction q arbitrary: n)
  case (Cons x q)
  obtain c where c: "map_of (pn_dirs n) x = Some c" "dir_at c q = Some m" using Cons.prems by (auto split: option.splits)
  then have "file_total c \<le> file_total n"
    using file_total_child [OF map_of_SomeD [OF c(1)]] by (cases n) auto
  with Cons.IH [OF c(2)] show ?case by simp
qed simp

text \<open>
  In a snapshot whose files together fit 64 bits, every directory shows exactly the sum of the sizes
  of the files below it, as the recursive listing of the directory reports them.
\<close>

lemma snapshot_sizes:
  assumes "sum_list (map se_size (collect_subtree keep_all (build ft es) '''' '''')) \<le> u64_max"
    and "lookup_dir (build ft es) cs = Some node"
  shows "pn_size node = sum_list (map se_size (collect_subtree keep_all node archive_dir relative_dir))"
proof -
  obtain q where q: "dir_at (build ft es) q = Some node"
  proof (cases "cs = [] \<or> cs = [RootDir]")
    case True
    with assms(2) that [of "[]"] show ?thesis by (simp add: lookup_dir_def)
  next
    case False
    with assms(2) that descend_dir [OF wf_build, of ft es cs node] show ?thesis by (auto simp: lookup_dir_def)
  qed
  then obtain raw where raw: "node = aggregate_sizes raw" by (auto simp: dir_at_build)
  have "file_total node \<le> u64_max" using file_total_dir_at [OF q] assms(1) by (simp add: collect_subtree_total)
  with raw show ?thesis by (simp add: collect_subtree_total size_aggregate_sizes)
qed

lemma concat_pages:
  assumes "k * m < 2 ^ 64"
  shows "concat (map (\<lambda>p. select_page (Some k) p xs) [1..<Suc m]) = take (k * m) xs"
  using assms
proof (induction m)
  case (Suc m)
  have "m * k < 2 ^ 64" "k * m < 2 ^ 64" using Suc.prems by (simp_all add: algebra_simps)
  with Suc.IH show ?case
    by (simp add: select_page_def take_add [of "k * m" k, symmetric] mult.commute add.commute [of k])
qed simp

text \<open>
  Listing a directory page by page shows everything once: for a page size above zero the pages one
  after another are the unpaged listing, cut anywhere, which consists of the subdirectories followed by
  the files, each of those the filter keeps exactly once, sorted as asked; and every page reports the
  total. The standard library's unstable sort enters with its documented law.
\<close>

lemma pages_cover_listing:
  assumes "\<And>xs. mset (sort_unstable_by (compare_children sm) xs) = mset xs \<and>
      sorted_wrt (\<lambda>a b. compare_children sm a b \<noteq> Greater) (sort_unstable_by (compare_children sm) xs)"
    and "lookup_dir tree (components path) = Some node"
    and "k * m < 2 ^ 64" "fst (read_dir sort_unstable_by tc dm tree path None 1 ign sm) \<le> k * m"
  shows "concat (map (\<lambda>p. snd (read_dir sort_unstable_by tc dm tree path (Some k) p ign sm)) [1..<Suc m]) =
      snd (read_dir sort_unstable_by tc dm tree path None 1 ign sm) \<and>
    fst (read_dir sort_unstable_by tc dm tree path (Some k) p ign sm) = length (kept_dirs ign path node) + length (kept_files ign path node) \<and>
    (\<exists>dirs files. snd (read_dir sort_unstable_by tc dm tree path None 1 ign sm) = map (child_entry tc dm path) (dirs @ files) \<and>
       mset dirs = mset (kept_dirs ign path node) \<and> mset files = mset (kept_files ign path node) \<and>
       sorted_wrt (\<lambda>a b. compare_children sm a b \<noteq> Greater) dirs \<and> sorted_wrt (\<lambda>a b. compare_children sm a b \<noteq> Greater) files)"
proof -
  let ?sort = "sort_unstable_by (compare_children sm)"
  let ?all = "?sort (kept_dirs ign path node) @ ?sort (kept_files ign path node)"
  have len: "length (?sort xs) = length xs" for xs using assms(1) by (metis size_mset)
  have "concat (map (\<lambda>p. map (child_entry tc dm path) (select_page (Some k) p ?all)) [1..<Suc m]) =
      map (child_entry tc dm path) (concat (map (\<lambda>p. select_page (Some k) p ?all) [1..<Suc m]))"
    by (simp only: map_concat map_map comp_def)
  also have "\<dots> = map (child_entry tc dm path) (take (k * m) ?all)" unfolding concat_pages [OF assms(3)] ..
  also have "\<dots> = map (child_entry tc dm path) ?all" using assms(2,4) by (simp add: read_dir_def Let_def)
  finally have "concat (map (\<lambda>p. map (child_entry tc dm path) (select_page (Some k) p ?all)) [1..<Suc m]) = map (child_entry tc dm path) ?all" .
  moreover have "select_page None 1 ?all = ?all" by (simp add: select_page_def)
  ultimately show ?thesis
    using assms(1,2) by (simp add: read_dir_def Let_def len del: upt_Suc) blast
qed

definition sample_sort :: "(child \<Rightarrow> child \<Rightarrow> ordering) \<Rightarrow> child list \<Rightarrow> child list" where
  "sample_sort c xs = sort_key (\<lambda>x. map to_ascii_lowercase (fst (child_key x))) xs"

lemma sample_sort_law:
  "mset (sample_sort c xs) = mset xs \<and> sorted_wrt (\<lambda>a b. compare_children NameAsc a b \<noteq> Greater) (sample_sort c xs)"
proof
  have "sorted (map (\<lambda>x. map to_ascii_lowercase (fst (child_key x))) (sample_sort c xs))" by (simp add: sample_sort_def)
  then have "sorted_wrt (\<lambda>a b. map to_ascii_lowercase (fst (child_key a)) \<le> map to_ascii_lowercase (fst (child_key b))) (sample_sort c xs)"
    by (simp add: sorted_wrt_map)
  then show "sorted_wrt (\<lambda>a b. compare_children NameAsc a b \<noteq> Greater) (sample_sort c xs)"
    by (rule sorted_wrt_mono_rel [rotated])
      (simp add: compare_children_def cmp_ascii_case_insensitive_def case_prod_unfold not_less)
qed (simp add: sample_sort_def)

definition sample_root :: pbs_node where
  "sample_root = PbsNode 0 0 0 True [(''d'', default_node)] [(''f'', meta_of Some (file_entry [102] 3 7))]"

lemma nths_window: "nths xs {i. start \<le> i \<and> i < start + len} = take len (drop start xs)"
proof (induction xs arbitrary: start len)
  case (Cons x xs)
  have "{j. Suc j \<in> {i. start \<le> i \<and> i < start + len}} =
      (if start = 0 then {i. 0 \<le> i \<and> i < 0 + (len - 1)} else {i. start - 1 \<le> i \<and> i < (start - 1) + len})"
    by auto
  with Cons [of 0 "len - 1"] Cons [of "start - 1" len] show ?case
    by (cases start; cases len) (simp_all add: nths_Cons)
qed simp

text \<open>
  Downloading from a snapshot: for a file that the tree lists with the size of its archived content,
  reading with a range (or without) opens a reader that delivers exactly the requested bytes of the
  content, and the announced length is their number.
\<close>

lemma snapshot_download:
  assumes "serves download decode cs uses (pa_reader a)" "pa_size a = length (concat cs)"
    and "concat cs = archive_bytes_of sip st ts" and "\<And>x y name. sip x y name \<le> u64_max"
    and "list_all names_ok ts" "list_all limits_ok ts" and "collision_free sip (PDir root_name st ts)"
    and "normal_names (components path) = (Inr names :: pbs_error io_failure io_failure + _)"
    and "resolve ts names = (Inr (Some (PFile nm file_stat content)) :: pbs_error io_failure io_failure + _)"
    and "metadata tree path = Some md" "md_file_type md = File" "md_size md = length content"
  shows "\<exists>f rs'. read_file sip download decode tree a path rng = Inr f \<and> fr_total f = length content \<and>
    (let wanted = (case rng of None \<Rightarrow> content | Some r \<Rightarrow> nths content {i. requested r (length content) i})
     in fr_length f = length wanted \<and>
        copy (Suc (length content)) (sync_read (read_into download decode)) (fr_reader f) [] = Inr (wanted, rs'))"
proof -
  note opened = open_reader_archived [OF assms(1-9)]
  have le: "length content \<le> u64_max" using opened [of None] by (simp add: range_ok_def)
  show ?thesis
  proof (cases rng)
    case None
    with opened [of None] assms(10-12) show ?thesis
      by (auto simp: read_file_def resolve_window_def range_ok_def in_range_def)
  next
    case (Some r)
    obtain start len sz r' where w: "resolve_window (Some r) (length content) = (Some (start, len), sz, r')"
      by (cases "get_start r"; cases "get_end r") (simp_all add: resolve_window_def Let_def)
    have f: "start + len \<le> length content" "sz = len" "{i. start \<le> i \<and> i < start + len} = {i. requested r (length content) i}"
      using resolve_window_spec [OF le w] by simp_all
    have "range_ok (Some (start, len))" using f(1) le by (simp add: range_ok_def)
    moreover have "nths content {i. requested r (length content) i} = take len (drop start content)"
      unfolding f(3) [symmetric] by (rule nths_window)
    moreover have "length (take len (drop start content)) = len" using f(1) by simp
    ultimately show ?thesis
      using opened [of "Some (start, len)"] assms(10-12) Some w f(2) by (auto simp: read_file_def in_range_def)
  qed
qed

end
