(* ===== verification/Collab.thy ===== *)
theory Collab
  imports CapPath "HOL-Library.AList"
begin

text \<open>
  Collaborative editing (\<^verbatim>\<open>server/collab/manager.rs\<close>, \<^verbatim>\<open>server/collab/mod.rs\<close>) and the part of
  \<^verbatim>\<open>server/websocket/message_handler.rs\<close> that dispatches its messages. A \<^verbatim>\<open>CollabSession\<close> is shared
  through \<^verbatim>\<open>Arc\<close>, so the sessions live in a store and are referred to by their index; the hash maps
  are association lists with distinct keys (nothing depends on their order). The document type, its
  updates, the digest and the base 64 encoding are those of \<^verbatim>\<open>yrs\<close>, \<^verbatim>\<open>blake3\<close> and \<^verbatim>\<open>base64\<close>: they are
  the fields of \<open>collab_deps\<close>, an argument of every operation. What the file system answers is an
  argument too.

  A message is handled in one step, except that \<^verbatim>\<open>save\<close> and \<^verbatim>\<open>reload\<close> queue for the lock of the
  session: a save takes a snapshot when it gets the lock and finishes in a later step, so that
  updates, subscriptions, teardowns and ticks of the reconciler fall in between. Messages sent to
  clients and effects on the rest of the server are logged in the state.
\<close>

section \<open>State\<close>

record ('doc, 'upd, 'h) collab_deps =
  doc_with :: "string \<Rightarrow> 'doc"
  decode_update :: "string \<Rightarrow> 'upd option"
  integrate :: "'upd \<Rightarrow> 'doc \<Rightarrow> 'doc \<times> bool"
  doc_text :: "'doc \<Rightarrow> string"
  text_len :: "'doc \<Rightarrow> nat"
  encode_state :: "'doc \<Rightarrow> string"
  content_hash :: "string \<Rightarrow> 'h"
  to_hex :: "'h \<Rightarrow> string"
  b64_encode :: "string \<Rightarrow> string"
  b64_decode :: "string \<Rightarrow> string option"

record collab_config =
  collab_enabled :: bool
  file_size_cap :: nat
  max_sessions_per_server :: nat
  max_sessions_per_connection :: nat
  history_enabled :: bool
  history_size_cap :: nat

datatype collab_error = User string | Internal | Panicked

record 'h conflict_state =
  cs_hash :: "'h option"
  cs_deleted :: bool

record participant =
  user_uuid :: nat
  user_name :: string
  user_avatar :: "string option"

record ('doc, 'h) collab_doc =
  cd_doc :: 'doc
  applied_update_bytes :: nat
  disk_hash :: 'h

text \<open>
  \<open>poisoned\<close> is the state of the document's \<^verbatim>\<open>std::sync::Mutex\<close> after a panic under it. The last two
  fields are the local variables of the session's reconciler task.
\<close>

record ('doc, 'h) collab_session =
  cs_path :: string
  abs_path :: path
  cs_doc :: "('doc, 'h) collab_doc"
  poisoned :: bool
  dirty :: bool
  conflict :: "'h conflict_state option"
  participants :: "(nat \<times> participant) list"
  last_mtime :: "nat option"
  reported_unreadable :: bool

datatype ws_message =
    FileCollabSync string string bool "(string option \<times> bool) option"
  | FileCollabParticipants string "(nat \<times> string \<times> string option) list"
  | FileCollabUpdate string string
  | FileCollabAwareness string string
  | FileCollabConflict string "(string option \<times> bool) option"
  | FileCollabError string string
  | FileCollabSaved string nat "int option"

datatype collab_effect =
    Allocate path int
  | WriteFile path string
  | WriteAborted path
  | RecordEdit string "string option" string nat
  | LogFileWrite nat string "int option"

text \<open>A task that queues for or holds the lock of a session; a save that holds it has its snapshot.\<close>

datatype lock_op = SaveOp nat path path bool "string option" | ReloadOp

record 'h lock_task =
  lt_conn :: nat
  lt_raw :: string
  lt_key :: string
  lt_sid :: nat
  lt_op :: lock_op
  lt_snapshot :: "(string \<times> 'h) option"

record ('doc, 'h) collab_manager =
  store :: "('doc, 'h) collab_session list"
  sessions :: "(string \<times> nat) list"
  connections :: "(nat \<times> string list) list"
  pending_updates :: "((nat \<times> string) \<times> string) list"
  pending_teardowns :: "string list"
  lock_tasks :: "'h lock_task list"
  outbox :: "(nat \<times> ws_message) list"
  effects :: "collab_effect list"

definition collab_manager_new :: "('doc, 'h) collab_manager" where
  "collab_manager_new = \<lparr>store = [], sessions = [], connections = [], pending_updates = [],
     pending_teardowns = [], lock_tasks = [], outbox = [], effects = []\<rparr>"

definition put_session ::
    "nat \<Rightarrow> ('doc, 'h) collab_session \<Rightarrow> ('doc, 'h) collab_manager \<Rightarrow> ('doc, 'h) collab_manager" where
  "put_session sid s m = m\<lparr>store := (store m)[sid := s]\<rparr>"

section \<open>Files and paths\<close>

record disk_meta =
  fm_is_file :: bool
  fm_size :: nat
  fm_modified :: "nat option"

text \<open>
  What the file system answers while a file is read: its metadata; then, if the file can be opened,
  the size the handle announces and the bytes, unless reading fails.
\<close>

record read_io =
  ri_meta :: "disk_meta option"
  ri_open :: "(nat \<times> string option) option"

record resolve_fs =
  resolve_writable_fs :: "path \<Rightarrow> path \<times> bool"
  is_ignored :: "path \<Rightarrow> bool"
  canonicalize :: "path \<Rightarrow> path option"
  base_path :: path

definition path_parent :: "string \<Rightarrow> path option" where
  "path_parent p = (case next_back (components p) of
     None \<Rightarrow> None | Some RootDir \<Rightarrow> None | Some _ \<Rightarrow> Some (butlast (components p)))"

definition path_file_name :: "string \<Rightarrow> string option" where
  "path_file_name p = (case next_back (components p) of Some (Normal name) \<Rightarrow> Some name | _ \<Rightarrow> None)"

fun path_string :: "path \<Rightarrow> string" where
  "path_string (RootDir # cs) = ''/'' @ join_slash (map as_os_str cs)"
| "path_string cs = join_slash (map as_os_str cs)"

definition resolve :: "collab_config \<Rightarrow> resolve_fs \<Rightarrow> string \<Rightarrow> collab_error + path \<times> string" where
  "resolve cfg fs raw_path =
     (if \<not> collab_enabled cfg then Inl (User ''collaborative editing is disabled'')
      else case path_parent raw_path of
        None \<Rightarrow> Inl (User ''file has no parent'')
      | Some parent \<Rightarrow>
          (case path_file_name raw_path of
             None \<Rightarrow> Inl (User ''invalid file name'')
           | Some file_name \<Rightarrow>
               (case resolve_writable_fs fs parent of (root, primary) \<Rightarrow>
                  if \<not> primary
                  then Inl (User ''collaborative editing is only available on the primary filesystem'')
                  else let path = push_component root (Normal file_name) in
                    if is_ignored fs path then Inl (User ''file not found'')
                    else let key = (case canonicalize fs path of
                           Some k \<Rightarrow> k | None \<Rightarrow> relative_path (base_path fs) path)
                         in Inr (path, to_string_lossy (path_string key)))))"

definition read_content :: "read_io \<Rightarrow> nat \<Rightarrow> collab_error + string" where
  "read_content io size_cap =
     (case ri_meta io of
        None \<Rightarrow> Inl (User ''file not found'')
      | Some md \<Rightarrow>
          if \<not> fm_is_file md then Inl (User ''file is not a file'')
          else if size_cap < fm_size md then Inl (User ''file is too large for collaborative editing'')
          else case ri_open io of
            None \<Rightarrow> Inl (User ''file not found'')
          | Some (handle_size, body) \<Rightarrow>
              if size_cap < handle_size then Inl (User ''file is too large for collaborative editing'')
              else case body of
                None \<Rightarrow> Inl Internal
              | Some buf \<Rightarrow>
                  if size_cap < length buf then Inl (User ''file is too large for collaborative editing'')
                  else case to_str buf of
                    None \<Rightarrow> Inl (User ''file is not editable as text'')
                  | Some content \<Rightarrow> Inr content)"

section \<open>Sessions\<close>

definition collab_doc_new :: "('doc, 'upd, 'h) collab_deps \<Rightarrow> string \<Rightarrow> ('doc, 'h) collab_doc" where
  "collab_doc_new E content =
     \<lparr>cd_doc = doc_with E content, applied_update_bytes = 0, disk_hash = content_hash E content\<rparr>"

definition session_text :: "('doc, 'upd, 'h) collab_deps \<Rightarrow> ('doc, 'h) collab_session \<Rightarrow> string" where
  "session_text E s = doc_text E (cd_doc (cs_doc s))"

definition broadcast ::
    "nat option \<Rightarrow> ws_message \<Rightarrow> ('doc, 'h) collab_session \<Rightarrow> ('doc, 'h) collab_manager \<Rightarrow>
     ('doc, 'h) collab_manager" where
  "broadcast except msg s m =
     m\<lparr>outbox := outbox m @ map (\<lambda>c. (c, msg)) (filter (\<lambda>c. Some c \<noteq> except) (map fst (participants s)))\<rparr>"

definition conflict_json ::
    "('doc, 'upd, 'h) collab_deps \<Rightarrow> 'h conflict_state option \<Rightarrow> (string option \<times> bool) option" where
  "conflict_json E = map_option (\<lambda>st. (map_option (to_hex E) (cs_hash st), cs_deleted st))"

definition broadcast_conflict ::
    "('doc, 'upd, 'h) collab_deps \<Rightarrow> 'h conflict_state option \<Rightarrow> ('doc, 'h) collab_session \<Rightarrow>
     ('doc, 'h) collab_manager \<Rightarrow> ('doc, 'h) collab_manager" where
  "broadcast_conflict E st s = broadcast None (FileCollabConflict (cs_path s) (conflict_json E st)) s"

definition broadcast_resync ::
    "('doc, 'h) collab_session \<Rightarrow> ('doc, 'h) collab_manager \<Rightarrow> ('doc, 'h) collab_manager" where
  "broadcast_resync s = broadcast None (FileCollabError (cs_path s) ''resync'') s"

fun distinct_users :: "nat list \<Rightarrow> participant list \<Rightarrow> (nat \<times> string \<times> string option) list" where
  "distinct_users seen [] = []"
| "distinct_users seen (p # ps) =
     (if user_uuid p \<in> set seen then distinct_users seen ps
      else (user_uuid p, user_name p, user_avatar p) # distinct_users (user_uuid p # seen) ps)"

definition participants_message :: "('doc, 'h) collab_session \<Rightarrow> ws_message" where
  "participants_message s =
     FileCollabParticipants (cs_path s) (distinct_users [] (map snd (participants s)))"

definition subscriptions :: "('doc, 'h) collab_manager \<Rightarrow> nat \<Rightarrow> string list" where
  "subscriptions m conn = (case map_of (connections m) conn of None \<Rightarrow> [] | Some ks \<Rightarrow> ks)"

text \<open>The session a subscriber joins, with its index, and the state with a session opened if needed.\<close>

definition open_session ::
    "('doc, 'upd, 'h) collab_deps \<Rightarrow> collab_config \<Rightarrow> read_io \<Rightarrow> path \<Rightarrow> string \<Rightarrow>
     ('doc, 'h) collab_manager \<Rightarrow> collab_error + nat \<times> ('doc, 'h) collab_manager" where
  "open_session E cfg io path key m =
     (case map_of (sessions m) key of
        Some sid \<Rightarrow>
          let s = store m ! sid in
          if participants s = [] \<and> \<not> dirty s then
            (case read_content io (file_size_cap cfg) of
               Inl e \<Rightarrow> Inl e
             | Inr content \<Rightarrow>
                 if poisoned s then Inl Panicked
                 else
                   let s1 = (if disk_hash (cs_doc s) \<noteq> content_hash E content
                             then s\<lparr>cs_doc := collab_doc_new E content\<rparr> else s)
                   in Inr (sid, put_session sid (s1\<lparr>conflict := None\<rparr>) m))
          else Inr (sid, m)
      | None \<Rightarrow>
          if max_sessions_per_server cfg \<le> length (sessions m)
          then Inl (User ''too many collaborative sessions open on this server'')
          else
            (case read_content io (file_size_cap cfg) of
               Inl e \<Rightarrow> Inl e
             | Inr content \<Rightarrow>
                 Inr (length (store m),
                   m\<lparr>store := store m @ [\<lparr>cs_path = key, abs_path = path, cs_doc = collab_doc_new E content,
                        poisoned = False, dirty = False, conflict = None, participants = [],
                        last_mtime = None, reported_unreadable = False\<rparr>],
                     sessions := AList.update key (length (store m)) (sessions m)\<rparr>)))"

definition join_session ::
    "nat \<Rightarrow> participant \<Rightarrow> string \<Rightarrow> nat \<Rightarrow> ('doc, 'h) collab_manager \<Rightarrow> ('doc, 'h) collab_manager" where
  "join_session conn p key sid m =
     (let s = store m ! sid in
      (put_session sid (s\<lparr>participants := AList.update conn p (participants s)\<rparr>) m)
        \<lparr>connections := AList.update conn (List.insert key (subscriptions m conn)) (connections m)\<rparr>)"

definition subscribe ::
    "('doc, 'upd, 'h) collab_deps \<Rightarrow> collab_config \<Rightarrow> resolve_fs \<Rightarrow> read_io \<Rightarrow> nat \<Rightarrow> participant \<Rightarrow> string \<Rightarrow>
     ('doc, 'h) collab_manager \<Rightarrow> (collab_error + unit) \<times> ('doc, 'h) collab_manager" where
  "subscribe E cfg fs io conn p raw_path m =
     (case resolve cfg fs raw_path of
        Inl e \<Rightarrow> (Inl e, m)
      | Inr (path, key) \<Rightarrow>
          if (case map_of (connections m) conn of
                None \<Rightarrow> False
              | Some subscribed \<Rightarrow> key \<notin> set subscribed \<and> max_sessions_per_connection cfg \<le> length subscribed)
          then (Inl (User ''too many collaborative sessions open on this connection''), m)
          else
            let m1 = m\<lparr>pending_teardowns := removeAll key (pending_teardowns m)\<rparr> in
            case open_session E cfg io path key m1 of
              Inl e \<Rightarrow> (Inl e, m1)
            | Inr (sid, m2) \<Rightarrow>
                let m3 = join_session conn p key sid m2; s = store m3 ! sid in
                if poisoned s then (Inl Panicked, m3)
                else
                  let sync = FileCollabSync key (b64_encode E (encode_state E (cd_doc (cs_doc s)))) (dirty s)
                               (conflict_json E (conflict s))
                  in (Inr (), broadcast None (participants_message s) s (m3\<lparr>outbox := outbox m3 @ [(conn, sync)]\<rparr>)))"

definition subscribed_session ::
    "collab_config \<Rightarrow> resolve_fs \<Rightarrow> nat \<Rightarrow> string \<Rightarrow> ('doc, 'h) collab_manager \<Rightarrow> collab_error + string \<times> nat" where
  "subscribed_session cfg fs conn raw_path m =
     (case resolve cfg fs raw_path of
        Inl e \<Rightarrow> Inl e
      | Inr (_, key) \<Rightarrow>
          if key \<notin> set (subscriptions m conn) then Inl (User ''not subscribed to this file'')
          else case map_of (sessions m) key of
            None \<Rightarrow> Inl (User ''not subscribed to this file'')
          | Some sid \<Rightarrow> Inr (key, sid))"

section \<open>Updates\<close>

text \<open>The chunks of an update are collected until the last one; an update over the size cap is dropped.\<close>

definition collect_chunk ::
    "nat \<Rightarrow> nat \<times> string \<Rightarrow> bool \<Rightarrow> string \<Rightarrow> ((nat \<times> string) \<times> string) list \<Rightarrow>
     (collab_error + string option) \<times> ((nat \<times> string) \<times> string) list" where
  "collect_chunk size_cap pending_key finished chunk pending =
     (case map_of pending pending_key of
        Some buffer \<Rightarrow>
          if size_cap < length buffer + length chunk
          then (Inl (User ''update is too large''), AList.delete pending_key pending)
          else if \<not> finished then (Inr None, AList.update pending_key (buffer @ chunk) pending)
          else (Inr (Some (buffer @ chunk)), AList.delete pending_key pending)
      | None \<Rightarrow>
          if size_cap < length chunk then (Inl (User ''update is too large''), pending)
          else if \<not> finished then (Inr None, AList.update pending_key chunk pending)
          else (Inr (Some chunk), pending))"

definition is_char_boundary :: "string \<Rightarrow> nat \<Rightarrow> bool" where
  "is_char_boundary s i \<longleftrightarrow> i = 0 \<or> i = length s \<or> (i < length s \<and> \<not> is_cont (of_char (s ! i)))"

text \<open>
  \<^verbatim>\<open>String::truncate\<close> panics (\<open>None\<close>) when the new length is not at a character boundary. The loop
  that follows it in the code tests the boundary at the end of the string, which always holds.
\<close>

definition truncate_str :: "nat \<Rightarrow> string \<Rightarrow> string option" where
  "truncate_str n s =
     (if length s < n then Some s else if is_char_boundary s n then Some (take n s) else None)"

definition saturating_mul :: "nat \<Rightarrow> nat \<Rightarrow> nat" where
  "saturating_mul a b = min (a * b) u64_max"

text \<open>The part of \<^verbatim>\<open>apply_update\<close> under the document lock; the answer says whether clients must resync.\<close>

definition update_doc ::
    "('doc, 'upd, 'h) collab_deps \<Rightarrow> nat \<Rightarrow> string \<Rightarrow> 'upd \<Rightarrow> ('doc, 'h) collab_session \<Rightarrow>
     (collab_error + bool) \<times> ('doc, 'h) collab_session" where
  "update_doc E size_cap update decoded s =
     (if poisoned s then (Inl Panicked, s)
      else case integrate E decoded (cd_doc (cs_doc s)) of
        (d, False) \<Rightarrow> (Inl (User ''invalid update''), s\<lparr>cs_doc := (cs_doc s)\<lparr>cd_doc := d\<rparr>\<rparr>)
      | (d, True) \<Rightarrow>
          let s1 = s\<lparr>cs_doc := (cs_doc s)\<lparr>cd_doc := d\<rparr>, dirty := True\<rparr> in
          if size_cap < text_len E d then
            (case truncate_str size_cap (doc_text E d) of
               None \<Rightarrow> (Inl Panicked, s1\<lparr>poisoned := True\<rparr>)
             | Some content \<Rightarrow> (Inr True, s1\<lparr>cs_doc := collab_doc_new E content\<rparr>))
          else
            let bytes = wrapping_add (applied_update_bytes (cs_doc s)) (length update) in
            if saturating_mul size_cap 8 < bytes
            then (Inr True, s1\<lparr>cs_doc := collab_doc_new E (doc_text E d)\<rparr>)
            else (Inr False, s1\<lparr>cs_doc := (cs_doc s1)\<lparr>applied_update_bytes := bytes\<rparr>\<rparr>))"

definition apply_update ::
    "('doc, 'upd, 'h) collab_deps \<Rightarrow> collab_config \<Rightarrow> resolve_fs \<Rightarrow> nat \<Rightarrow> string \<Rightarrow> bool \<Rightarrow> string \<Rightarrow>
     ('doc, 'h) collab_manager \<Rightarrow> (collab_error + unit) \<times> ('doc, 'h) collab_manager" where
  "apply_update E cfg fs conn raw_path finished chunk m =
     (case subscribed_session cfg fs conn raw_path m of
        Inl e \<Rightarrow> (Inl e, m)
      | Inr (key, sid) \<Rightarrow>
          (case b64_decode E chunk of
             None \<Rightarrow> (Inl (User ''invalid update encoding''), m)
           | Some bytes \<Rightarrow>
               (case collect_chunk (file_size_cap cfg) (conn, key) finished bytes (pending_updates m) of
                  (r, pending) \<Rightarrow>
                    let m1 = m\<lparr>pending_updates := pending\<rparr> in
                    (case r of
                       Inl e \<Rightarrow> (Inl e, m1)
                     | Inr None \<Rightarrow> (Inr (), m1)
                     | Inr (Some update) \<Rightarrow>
                         (case decode_update E update of
                            None \<Rightarrow> (Inl (User ''invalid update encoding''), m1)
                          | Some decoded \<Rightarrow>
                              (case update_doc E (file_size_cap cfg) update decoded (store m1 ! sid) of
                                 (res, s) \<Rightarrow>
                                   let m2 = put_session sid s m1 in
                                   (case res of
                                      Inl e \<Rightarrow> (Inl e, m2)
                                    | Inr True \<Rightarrow> (Inr (), broadcast_resync s m2)
                                    | Inr False \<Rightarrow>
                                        (Inr (), broadcast (Some conn)
                                           (FileCollabUpdate key (b64_encode E update)) s m2))))))))"

definition relay_awareness ::
    "collab_config \<Rightarrow> resolve_fs \<Rightarrow> nat \<Rightarrow> string \<Rightarrow> string \<Rightarrow>
     ('doc, 'h) collab_manager \<Rightarrow> (collab_error + unit) \<times> ('doc, 'h) collab_manager" where
  "relay_awareness cfg fs conn raw_path payload m =
     (case subscribed_session cfg fs conn raw_path m of
        Inl e \<Rightarrow> (Inl e, m)
      | Inr (key, sid) \<Rightarrow> (Inr (), broadcast (Some conn) (FileCollabAwareness key payload) (store m ! sid) m))"

section \<open>Saving and reloading\<close>

definition lock_free :: "nat \<Rightarrow> ('doc, 'h) collab_manager \<Rightarrow> bool" where
  "lock_free sid m \<longleftrightarrow> (\<forall>t \<in> set (lock_tasks m). lt_sid t = sid \<longrightarrow> lt_snapshot t = None)"

definition drop_task :: "nat \<Rightarrow> ('doc, 'h) collab_manager \<Rightarrow> ('doc, 'h) collab_manager" where
  "drop_task i m = m\<lparr>lock_tasks := take i (lock_tasks m) @ drop (Suc i) (lock_tasks m)\<rparr>"

text \<open>\<^verbatim>\<open>save\<close> up to the lock: the path is resolved twice, for the session and for the file to write.\<close>

definition save_enter ::
    "collab_config \<Rightarrow> resolve_fs \<Rightarrow> resolve_fs \<Rightarrow> nat \<Rightarrow> nat \<Rightarrow> string \<Rightarrow> bool \<Rightarrow> string option \<Rightarrow>
     ('doc, 'h) collab_manager \<Rightarrow> (collab_error + unit) \<times> ('doc, 'h) collab_manager" where
  "save_enter cfg fs fs' conn user raw_path force expected m =
     (case subscribed_session cfg fs conn raw_path m of
        Inl e \<Rightarrow> (Inl e, m)
      | Inr (key, sid) \<Rightarrow>
          (case resolve cfg fs' raw_path of
             Inl e \<Rightarrow> (Inl e, m)
           | Inr (path, _) \<Rightarrow>
               (case path_parent raw_path of
                  None \<Rightarrow> (Inl (User ''file has no parent''), m)
                | Some parent \<Rightarrow>
                    (Inr (), m\<lparr>lock_tasks := lock_tasks m @
                       [\<lparr>lt_conn = conn, lt_raw = raw_path, lt_key = key, lt_sid = sid,
                         lt_op = SaveOp user path parent force expected, lt_snapshot = None\<rparr>]\<rparr>))))"

text \<open>The save gets the lock and takes its snapshot of the text and of the digest of the file.\<close>

definition save_acquire ::
    "('doc, 'upd, 'h) collab_deps \<Rightarrow> nat \<Rightarrow> ('doc, 'h) collab_manager \<Rightarrow>
     (collab_error + unit) \<times> ('doc, 'h) collab_manager" where
  "save_acquire E i m =
     (let t = lock_tasks m ! i; s = store m ! lt_sid t in
      if poisoned s then (Inl Panicked, drop_task i m)
      else (Inr (), m\<lparr>lock_tasks := (lock_tasks m)
             [i := t\<lparr>lt_snapshot := Some (session_text E s, disk_hash (cs_doc s))\<rparr>]\<rparr>))"

datatype write_result = CreateFailed | WriteFailed | Written

record save_io =
  si_meta :: "disk_meta option"
  si_open :: "(nat \<times> string option) option"
  si_alloc :: bool
  si_write :: write_result
  si_record :: "int option"

definition old_size :: "save_io \<Rightarrow> int" where
  "old_size io = (case si_meta io of None \<Rightarrow> 0 | Some md \<Rightarrow> as_i64 (fm_size md))"

definition old_bytes :: "nat \<Rightarrow> save_io \<Rightarrow> string option" where
  "old_bytes read_cap io =
     (if si_meta io \<noteq> None \<and> 0 < old_size io \<and> as_u64 (old_size io) \<le> read_cap then
        (case si_open io of
           Some (handle_size, Some buf) \<Rightarrow>
             if handle_size \<le> read_cap \<and> length buf \<le> read_cap then Some buf else None
         | _ \<Rightarrow> None)
      else None)"

definition current_hash ::
    "('doc, 'upd, 'h) collab_deps \<Rightarrow> nat \<Rightarrow> save_io \<Rightarrow> 'h option" where
  "current_hash E read_cap io =
     (if si_meta io = None then None
      else if old_size io = 0 then Some (content_hash E '''')
      else map_option (content_hash E) (old_bytes read_cap io))"

definition force_applies ::
    "('doc, 'upd, 'h) collab_deps \<Rightarrow> bool \<Rightarrow> string option \<Rightarrow> 'h option \<Rightarrow> bool" where
  "force_applies E force expected_hash current \<longleftrightarrow> force \<and>
     (case expected_hash of
        None \<Rightarrow> True
      | Some expected \<Rightarrow> (case current of None \<Rightarrow> False | Some h \<Rightarrow> to_hex E h = expected))"

definition captured_before :: "collab_config \<Rightarrow> save_io \<Rightarrow> string option" where
  "captured_before cfg io =
     (if history_enabled cfg \<and> 0 < old_size io \<and> as_u64 (old_size io) \<le> history_size_cap cfg then
        (case old_bytes (max (history_size_cap cfg) (file_size_cap cfg)) io of
           Some buf \<Rightarrow> if length buf \<le> history_size_cap cfg then Some buf else None
         | None \<Rightarrow> None)
      else None)"

text \<open>
  The rest of \<^verbatim>\<open>save\<close>, from the check of the file on disk to the announcement. Every path releases
  the lock, which here means that the task is gone.
\<close>

definition save_commit ::
    "('doc, 'upd, 'h) collab_deps \<Rightarrow> collab_config \<Rightarrow> save_io \<Rightarrow> string \<Rightarrow> nat \<Rightarrow> nat \<Rightarrow> path \<Rightarrow> path \<Rightarrow> string \<Rightarrow>
     ('doc, 'h) collab_manager \<Rightarrow> (collab_error + unit) \<times> ('doc, 'h) collab_manager" where
  "save_commit E cfg io key sid user path parent content m =
     (let s = store m ! sid;
          m1 = m\<lparr>effects := effects m @ [Allocate parent (int (length content) - old_size io)]\<rparr>
      in if \<not> si_alloc io then (Inl (User ''failed to allocate space''), m1)
      else case si_write io of
        CreateFailed \<Rightarrow> (Inl Internal, m1)
      | WriteFailed \<Rightarrow> (Inl Internal, m1\<lparr>effects := effects m1 @ [WriteAborted path]\<rparr>)
      | Written \<Rightarrow>
          let recorded = history_enabled cfg \<and> length content \<le> history_size_cap cfg;
              m2 = m1\<lparr>effects := effects m1 @ [WriteFile path content] @
                     (if recorded then [RecordEdit key (captured_before cfg io) content user] else [])\<rparr>;
              revision = (if recorded then
                  (case si_record io of Some rid \<Rightarrow> if rid \<noteq> 0 then Some rid else None | None \<Rightarrow> None)
                else None)
          in if poisoned s then (Inl Panicked, m2)
             else
               let s1 = s\<lparr>cs_doc := (cs_doc s)\<lparr>disk_hash := content_hash E content\<rparr>,
                          dirty := (session_text E s \<noteq> content), conflict := None\<rparr>;
                   m3 = (put_session sid s1 m2)\<lparr>effects := effects m2 @ [LogFileWrite user key revision]\<rparr>
               in (Inr (), broadcast None (FileCollabSaved key user revision) s1 m3))"

definition save_finish ::
    "('doc, 'upd, 'h) collab_deps \<Rightarrow> collab_config \<Rightarrow> save_io \<Rightarrow> nat \<Rightarrow> ('doc, 'h) collab_manager \<Rightarrow>
     (collab_error + unit) \<times> ('doc, 'h) collab_manager" where
  "save_finish E cfg io i m =
     (let t = lock_tasks m ! i; sid = lt_sid t; m0 = drop_task i m in
      case (lt_op t, lt_snapshot t) of
        (SaveOp user path parent force expected, Some (content, doc_disk_hash)) \<Rightarrow>
          if (case si_meta io of Some md \<Rightarrow> \<not> fm_is_file md | None \<Rightarrow> False)
          then (Inl (User ''file is not a file''), m0)
          else
            let current = current_hash E (max (history_size_cap cfg) (file_size_cap cfg)) io in
            if current \<noteq> Some doc_disk_hash \<and> \<not> force_applies E force expected current then
              let st = \<lparr>cs_hash = current, cs_deleted = (si_meta io = None)\<rparr>;
                  s = (store m0 ! sid)\<lparr>conflict := Some st\<rparr>
              in (Inr (), broadcast_conflict E (Some st) s (put_session sid s m0))
            else save_commit E cfg io (lt_key t) sid user path parent content m0
      | _ \<Rightarrow> (Inr (), m))"

definition reload_enter ::
    "collab_config \<Rightarrow> resolve_fs \<Rightarrow> nat \<Rightarrow> string \<Rightarrow>
     ('doc, 'h) collab_manager \<Rightarrow> (collab_error + unit) \<times> ('doc, 'h) collab_manager" where
  "reload_enter cfg fs conn raw_path m =
     (case subscribed_session cfg fs conn raw_path m of
        Inl e \<Rightarrow> (Inl e, m)
      | Inr (key, sid) \<Rightarrow>
          (Inr (), m\<lparr>lock_tasks := lock_tasks m @
             [\<lparr>lt_conn = conn, lt_raw = raw_path, lt_key = key, lt_sid = sid, lt_op = ReloadOp,
               lt_snapshot = None\<rparr>]\<rparr>))"

definition reload_run ::
    "('doc, 'upd, 'h) collab_deps \<Rightarrow> collab_config \<Rightarrow> read_io \<Rightarrow> nat \<Rightarrow> ('doc, 'h) collab_manager \<Rightarrow>
     (collab_error + unit) \<times> ('doc, 'h) collab_manager" where
  "reload_run E cfg io i m =
     (let sid = lt_sid (lock_tasks m ! i); s = store m ! sid; m0 = drop_task i m in
      case read_content io (file_size_cap cfg) of
        Inl e \<Rightarrow> (Inl e, m0)
      | Inr content \<Rightarrow>
          if poisoned s then (Inl Panicked, m0)
          else
            let s1 = s\<lparr>cs_doc := collab_doc_new E content, dirty := False, conflict := None\<rparr>
            in (Inr (), broadcast_resync s1 (put_session sid s1 m0)))"

section \<open>The reconciler\<close>

text \<open>
  One tick of a session's reconciler, with the answers to its own metadata call and to
  \<open>read_content\<close>. It does nothing while the lock is held; over a poisoned document it panics.
\<close>

definition heal_dirty ::
    "('doc, 'upd, 'h) collab_deps \<Rightarrow> ('doc, 'h) collab_session \<Rightarrow> ('doc, 'h) collab_session" where
  "heal_dirty E s =
     (if dirty s \<and> content_hash E (session_text E s) = disk_hash (cs_doc s) then s\<lparr>dirty := False\<rparr> else s)"

text \<open>What a tick finds: nothing to do, the content with its time stamp, or no readable file.\<close>

datatype tick_seen = Unchanged | Content "nat option" string | Unreadable bool

definition tick_look :: "nat \<Rightarrow> disk_meta option \<Rightarrow> read_io \<Rightarrow> nat option \<Rightarrow> tick_seen" where
  "tick_look size_cap meta io mtime =
     (case meta of
        Some md \<Rightarrow>
          if fm_is_file md \<and> fm_size md \<le> size_cap then
            if fm_modified md \<noteq> None \<and> fm_modified md = mtime then Unchanged
            else (case read_content io size_cap of
                    Inr content \<Rightarrow> Content (fm_modified md) content
                  | Inl _ \<Rightarrow> Unreadable False)
          else if fm_is_file md then Unreadable False else Unreadable True
      | None \<Rightarrow> Unreadable True)"

definition reconcile_content ::
    "('doc, 'upd, 'h) collab_deps \<Rightarrow> nat \<Rightarrow> string \<Rightarrow> ('doc, 'h) collab_session \<Rightarrow>
     ('doc, 'h) collab_manager \<Rightarrow> ('doc, 'h) collab_manager" where
  "reconcile_content E sid content s m =
     (let hash = content_hash E content in
      if disk_hash (cs_doc s) = hash then
        let s1 = s\<lparr>conflict := None\<rparr>; m1 = put_session sid s1 m in
        if conflict s \<noteq> None then broadcast_conflict E None s1 m1 else m1
      else if dirty s then
        let st = \<lparr>cs_hash = Some hash, cs_deleted = False\<rparr>; s1 = s\<lparr>conflict := Some st\<rparr>; m1 = put_session sid s1 m in
        if conflict s \<noteq> Some st then broadcast_conflict E (Some st) s1 m1 else m1
      else
        let s1 = s\<lparr>cs_doc := collab_doc_new E content, conflict := None\<rparr>
        in broadcast_resync s1 (put_session sid s1 m))"

definition reconcile_unreadable ::
    "('doc, 'upd, 'h) collab_deps \<Rightarrow> nat \<Rightarrow> bool \<Rightarrow> ('doc, 'h) collab_session \<Rightarrow>
     ('doc, 'h) collab_manager \<Rightarrow> ('doc, 'h) collab_manager" where
  "reconcile_unreadable E sid deleted s m =
     (if dirty s then
        let st = \<lparr>cs_hash = None, cs_deleted = deleted\<rparr>; s1 = s\<lparr>conflict := Some st\<rparr>; m1 = put_session sid s1 m in
        if conflict s \<noteq> Some st then broadcast_conflict E (Some st) s1 m1 else m1
      else if \<not> reported_unreadable s then
        let s1 = s\<lparr>reported_unreadable := True\<rparr> in broadcast_resync s1 (put_session sid s1 m)
      else put_session sid s m)"

definition reconcile_tick ::
    "('doc, 'upd, 'h) collab_deps \<Rightarrow> collab_config \<Rightarrow> disk_meta option \<Rightarrow> read_io \<Rightarrow> nat \<Rightarrow>
     ('doc, 'h) collab_manager \<Rightarrow> ('doc, 'h) collab_manager" where
  "reconcile_tick E cfg meta io sid m =
     (if \<not> lock_free sid m \<or> poisoned (store m ! sid) then m
      else
        let s = heal_dirty E (store m ! sid) in
        case tick_look (file_size_cap cfg) meta io (last_mtime s) of
          Unchanged \<Rightarrow> put_session sid s m
        | Content mtime content \<Rightarrow>
            reconcile_content E sid content (s\<lparr>last_mtime := mtime, reported_unreadable := False\<rparr>) m
        | Unreadable deleted \<Rightarrow> reconcile_unreadable E sid deleted s m)"

section \<open>Leaving\<close>

definition schedule_teardown :: "string \<Rightarrow> ('doc, 'h) collab_manager \<Rightarrow> ('doc, 'h) collab_manager" where
  "schedule_teardown key m = m\<lparr>pending_teardowns := List.insert key (pending_teardowns m)\<rparr>"

definition leave_session :: "nat \<Rightarrow> string \<Rightarrow> ('doc, 'h) collab_manager \<Rightarrow> ('doc, 'h) collab_manager" where
  "leave_session conn key m =
     (case map_of (sessions m) key of
        None \<Rightarrow> m
      | Some sid \<Rightarrow>
          let s = store m ! sid;
              s1 = s\<lparr>participants := AList.delete conn (participants s)\<rparr>;
              m1 = put_session sid s1 m
          in if participants s1 = [] then schedule_teardown key m1
             else broadcast None (participants_message s1) s1 m1)"

definition leave :: "nat \<Rightarrow> string \<Rightarrow> ('doc, 'h) collab_manager \<Rightarrow> ('doc, 'h) collab_manager" where
  "leave conn key m =
     leave_session conn key
       (m\<lparr>connections := AList.map_entry conn (removeAll key) (connections m),
          pending_updates := AList.delete (conn, key) (pending_updates m)\<rparr>)"

definition unsubscribe ::
    "collab_config \<Rightarrow> resolve_fs \<Rightarrow> nat \<Rightarrow> string \<Rightarrow>
     ('doc, 'h) collab_manager \<Rightarrow> (collab_error + unit) \<times> ('doc, 'h) collab_manager" where
  "unsubscribe cfg fs conn raw_path m =
     (case resolve cfg fs raw_path of
        Inl e \<Rightarrow> (Inl e, m)
      | Inr (_, key) \<Rightarrow> (Inr (), leave conn key m))"

definition disconnect :: "nat \<Rightarrow> ('doc, 'h) collab_manager \<Rightarrow> ('doc, 'h) collab_manager" where
  "disconnect conn m =
     fold (leave_session conn) (subscriptions m conn)
       (m\<lparr>connections := AList.delete conn (connections m),
          pending_updates := filter (\<lambda>((c, _), _). c \<noteq> conn) (pending_updates m)\<rparr>)"

text \<open>The task that \<open>schedule_teardown\<close> spawned, after the grace period, unless it was aborted.\<close>

definition run_teardown :: "string \<Rightarrow> ('doc, 'h) collab_manager \<Rightarrow> ('doc, 'h) collab_manager" where
  "run_teardown key m =
     (if key \<notin> set (pending_teardowns m) then m
      else
        let m1 = (case map_of (sessions m) key of
              Some sid \<Rightarrow> if participants (store m ! sid) = [] then m\<lparr>sessions := AList.delete key (sessions m)\<rparr> else m
            | None \<Rightarrow> m)
        in m1\<lparr>pending_teardowns := removeAll key (pending_teardowns m1)\<rparr>)"

section \<open>Messages\<close>

datatype collab_event = EvSubscribe | EvUnsubscribe | EvUpdate | EvAwareness | EvSave | EvReload

datatype collab_permission = FileUpdate | FileReadContent

definition required_permission :: "collab_event \<Rightarrow> collab_permission" where
  "required_permission ev =
     (case ev of EvUpdate \<Rightarrow> FileUpdate | EvSave \<Rightarrow> FileUpdate | EvReload \<Rightarrow> FileUpdate | _ \<Rightarrow> FileReadContent)"

definition send_to :: "nat \<Rightarrow> ws_message \<Rightarrow> ('doc, 'h) collab_manager \<Rightarrow> ('doc, 'h) collab_manager" where
  "send_to conn msg m = m\<lparr>outbox := outbox m @ [(conn, msg)]\<rparr>"

fun reply ::
    "nat \<Rightarrow> string \<Rightarrow> (collab_error + unit) \<times> ('doc, 'h) collab_manager \<Rightarrow> ('doc, 'h) collab_manager" where
  "reply conn path (Inr (), m) = m"
| "reply conn path (Inl (User err), m) = send_to conn (FileCollabError path err) m"
| "reply conn path (Inl Internal, m) = send_to conn (FileCollabError path ''an unexpected error occurred'') m"
| "reply conn path (Inl Panicked, m) = m"

definition arg :: "string list \<Rightarrow> nat \<Rightarrow> string option" where
  "arg args i = (if i < length args then Some (args ! i) else None)"

definition handle_collab ::
    "('doc, 'upd, 'h) collab_deps \<Rightarrow> collab_config \<Rightarrow> resolve_fs \<Rightarrow> resolve_fs \<Rightarrow> read_io \<Rightarrow> collab_permission list \<Rightarrow>
     nat \<Rightarrow> participant \<Rightarrow> collab_event \<Rightarrow> string list \<Rightarrow> ('doc, 'h) collab_manager \<Rightarrow> ('doc, 'h) collab_manager" where
  "handle_collab E cfg fs fs' io perms conn p ev args m =
     (case arg args 0 of
        None \<Rightarrow> m
      | Some path \<Rightarrow>
          if required_permission ev \<notin> set perms then send_to conn (FileCollabError path ''missing permission'') m
          else case ev of
            EvSubscribe \<Rightarrow> reply conn path (subscribe E cfg fs io conn p path m)
          | EvUnsubscribe \<Rightarrow> reply conn path (unsubscribe cfg fs conn path m)
          | EvUpdate \<Rightarrow>
              (case (arg args 1, arg args 2) of
                 (Some finished, Some chunk) \<Rightarrow>
                   reply conn path (apply_update E cfg fs conn path (finished = ''1'') chunk m)
               | _ \<Rightarrow> m)
          | EvAwareness \<Rightarrow>
              (case arg args 1 of
                 Some payload \<Rightarrow> reply conn path (relay_awareness cfg fs conn path payload m)
               | None \<Rightarrow> m)
          | EvSave \<Rightarrow>
              reply conn path (save_enter cfg fs fs' conn (user_uuid p) path (arg args 1 = Some ''1'') (arg args 2) m)
          | EvReload \<Rightarrow> reply conn path (reload_enter cfg fs conn path m))"

text \<open>
  Everything that changes the state: a message, a step of a queued save or reload, a tick, a
  teardown, a lost connection. A step that has to wait for the lock, or whose task is not in a
  state to take it, changes nothing.
\<close>

datatype collab_action =
    Message resolve_fs resolve_fs read_io "collab_permission list" nat participant collab_event "string list"
  | SaveAcquire nat
  | SaveFinish nat save_io
  | ReloadRun nat read_io
  | Tick nat "disk_meta option" read_io
  | Teardown string
  | Disconnect nat

fun run_action ::
    "('doc, 'upd, 'h) collab_deps \<Rightarrow> collab_config \<Rightarrow> collab_action \<Rightarrow> ('doc, 'h) collab_manager \<Rightarrow>
     ('doc, 'h) collab_manager" where
  "run_action E cfg (Message fs fs' io perms conn p ev args) m =
     handle_collab E cfg fs fs' io perms conn p ev args m"
| "run_action E cfg (SaveAcquire i) m =
     (if i < length (lock_tasks m) \<and> lt_op (lock_tasks m ! i) \<noteq> ReloadOp \<and> lock_free (lt_sid (lock_tasks m ! i)) m
      then reply (lt_conn (lock_tasks m ! i)) (lt_raw (lock_tasks m ! i)) (save_acquire E i m) else m)"
| "run_action E cfg (SaveFinish i io) m =
     (if i < length (lock_tasks m) \<and> lt_snapshot (lock_tasks m ! i) \<noteq> None
      then reply (lt_conn (lock_tasks m ! i)) (lt_raw (lock_tasks m ! i)) (save_finish E cfg io i m) else m)"
| "run_action E cfg (ReloadRun i io) m =
     (if i < length (lock_tasks m) \<and> lt_op (lock_tasks m ! i) = ReloadOp \<and> lock_free (lt_sid (lock_tasks m ! i)) m
      then reply (lt_conn (lock_tasks m ! i)) (lt_raw (lock_tasks m ! i)) (reload_run E cfg io i m) else m)"
| "run_action E cfg (Tick sid meta io) m =
     (if sid < length (store m) then reconcile_tick E cfg meta io sid m else m)"
| "run_action E cfg (Teardown key) m = run_teardown key m"
| "run_action E cfg (Disconnect conn) m = disconnect conn m"

end
