(* ===== verification/CollabLaws.thy ===== *)
theory CollabLaws
  imports Collab
begin

text \<open>
  What holds in every state the collaboration manager can reach (\<open>Collab\<close>): subscriptions of
  connections and participants of sessions agree, the limits are kept, chunk buffers are bounded;
  a save never overwrites a file that changed unseen, and unsaved text is replaced by request only.
\<close>

section \<open>The registry of sessions and connections\<close>

text \<open>The registry is what the manager's maps and the participants of the sessions hold.\<close>

definition registry ::
    "('doc, 'h) collab_manager \<Rightarrow> (string \<times> nat) list \<times> (nat \<times> string list) list \<times>
     ((nat \<times> string) \<times> string) list \<times> string list \<times> (nat \<times> participant) list list" where
  "registry m = (sessions m, connections m, pending_updates m, pending_teardowns m, map participants (store m))"

definition joined :: "('doc, 'h) collab_manager \<Rightarrow> nat \<Rightarrow> string \<Rightarrow> bool" where
  "joined m c k \<longleftrightarrow> (case map_of (sessions m) k of
     None \<Rightarrow> False | Some sid \<Rightarrow> c \<in> fst ` set (map participants (store m) ! sid))"

definition registry_inv :: "collab_config \<Rightarrow> ('doc, 'h) collab_manager \<Rightarrow> bool" where
  "registry_inv cfg m \<longleftrightarrow>
     distinct (map fst (sessions m)) \<and> distinct (map snd (sessions m)) \<and>
     (\<forall>sid \<in> set (map snd (sessions m)). sid < length (map participants (store m))) \<and>
     length (sessions m) \<le> max_sessions_per_server cfg \<and>
     (\<forall>c k. k \<in> set (subscriptions m c) \<longleftrightarrow> joined m c k) \<and>
     (\<forall>c. distinct (subscriptions m c) \<and> length (subscriptions m c) \<le> max 1 (max_sessions_per_connection cfg)) \<and>
     (\<forall>c k b. ((c, k), b) \<in> set (pending_updates m) \<longrightarrow> k \<in> set (subscriptions m c) \<and> length b \<le> file_size_cap cfg) \<and>
     (\<forall>k \<in> set (pending_teardowns m). \<exists>sid. map_of (sessions m) k = Some sid \<and> map participants (store m) ! sid = [])"

lemma registry_inv_cong:
  assumes "registry m' = registry m"
  shows "registry_inv cfg m' \<longleftrightarrow> registry_inv cfg m"
proof -
  have eq: "sessions m' = sessions m" "connections m' = connections m" "pending_updates m' = pending_updates m"
    "pending_teardowns m' = pending_teardowns m" "map participants (store m') = map participants (store m)"
    using assms by (auto simp: registry_def)
  have "subscriptions m' c = subscriptions m c" "joined m' c k = joined m c k" for c k
    unfolding subscriptions_def joined_def eq by simp_all
  then show ?thesis unfolding registry_inv_def eq by simp
qed

lemma registry_put_session:
  assumes "participants s = participants (store m ! sid)"
  shows "registry (put_session sid s m) = registry m"
proof -
  have "(map participants (store m))[sid := participants s] = map participants (store m)"
    using assms by (cases "sid < length (store m)") (simp_all add: list_update_same_conv list_update_beyond)
  then show ?thesis by (simp add: registry_def put_session_def map_update)
qed

named_theorems registry_simps

lemma registry_updates [simp, registry_simps]:
  "registry (m\<lparr>outbox := ob\<rparr>) = registry m" "registry (m\<lparr>effects := es\<rparr>) = registry m"
  "registry (m\<lparr>lock_tasks := ts\<rparr>) = registry m" "registry (broadcast x msg s m) = registry m"
  "registry (broadcast_conflict E st s m) = registry m" "registry (broadcast_resync s m) = registry m"
  "registry (send_to conn msg m) = registry m" "registry (drop_task i m) = registry m"
  by (simp_all add: registry_def broadcast_def broadcast_conflict_def broadcast_resync_def send_to_def drop_task_def)

lemma store_simps [simp]:
  "store (broadcast x msg s m) = store m" "store (broadcast_conflict E st s m) = store m"
  "store (broadcast_resync s m) = store m" "store (send_to conn msg m) = store m"
  "store (drop_task i m) = store m" "store (put_session sid s m) = (store m)[sid := s]"
  by (simp_all add: broadcast_def broadcast_conflict_def broadcast_resync_def send_to_def drop_task_def put_session_def)

lemma lock_tasks_simps [simp]:
  "lock_tasks (broadcast x msg s m) = lock_tasks m" "lock_tasks (broadcast_conflict E st s m) = lock_tasks m"
  "lock_tasks (broadcast_resync s m) = lock_tasks m" "lock_tasks (send_to conn msg m) = lock_tasks m"
  "lock_tasks (put_session sid s m) = lock_tasks m"
  by (simp_all add: broadcast_def broadcast_conflict_def broadcast_resync_def send_to_def put_session_def)

lemma registry_reply [simp]: "registry (reply conn path r) = registry (snd r)"
  by (cases "(conn, path, r)" rule: reply.cases) auto

lemma store_reply [simp]: "store (reply conn path r) = store (snd r)"
  by (cases "(conn, path, r)" rule: reply.cases) auto

lemma lock_tasks_reply [simp]: "lock_tasks (reply conn path r) = lock_tasks (snd r)"
  by (cases "(conn, path, r)" rule: reply.cases) auto

text \<open>The operations that leave the registry alone.\<close>

lemma participants_heal [simp]: "participants (heal_dirty E s) = participants s"
  by (simp add: heal_dirty_def)

lemma participants_update_doc: "update_doc E cap u d s = (r, s') \<Longrightarrow> participants s' = participants s"
  by (auto simp: update_doc_def Let_def split: prod.splits option.splits bool.splits if_splits)

lemma registry_tick: "registry (reconcile_tick E cfg meta io sid m) = registry m"
  by (auto simp: reconcile_tick_def reconcile_content_def reconcile_unreadable_def Let_def registry_put_session
      split: tick_seen.splits)

lemma registry_save_acquire: "registry (snd (save_acquire E i m)) = registry m"
  by (simp add: save_acquire_def Let_def)

lemma registry_save_commit: "registry (snd (save_commit E cfg io key sid user path parent content m)) = registry m"
  by (simp add: save_commit_def Let_def registry_put_session split: write_result.splits)

lemma registry_save_finish: "registry (snd (save_finish E cfg io i m)) = registry m"
  by (simp add: save_finish_def Let_def registry_put_session registry_save_commit
      split: lock_op.splits option.splits prod.splits)

lemma registry_reload_run: "registry (snd (reload_run E cfg io i m)) = registry m"
  by (simp add: reload_run_def Let_def registry_put_session split: sum.splits)

lemma registry_enter:
  "registry (snd (save_enter cfg fs fs' conn user raw force expected m)) = registry m"
  "registry (snd (reload_enter cfg fs conn raw m)) = registry m"
  "registry (snd (relay_awareness cfg fs conn raw payload m)) = registry m"
  by (auto simp: save_enter_def reload_enter_def relay_awareness_def split: sum.splits option.splits)

section \<open>Joining and leaving\<close>

text \<open>The sessions themselves: the part of the invariant that does not speak about connections.\<close>

definition sessions_inv :: "('doc, 'h) collab_manager \<Rightarrow> bool" where
  "sessions_inv m \<longleftrightarrow> distinct (map fst (sessions m)) \<and> distinct (map snd (sessions m)) \<and>
     (\<forall>sid \<in> set (map snd (sessions m)). sid < length (store m)) \<and>
     (\<forall>k \<in> set (pending_teardowns m). \<exists>sid. map_of (sessions m) k = Some sid \<and> participants (store m ! sid) = [])"

lemma registry_inv_iff:
  "registry_inv cfg m \<longleftrightarrow> sessions_inv m \<and> length (sessions m) \<le> max_sessions_per_server cfg \<and>
     (\<forall>c k. k \<in> set (subscriptions m c) \<longleftrightarrow> joined m c k) \<and>
     (\<forall>c. distinct (subscriptions m c) \<and> length (subscriptions m c) \<le> max 1 (max_sessions_per_connection cfg)) \<and>
     (\<forall>c k b. ((c, k), b) \<in> set (pending_updates m) \<longrightarrow> k \<in> set (subscriptions m c) \<and> length b \<le> file_size_cap cfg)"
proof -
  have "(\<exists>sid. map_of (sessions m) k = Some sid \<and> map participants (store m) ! sid = []) \<longleftrightarrow>
      (\<exists>sid. map_of (sessions m) k = Some sid \<and> participants (store m ! sid) = [])"
    if "\<forall>sid \<in> set (map snd (sessions m)). sid < length (store m)" for k
    using that by (force dest: map_of_SomeD)
  then show ?thesis unfolding registry_inv_def sessions_inv_def by auto
qed

lemma sessions_inv_teardown:
  "sessions_inv m \<Longrightarrow> k \<in> set (pending_teardowns m) \<Longrightarrow>
   \<exists>sid. map_of (sessions m) k = Some sid \<and> participants (store m ! sid) = []"
  by (auto simp: sessions_inv_def)

lemma sessions_inv_sid:
  assumes "sessions_inv m" and "map_of (sessions m) k = Some sid"
  shows "sid < length (store m)" and "map_of (sessions m) k' = Some sid \<Longrightarrow> k' = k"
proof -
  show "sid < length (store m)" using assms by (force simp: sessions_inv_def dest: map_of_SomeD)
  assume "map_of (sessions m) k' = Some sid"
  with assms show "k' = k"
    by (auto simp: sessions_inv_def distinct_map inj_on_def dest!: map_of_SomeD) (metis prod.inject snd_conv)
qed

lemma joined_iff:
  assumes "sessions_inv m"
  shows "joined m c k \<longleftrightarrow> (\<exists>sid. map_of (sessions m) k = Some sid \<and> c \<in> fst ` set (participants (store m ! sid)))"
  using sessions_inv_sid(1) [OF assms] by (auto simp: joined_def split: option.splits)

lemma leave_session_sel [simp]:
  "sessions (leave_session conn key m) = sessions m"
  "connections (leave_session conn key m) = connections m"
  "pending_updates (leave_session conn key m) = pending_updates m"
  "lock_tasks (leave_session conn key m) = lock_tasks m"
  "length (store (leave_session conn key m)) = length (store m)"
  by (simp_all add: leave_session_def Let_def put_session_def schedule_teardown_def broadcast_def split: option.splits)

lemma store_leave_session:
  "store (leave_session conn key m) = (case map_of (sessions m) key of
     None \<Rightarrow> store m
   | Some sid \<Rightarrow> (store m)[sid := (store m ! sid)\<lparr>participants := AList.delete conn (participants (store m ! sid))\<rparr>])"
  by (simp add: leave_session_def Let_def schedule_teardown_def put_session_def broadcast_def split: option.splits)

lemma teardowns_leave_session:
  "pending_teardowns (leave_session conn key m) = (case map_of (sessions m) key of
     None \<Rightarrow> pending_teardowns m
   | Some sid \<Rightarrow> if AList.delete conn (participants (store m ! sid)) = []
                 then List.insert key (pending_teardowns m) else pending_teardowns m)"
  by (simp add: leave_session_def Let_def schedule_teardown_def put_session_def broadcast_def split: option.splits)

lemma delete_keys [simp]: "fst ` set (AList.delete c ps) = fst ` set ps - {c}"
  by (auto simp: AList.delete_eq)

lemma leave_session_inv:
  assumes "sessions_inv m"
  shows "sessions_inv (leave_session conn key m)"
    and "joined (leave_session conn key m) c k \<longleftrightarrow> joined m c k \<and> (c, k) \<noteq> (conn, key)"
proof -
  let ?m = "leave_session conn key m"
  have parts: "participants (store ?m ! sid) =
      (if k' = key then AList.delete conn (participants (store m ! sid)) else participants (store m ! sid))"
    if "map_of (sessions m) k' = Some sid" for k' sid
    using that sessions_inv_sid [OF assms] by (auto simp: store_leave_session nth_list_update split: option.splits)
  show inv: "sessions_inv ?m"
    unfolding sessions_inv_def
  proof (intro conjI ballI)
    fix k' assume "k' \<in> set (pending_teardowns ?m)"
    then consider "k' \<in> set (pending_teardowns m)"
      | sid where "k' = key" "map_of (sessions m) key = Some sid" "AList.delete conn (participants (store m ! sid)) = []"
      by (auto simp: teardowns_leave_session split: option.splits if_splits)
    then show "\<exists>sid. map_of (sessions ?m) k' = Some sid \<and> participants (store ?m ! sid) = []"
    proof cases
      case 1
      then obtain sid where "map_of (sessions m) k' = Some sid" "participants (store m ! sid) = []"
        using assms by (auto simp: sessions_inv_def)
      with parts show ?thesis by (auto simp: AList.delete_eq)
    qed (use parts in auto)
  qed (use assms in \<open>auto simp: sessions_inv_def\<close>)
  show "joined ?m c k \<longleftrightarrow> joined m c k \<and> (c, k) \<noteq> (conn, key)"
    using parts [of k] by (cases "map_of (sessions m) k") (auto simp: joined_iff [OF inv] joined_iff [OF assms])
qed

lemma leave_sessions_inv:
  assumes "sessions_inv m"
  shows "sessions_inv (fold (leave_session conn) ks m)"
    and "joined (fold (leave_session conn) ks m) c k \<longleftrightarrow> joined m c k \<and> \<not> (c = conn \<and> k \<in> set ks)"
    and "sessions (fold (leave_session conn) ks m) = sessions m"
    and "connections (fold (leave_session conn) ks m) = connections m"
    and "pending_updates (fold (leave_session conn) ks m) = pending_updates m"
    and "lock_tasks (fold (leave_session conn) ks m) = lock_tasks m"
    and "length (store (fold (leave_session conn) ks m)) = length (store m)"
  using assms by (induction ks arbitrary: m) (auto simp: leave_session_inv)

lemma sessions_inv_cong:
  "sessions m' = sessions m \<Longrightarrow> store m' = store m \<Longrightarrow> set (pending_teardowns m') \<subseteq> set (pending_teardowns m) \<Longrightarrow>
   sessions_inv m \<Longrightarrow> sessions_inv m'"
  by (auto simp: sessions_inv_def)

lemma joined_cong: "sessions m' = sessions m \<Longrightarrow> store m' = store m \<Longrightarrow> joined m' c k = joined m c k"
  by (simp add: joined_def split: option.splits)

lemma subscriptions_map_entry:
  "subscriptions (m\<lparr>connections := AList.map_entry conn (removeAll key) (connections m), pending_updates := pu\<rparr>) c =
     (if c = conn then removeAll key (subscriptions m c) else subscriptions m c)"
  by (simp add: subscriptions_def map_of_map_entry split: option.splits)

lemma registry_inv_leave:
  assumes "registry_inv cfg m"
  shows "registry_inv cfg (leave conn key m)"
proof -
  let ?m1 = "m\<lparr>connections := AList.map_entry conn (removeAll key) (connections m),
               pending_updates := AList.delete (conn, key) (pending_updates m)\<rparr>"
  have s1: "sessions_inv ?m1"
    using assms by (auto simp: registry_inv_iff intro: sessions_inv_cong [of ?m1 m])
  have subs: "subscriptions (leave conn key m) c =
      (if c = conn then removeAll key (subscriptions m c) else subscriptions m c)" for c
    using subscriptions_map_entry [where m = m and conn = conn and key = key] by (simp add: leave_def subscriptions_def)
  have pend: "pending_updates (leave conn key m) = AList.delete (conn, key) (pending_updates m)"
    by (simp add: leave_def)
  have len: "length (removeAll key xs) \<le> length xs" for xs by (simp add: length_removeAll_less_eq)
  have joined: "joined (leave conn key m) c k \<longleftrightarrow> joined m c k \<and> (c, k) \<noteq> (conn, key)" for c k
    using leave_session_inv(2) [OF s1, of conn key c k] joined_cong [of ?m1 m] by (simp add: leave_def)
  have "sessions_inv (leave conn key m)" "sessions (leave conn key m) = sessions m"
    using leave_session_inv(1) [OF s1, of conn key] by (simp_all add: leave_def)
  with assms show ?thesis
    unfolding registry_inv_iff subs joined pend
    by (auto simp: distinct_removeAll AList.delete_eq intro: order_trans [OF len])
qed

lemma registry_inv_disconnect:
  assumes "registry_inv cfg m"
  shows "registry_inv cfg (disconnect conn m)"
proof -
  let ?m1 = "m\<lparr>connections := AList.delete conn (connections m),
               pending_updates := filter (\<lambda>((c, _), _). c \<noteq> conn) (pending_updates m)\<rparr>"
  have s1: "sessions_inv ?m1"
    using assms by (auto simp: registry_inv_iff intro: sessions_inv_cong [of ?m1 m])
  note L = leave_sessions_inv [OF s1, of conn "subscriptions m conn"]
  have subs: "subscriptions (disconnect conn m) c = (if c = conn then [] else subscriptions m c)" for c
    using L(4) by (simp add: disconnect_def subscriptions_def AList.delete_conv')
  have iff: "k \<in> set (subscriptions m c) \<longleftrightarrow> joined m c k" for c k using assms by (simp add: registry_inv_iff)
  have joined: "joined (disconnect conn m) c k \<longleftrightarrow> joined m c k \<and> c \<noteq> conn" for c k
    using L(2) [of c k] iff [of k conn] joined_cong [of ?m1 m] by (auto simp: disconnect_def)
  have "sessions_inv (disconnect conn m)" "sessions (disconnect conn m) = sessions m"
    "pending_updates (disconnect conn m) = pending_updates ?m1"
    using L(1,3,5) by (simp_all add: disconnect_def)
  with assms show ?thesis
    unfolding registry_inv_iff subs joined by auto
qed

lemma registry_inv_teardown:
  assumes "registry_inv cfg m"
  shows "registry_inv cfg (run_teardown key m)"
proof (cases "key \<in> set (pending_teardowns m)")
  case True
  have s: "sessions_inv m" using assms by (simp add: registry_inv_iff)
  then obtain sid where sid: "map_of (sessions m) key = Some sid" "participants (store m ! sid) = []"
    using True by (auto simp: sessions_inv_def)
  let ?m = "m\<lparr>sessions := AList.delete key (sessions m), pending_teardowns := removeAll key (pending_teardowns m)\<rparr>"
  have run: "run_teardown key m = ?m" using True sid by (simp add: run_teardown_def)
  have look: "map_of (sessions ?m) = (map_of (sessions m))(key := None)" by (simp add: AList.delete_conv')
  have s': "sessions_inv ?m"
    using s look by (auto simp: sessions_inv_def AList.delete_eq distinct_map inj_on_def)
  have "joined ?m c k \<longleftrightarrow> joined m c k" for c k
    using sid look by (auto simp: joined_iff [OF s'] joined_iff [OF s] split: if_splits)
  moreover have "length (sessions ?m) \<le> length (sessions m)" by (simp add: AList.delete_eq)
  ultimately show ?thesis
    using assms s' unfolding run registry_inv_iff subscriptions_def by (auto intro: order_trans)
qed (simp add: run_teardown_def assms)

lemma registry_inv_open:
  assumes "registry_inv cfg m" and "open_session E cfg io path key m = Inr (sid, m')"
  shows "registry_inv cfg m'" and "map_of (sessions m') key = Some sid"
    and "pending_teardowns m' = pending_teardowns m" and "subscriptions m' = subscriptions m"
    and "lock_tasks m' = lock_tasks m" and "length (store m) \<le> length (store m')"
proof -
  have s: "sessions_inv m" using assms(1) by (simp add: registry_inv_iff)
  show fields: "pending_teardowns m' = pending_teardowns m" "subscriptions m' = subscriptions m"
    "lock_tasks m' = lock_tasks m" "length (store m) \<le> length (store m')"
    and key: "map_of (sessions m') key = Some sid"
    using assms(2)
    by (auto simp: open_session_def Let_def put_session_def subscriptions_def fun_eq_iff AList.update_conv'
        split: option.splits if_splits sum.splits)
  show "registry_inv cfg m'"
  proof (cases "map_of (sessions m) key")
    case (Some i)
    with assms(2) have "registry m' = registry m"
      by (auto simp: open_session_def Let_def registry_put_session split: if_splits sum.splits)
    with assms(1) show ?thesis using registry_inv_cong by blast
  next
    case None
    with assms(2) have m': "sid = length (store m)" "\<exists>ns. participants ns = [] \<and> store m' = store m @ [ns]"
      "sessions m' = AList.update key sid (sessions m)" "pending_updates m' = pending_updates m"
      "length (sessions m) < max_sessions_per_server cfg"
      by (auto simp: open_session_def split: if_splits sum.splits)
    then obtain ns where ns: "participants ns = []" "store m' = store m @ [ns]" by blast
    have new: "key \<notin> set (map fst (sessions m))" using None by (simp add: map_of_eq_None_iff)
    have "key \<notin> set (map fst xs) \<Longrightarrow> AList.update key sid xs = xs @ [(key, sid)]" for xs
      by (induction xs) auto
    with new have upd: "sessions m' = sessions m @ [(key, sid)]" by (simp add: m'(3))
    have old: "map_of (sessions m) k = Some i \<Longrightarrow> i < length (store m)" for k i
      using sessions_inv_sid(1) [OF s] by blast
    have look: "map_of (sessions m') = (map_of (sessions m))(key \<mapsto> sid)"
      by (simp add: m'(3) AList.update_conv')
    have td: "\<exists>i. map_of (sessions m') k = Some i \<and> participants (store m' ! i) = []"
      if td: "k \<in> set (pending_teardowns m')" for k
    proof -
      obtain i where i: "map_of (sessions m) k = Some i" "participants (store m ! i) = []"
        using sessions_inv_teardown [OF s] td fields(1) by auto
      with None old [OF i(1)] show ?thesis by (auto simp: look ns nth_append)
    qed
    have "distinct (map fst (sessions m')) \<and> distinct (map snd (sessions m')) \<and>
        (\<forall>i \<in> set (map snd (sessions m')). i < length (store m'))"
      using s new by (auto simp: sessions_inv_def upd m'(1) ns)
    with td have s': "sessions_inv m'" by (simp add: sessions_inv_def)
    have "joined m' c k \<longleftrightarrow> joined m c k" for c k
      using None by (auto simp: joined_iff [OF s'] joined_iff [OF s] look m'(1) ns nth_append dest: old)
    with assms(1) s' m'(5) fields(2) show ?thesis by (auto simp: registry_inv_iff upd m'(4))
  qed
qed

lemma registry_inv_join:
  assumes "registry_inv cfg m" and "map_of (sessions m) key = Some sid" and "key \<notin> set (pending_teardowns m)"
    and "key \<in> set (subscriptions m conn) \<or> subscriptions m conn = [] \<or>
         length (subscriptions m conn) < max_sessions_per_connection cfg"
  shows "registry_inv cfg (join_session conn p key sid m)"
proof -
  let ?m = "join_session conn p key sid m"
  have s: "sessions_inv m" using assms(1) by (simp add: registry_inv_iff)
  have sess: "sessions ?m = sessions m" "pending_teardowns ?m = pending_teardowns m"
    "pending_updates ?m = pending_updates m" "length (store ?m) = length (store m)"
    by (simp_all add: join_session_def Let_def put_session_def)
  have subs: "subscriptions ?m c = (if c = conn then List.insert key (subscriptions m c) else subscriptions m c)" for c
    by (simp add: join_session_def Let_def subscriptions_def AList.update_conv')
  have parts: "participants (store ?m ! i) =
      (if k = key then AList.update conn p (participants (store m ! i)) else participants (store m ! i))"
    if "map_of (sessions m) k = Some i" for k i
    using that assms(2) sessions_inv_sid [OF s]
    by (auto simp: join_session_def Let_def put_session_def nth_list_update)
  have td: "\<exists>i. map_of (sessions ?m) k = Some i \<and> participants (store ?m ! i) = []"
    if td: "k \<in> set (pending_teardowns m)" for k
  proof -
    obtain i where i: "map_of (sessions m) k = Some i" "participants (store m ! i) = []"
      using sessions_inv_teardown [OF s td] by blast
    moreover have "k \<noteq> key" using td assms(3) by blast
    ultimately show ?thesis using parts [OF i(1)] by (metis sess(1))
  qed
  have s': "sessions_inv ?m"
    using s td unfolding sessions_inv_def by (simp add: sess)
  have joined: "joined ?m c k \<longleftrightarrow> joined m c k \<or> (c, k) = (conn, key)" for c k
    using parts [of k] assms(2)
    by (cases "map_of (sessions m) k") (auto simp: joined_iff [OF s'] joined_iff [OF s] sess dom_update)
  show ?thesis
    using assms(1,4) s' unfolding registry_inv_iff subs joined sess by (auto simp: List.insert_def le_max_iff_disj)
qed

lemma registry_inv_subscribe:
  assumes "registry_inv cfg m"
  shows "registry_inv cfg (snd (subscribe E cfg fs io conn p raw m))"
proof (cases "resolve cfg fs raw")
  case (Inr pk)
  obtain path key where pk: "pk = (path, key)" by force
  let ?full = "case map_of (connections m) conn of None \<Rightarrow> False
    | Some ks \<Rightarrow> key \<notin> set ks \<and> max_sessions_per_connection cfg \<le> length ks"
  let ?m1 = "m\<lparr>pending_teardowns := removeAll key (pending_teardowns m)\<rparr>"
  show ?thesis
  proof (cases ?full)
    case True
    with Inr pk assms show ?thesis by (simp add: subscribe_def)
  next
    case False
    have m1: "registry_inv cfg ?m1"
      using assms joined_cong [of ?m1 m] sessions_inv_cong [of ?m1 m] by (auto simp: registry_inv_iff subscriptions_def)
    show ?thesis
    proof (cases "open_session E cfg io path key ?m1")
      case (Inl e)
      with m1 False Inr pk show ?thesis by (simp add: subscribe_def)
    next
      case (Inr sm)
      obtain sid m2 where sm: "sm = (sid, m2)" by force
      note op = registry_inv_open [OF m1 Inr [unfolded sm]]
      have subs: "subscriptions m2 = subscriptions m" using op(4) by (simp add: subscriptions_def fun_eq_iff)
      have "registry_inv cfg (join_session conn p key sid m2)"
        using False op(1,2,3) by (intro registry_inv_join) (auto simp: subs subscriptions_def split: option.splits)
      moreover have "registry (snd (subscribe E cfg fs io conn p raw m)) = registry (join_session conn p key sid m2)"
        using False Inr sm pk \<open>resolve cfg fs raw = Inr pk\<close> by (simp add: subscribe_def Let_def)
      ultimately show ?thesis using registry_inv_cong by blast
    qed
  qed
qed (simp add: subscribe_def assms)

lemma subscribed_session_ok:
  assumes "subscribed_session cfg fs conn raw m = Inr (key, sid)"
  shows "key \<in> set (subscriptions m conn)" and "map_of (sessions m) key = Some sid"
  using assms by (auto simp: subscribed_session_def split: sum.splits if_splits option.splits)

lemma collect_chunk_bounded:
  assumes "collect_chunk cap pk fin chunk pending = (r, pending')" and "(q, b) \<in> set pending'"
  shows "(q, b) \<in> set pending \<or> q = pk \<and> length b \<le> cap"
proof -
  have "(q, b) \<in> set (AList.update pk x pending) \<Longrightarrow> (q, b) \<in> set pending \<or> q = pk \<and> b = x" for x
    by (induction pending) (auto split: if_splits)
  with assms show ?thesis
    by (fastforce simp: collect_chunk_def AList.delete_eq split: option.splits if_splits)
qed

lemma registry_inv_pending:
  assumes "registry_inv cfg m" and "key \<in> set (subscriptions m conn)"
    and "\<And>q b. (q, b) \<in> set pending \<Longrightarrow> (q, b) \<in> set (pending_updates m) \<or> q = (conn, key) \<and> length b \<le> file_size_cap cfg"
  shows "registry_inv cfg (m\<lparr>pending_updates := pending\<rparr>)"
proof -
  let ?m = "m\<lparr>pending_updates := pending\<rparr>"
  have "subscriptions ?m = subscriptions m" "sessions_inv ?m = sessions_inv m" "joined ?m = joined m"
    by (simp_all add: subscriptions_def sessions_inv_def joined_def fun_eq_iff split: option.splits)
  with assms show ?thesis unfolding registry_inv_iff by (auto dest!: assms(3))
qed

lemma registry_inv_apply_update:
  assumes "registry_inv cfg m"
  shows "registry_inv cfg (snd (apply_update E cfg fs conn raw fin chunk m))"
proof (cases "subscribed_session cfg fs conn raw m")
  case (Inr ks)
  obtain key sid where ks: "ks = (key, sid)" by force
  note sub = subscribed_session_ok [OF Inr [unfolded ks]]
  show ?thesis
  proof (cases "b64_decode E chunk")
    case (Some bytes)
    obtain r pending where col: "collect_chunk (file_size_cap cfg) (conn, key) fin bytes (pending_updates m) = (r, pending)"
      by force
    let ?m1 = "m\<lparr>pending_updates := pending\<rparr>"
    have "registry_inv cfg ?m1"
      using registry_inv_pending [OF assms sub(1)] collect_chunk_bounded [OF col] by blast
    moreover have "registry (snd (apply_update E cfg fs conn raw fin chunk m)) = registry ?m1"
      using Inr ks Some col
      by (auto simp: apply_update_def Let_def registry_put_session dest: participants_update_doc
          split: sum.splits option.splits prod.splits bool.splits)
    ultimately show ?thesis using registry_inv_cong by blast
  qed (simp add: apply_update_def Inr ks assms)
qed (simp add: apply_update_def assms)

section \<open>Reachable states\<close>

lemma registry_inv_new: "registry_inv cfg collab_manager_new"
  by (simp add: registry_inv_def collab_manager_new_def subscriptions_def joined_def)

lemma registry_inv_reply [simp]: "registry_inv cfg (reply conn path r) = registry_inv cfg (snd r)"
  by (rule registry_inv_cong) simp

lemma registry_inv_send [simp]: "registry_inv cfg (send_to conn msg m) = registry_inv cfg m"
  by (rule registry_inv_cong) simp

lemma registry_inv_handle:
  assumes "registry_inv cfg m"
  shows "registry_inv cfg (handle_collab E cfg fs fs' io perms conn p ev args m)"
proof -
  have "registry_inv cfg (snd (unsubscribe cfg fs conn path m))" for path
    using assms registry_inv_leave by (auto simp: unsubscribe_def split: sum.splits)
  then show ?thesis
    using assms
    by (auto simp: handle_collab_def registry_inv_cong [OF registry_enter(1)] registry_inv_cong [OF registry_enter(2)]
        registry_inv_cong [OF registry_enter(3)] registry_inv_subscribe registry_inv_apply_update
        split: option.splits collab_event.splits)
qed

lemma registry_inv_action:
  assumes "registry_inv cfg m"
  shows "registry_inv cfg (run_action E cfg a m)"
proof (cases a)
  case (Message fs fs' io perms conn p ev args)
  with assms show ?thesis by (simp add: registry_inv_handle)
next
  case (Teardown key)
  with assms show ?thesis by (simp add: registry_inv_teardown)
next
  case (Disconnect conn)
  with assms show ?thesis by (simp add: registry_inv_disconnect)
qed (use assms in \<open>auto simp: registry_save_acquire registry_save_finish registry_reload_run registry_tick
    intro: registry_inv_cong [THEN iffD2]\<close>)

lemma registry_inv_reachable: "registry_inv cfg (fold (run_action E cfg) acts collab_manager_new)"
proof -
  have "registry_inv cfg m \<Longrightarrow> registry_inv cfg (fold (run_action E cfg) acts m)" for m
    by (induction acts arbitrary: m) (auto intro: registry_inv_action)
  then show ?thesis using registry_inv_new by blast
qed

section \<open>Clean sessions\<close>

text \<open>
  What the sessions rely on of the document library: a document made from a text has that text, and
  an update that is rejected does not change it.
\<close>

definition text_laws :: "('doc, 'upd, 'h) collab_deps \<Rightarrow> bool" where
  "text_laws E \<longleftrightarrow> (\<forall>c. doc_text E (doc_with E c) = c) \<and>
     (\<forall>u d d'. integrate E u d = (d', False) \<longrightarrow> doc_text E d' = doc_text E d)"

definition saved :: "('doc, 'upd, 'h) collab_deps \<Rightarrow> ('doc, 'h) collab_session \<Rightarrow> bool" where
  "saved E s \<longleftrightarrow> content_hash E (session_text E s) = disk_hash (cs_doc s)"

definition clean_inv :: "('doc, 'upd, 'h) collab_deps \<Rightarrow> ('doc, 'h) collab_session \<Rightarrow> bool" where
  "clean_inv E s \<longleftrightarrow> (\<not> dirty s \<longrightarrow> saved E s)"

lemma session_text_simps [simp]:
  "session_text E (s\<lparr>dirty := b\<rparr>) = session_text E s" "session_text E (s\<lparr>conflict := c\<rparr>) = session_text E s"
  "session_text E (s\<lparr>participants := ps\<rparr>) = session_text E s" "session_text E (s\<lparr>poisoned := b\<rparr>) = session_text E s"
  "session_text E (s\<lparr>last_mtime := t\<rparr>) = session_text E s"
  "session_text E (s\<lparr>reported_unreadable := b\<rparr>) = session_text E s"
  "session_text E (heal_dirty E s) = session_text E s"
  by (simp_all add: session_text_def heal_dirty_def)

lemma saved_simps [simp]:
  "saved E (s\<lparr>dirty := b\<rparr>) = saved E s" "saved E (s\<lparr>conflict := c\<rparr>) = saved E s"
  "saved E (s\<lparr>participants := ps\<rparr>) = saved E s" "saved E (s\<lparr>last_mtime := t\<rparr>) = saved E s"
  "saved E (s\<lparr>reported_unreadable := b\<rparr>) = saved E s"
  by (simp_all add: saved_def)

lemma new_doc_saved [simp]:
  assumes "text_laws E"
  shows "session_text E (s\<lparr>cs_doc := collab_doc_new E c\<rparr>) = c" and "saved E (s\<lparr>cs_doc := collab_doc_new E c\<rparr>)"
  using assms by (simp_all add: saved_def session_text_def collab_doc_new_def text_laws_def)

lemma clean_heal: "clean_inv E s \<Longrightarrow> clean_inv E (heal_dirty E s)"
  by (auto simp: clean_inv_def heal_dirty_def saved_def)

lemma saved_heal: "saved E (heal_dirty E s) = saved E s" "\<not> saved E s \<Longrightarrow> heal_dirty E s = s"
  by (auto simp: heal_dirty_def saved_def)

text \<open>
  How a step may change the session at each place of the store: any step keeps clean sessions clean;
  a quiet one also keeps the text of a session with unsaved edits.
\<close>

definition tame :: "('doc, 'upd, 'h) collab_deps \<Rightarrow> ('doc, 'h) collab_session \<Rightarrow> ('doc, 'h) collab_session \<Rightarrow> bool" where
  "tame E s s' \<longleftrightarrow> (clean_inv E s \<longrightarrow> clean_inv E s')"

definition quiet :: "('doc, 'upd, 'h) collab_deps \<Rightarrow> ('doc, 'h) collab_session \<Rightarrow> ('doc, 'h) collab_session \<Rightarrow> bool" where
  "quiet E s s' \<longleftrightarrow> (clean_inv E s \<longrightarrow> clean_inv E s' \<and> (\<not> saved E s \<longrightarrow> session_text E s' = session_text E s))"

definition store_change ::
    "('doc, 'upd, 'h) collab_deps \<Rightarrow> (('doc, 'h) collab_session \<Rightarrow> ('doc, 'h) collab_session \<Rightarrow> bool) \<Rightarrow>
     ('doc, 'h) collab_manager \<Rightarrow> ('doc, 'h) collab_manager \<Rightarrow> bool" where
  "store_change E R m m' \<longleftrightarrow> length (store m) \<le> length (store m') \<and>
     (\<forall>i < length (store m'). if i < length (store m) then R (store m ! i) (store m' ! i) else clean_inv E (store m' ! i))"

lemma quiet_refl [simp]: "quiet E s s" and tame_refl [simp]: "tame E s s"
  and quiet_tame: "quiet E s s' \<Longrightarrow> tame E s s'"
  and quiet_trans: "quiet E s s' \<Longrightarrow> quiet E s' s'' \<Longrightarrow> saved E s' = saved E s \<Longrightarrow> quiet E s s''"
  by (auto simp: quiet_def tame_def)

lemma store_change_put:
  assumes "\<And>s. R s s" and "R (store m ! sid) s"
  shows "store_change E R m (put_session sid s m)"
  using assms by (cases "sid < length (store m)") (auto simp: store_change_def nth_list_update list_update_beyond)

lemma store_change_same: "(\<And>s. R s s) \<Longrightarrow> store m' = store m \<Longrightarrow> store_change E R m m'"
  by (simp add: store_change_def)

lemma store_change_sent [simp]:
  "store_change E R m (broadcast x msg s m') = store_change E R m m'"
  "store_change E R m (broadcast_conflict E' st s m') = store_change E R m m'"
  "store_change E R m (broadcast_resync s m') = store_change E R m m'"
  "store_change E R m (send_to conn msg m') = store_change E R m m'"
  "store_change E R m (reply conn path r) = store_change E R m (snd r)"
  "store_change E R m (m'\<lparr>effects := es\<rparr>) = store_change E R m m'"
  "store_change E R m (m'\<lparr>outbox := ob\<rparr>) = store_change E R m m'"
  "store_change E R m (m'\<lparr>lock_tasks := ts\<rparr>) = store_change E R m m'"
  "store_change E R (m\<lparr>pending_teardowns := td\<rparr>) m' = store_change E R m m'"
  "store_change E R (drop_task i m) m' = store_change E R m m'"
  by (simp_all add: store_change_def cong: if_cong)

lemma store_change_mono: "store_change E R m m' \<Longrightarrow> (\<And>s s'. R s s' \<Longrightarrow> R' s s') \<Longrightarrow> store_change E R' m m'"
  by (auto simp: store_change_def)

lemma quiet_fields:
  "quiet E s (s\<lparr>conflict := c\<rparr>)" "quiet E s (s\<lparr>participants := ps\<rparr>)" "quiet E s (s\<lparr>last_mtime := t\<rparr>)"
  "quiet E s (s\<lparr>reported_unreadable := b\<rparr>)"
  by (auto simp: quiet_def clean_inv_def)

lemma quiet_heal: "quiet E s (heal_dirty E s)"
  by (auto simp: quiet_def clean_heal)

text \<open>A refresh from disk is quiet: it happens to a clean session only, which has nothing unsaved.\<close>

lemma quiet_refresh: "text_laws E \<Longrightarrow> \<not> dirty s \<Longrightarrow> quiet E s (s\<lparr>cs_doc := collab_doc_new E c, conflict := x\<rparr>)"
  by (auto simp: quiet_def clean_inv_def)

definition doc_view :: "('doc, 'h) collab_session \<Rightarrow> ('doc, 'h) collab_doc \<times> bool" where
  "doc_view s = (cs_doc s, dirty s)"

lemma quiet_doc_view: "doc_view s'' = doc_view s' \<Longrightarrow> quiet E s s'' = quiet E s s'"
  by (simp add: doc_view_def quiet_def clean_inv_def saved_def session_text_def)

lemma store_change_doc_view:
  assumes "store_change E (quiet E) m m'" and "map doc_view (store m'') = map doc_view (store m')"
  shows "store_change E (quiet E) m m''"
proof -
  have len: "length (store m'') = length (store m')" using assms(2) by (metis length_map)
  have view: "doc_view (store m'' ! i) = doc_view (store m' ! i)" if "i < length (store m')" for i
    using that assms(2) len by (metis nth_map)
  moreover have "clean_inv E s'' = clean_inv E s'" if "doc_view s'' = doc_view s'" for s'' s' :: "('a, 'c) collab_session"
    using that by (simp add: doc_view_def clean_inv_def saved_def session_text_def)
  ultimately show ?thesis
    using assms(1) len quiet_doc_view unfolding store_change_def by metis
qed

lemma doc_view_put:
  "doc_view s = doc_view (store m ! sid) \<Longrightarrow> map doc_view (store (put_session sid s m)) = map doc_view (store m)"
  by (cases "sid < length (store m)") (simp_all add: map_update list_update_beyond list_update_same_conv)

lemma doc_view_leave: "map doc_view (store (leave_session conn key m)) = map doc_view (store m)"
proof (cases "map_of (sessions m) key")
  case (Some sid)
  let ?s = "(store m ! sid)\<lparr>participants := AList.delete conn (participants (store m ! sid))\<rparr>"
  have "doc_view ?s = doc_view (store m ! sid)" by (simp add: doc_view_def)
  from doc_view_put [OF this] Some show ?thesis by (simp add: store_leave_session)
qed (simp add: store_leave_session)

lemma doc_view_leaves: "map doc_view (store (fold (leave_session conn) ks m)) = map doc_view (store m)"
  by (induction ks arbitrary: m) (simp_all add: doc_view_leave)

lemma quiet_same_view: "map doc_view (store m') = map doc_view (store m) \<Longrightarrow> store_change E (quiet E) m m'"
  using store_change_doc_view [OF store_change_same [of "quiet E" m m E]] by simp

lemma quiet_tick:
  assumes "text_laws E"
  shows "store_change E (quiet E) m (reconcile_tick E cfg meta io sid m)"
proof -
  let ?s = "store m ! sid"
  have put: "store_change E (quiet E) m (put_session sid s m)" if "quiet E ?s s" for s
    using that by (intro store_change_put) simp_all
  have heal: "quiet E ?s (heal_dirty E ?s)"
    and "quiet E ?s (heal_dirty E ?s\<lparr>conflict := c\<rparr>)" "quiet E ?s (heal_dirty E ?s\<lparr>reported_unreadable := b\<rparr>)"
    "quiet E ?s (heal_dirty E ?s\<lparr>last_mtime := t, reported_unreadable := b, conflict := c\<rparr>)"
    "\<not> dirty (heal_dirty E ?s) \<Longrightarrow>
      quiet E ?s (heal_dirty E ?s\<lparr>last_mtime := t, reported_unreadable := b, cs_doc := collab_doc_new E x, conflict := c\<rparr>)"
    for c b t x
    using clean_heal [of E ?s] saved_heal [of E ?s] new_doc_saved [OF assms]
    by (auto simp: quiet_def clean_inv_def)
  note parts = this [THEN put]
  show ?thesis
    using parts
    by (auto simp: reconcile_tick_def reconcile_content_def reconcile_unreadable_def Let_def store_change_same
        split: tick_seen.splits)
qed

lemma quiet_save_commit:
  "store_change E (quiet E) m (snd (save_commit E cfg io key sid user path parent content m))"
proof -
  let ?s = "store m ! sid"
  let ?s1 = "?s\<lparr>cs_doc := (cs_doc ?s)\<lparr>disk_hash := content_hash E content\<rparr>,
               dirty := (session_text E ?s \<noteq> content), conflict := None\<rparr>"
  have "quiet E ?s ?s1" by (auto simp: quiet_def clean_inv_def saved_def session_text_def)
  then have "store_change E (quiet E) m (put_session sid ?s1 (m\<lparr>effects := es\<rparr>))" for es
    using store_change_put [of "quiet E" m sid ?s1 E] by (simp add: store_change_def)
  then show ?thesis
    by (auto simp: save_commit_def Let_def store_change_same split: write_result.splits)
qed

lemma quiet_save_finish: "store_change E (quiet E) m (snd (save_finish E cfg io i m))"
proof -
  have put: "store_change E (quiet E) m (put_session sid ((store m ! sid)\<lparr>conflict := c\<rparr>) (drop_task i m))" for sid c
    using store_change_put [of "quiet E" m sid "(store m ! sid)\<lparr>conflict := c\<rparr>" E] quiet_fields(1) [of E "store m ! sid" c]
    by (simp add: store_change_def)
  have commit: "store_change E (quiet E) m (snd (save_commit E cfg io key sid user path parent content (drop_task i m)))"
    for key sid user path parent content
    using quiet_save_commit [of E "drop_task i m"] by simp
  show ?thesis
    using put commit
    by (auto simp: save_finish_def Let_def store_change_same split: lock_op.splits option.splits)
qed

lemma tame_reload:
  assumes "text_laws E"
  shows "store_change E (tame E) m (snd (reload_run E cfg io i m))"
proof -
  have "tame E s (s\<lparr>cs_doc := collab_doc_new E c, dirty := False, conflict := None\<rparr>)" for s c
    using new_doc_saved [OF assms] by (simp add: tame_def clean_inv_def)
  then have "store_change E (tame E) m (put_session sid
      ((store m ! sid)\<lparr>cs_doc := collab_doc_new E c, dirty := False, conflict := None\<rparr>) (drop_task i m))" for sid c
    using store_change_put [of "tame E" m sid _ E] by (simp add: store_change_def)
  then show ?thesis
    by (auto simp: reload_run_def Let_def store_change_same split: sum.splits)
qed

lemma tame_update_doc:
  assumes "text_laws E" and "update_doc E cap u d s = (r, s')"
  shows "tame E s s'"
proof (cases "integrate E d (cd_doc (cs_doc s))")
  case (Pair d' ok)
  show ?thesis
  proof (cases ok)
    case True
    with Pair assms(2) have "s' = s \<or> dirty s'"
      by (auto simp: update_doc_def Let_def split: option.splits if_splits)
    then show ?thesis by (auto simp: tame_def clean_inv_def)
  next
    case False
    have "doc_text E d' = doc_text E (cd_doc (cs_doc s))"
      using assms(1) Pair False by (auto simp: text_laws_def)
    with False Pair assms(2) show ?thesis
      by (auto simp: update_doc_def tame_def clean_inv_def saved_def session_text_def split: if_splits)
  qed
qed

lemma tame_apply_update:
  assumes "text_laws E"
  shows "store_change E (tame E) m (snd (apply_update E cfg fs conn raw fin chunk m))"
proof -
  have put: "store_change E (tame E) m (put_session sid s' (m\<lparr>pending_updates := pend\<rparr>))"
    if "update_doc E cap u d (store m ! sid) = (r, s')" for cap u d sid r s' pend
    using store_change_put [of "tame E" m sid s' E] tame_update_doc [OF assms that] by (simp add: store_change_def)
  show ?thesis
    using put by (auto simp: apply_update_def Let_def store_change_same
        split: sum.splits option.splits prod.splits bool.splits)
qed

lemma quiet_open:
  assumes "text_laws E" and "open_session E cfg io path key m = Inr (sid, m')"
  shows "store_change E (quiet E) m m'"
proof (cases "map_of (sessions m) key")
  case None
  have "clean_inv E s" if "cs_doc s = collab_doc_new E c" for s c
    using that assms(1) by (simp add: clean_inv_def saved_def session_text_def collab_doc_new_def text_laws_def)
  with None assms(2) show ?thesis
    by (auto simp: open_session_def store_change_def nth_append less_Suc_eq split: if_splits sum.splits)
next
  case (Some i)
  have "store_change E (quiet E) m (put_session i ((store m ! i)\<lparr>cs_doc := collab_doc_new E c, conflict := None\<rparr>) m)"
    if "\<not> dirty (store m ! i)" for c
    using that quiet_refresh [OF assms(1)] by (intro store_change_put) simp_all
  moreover have "store_change E (quiet E) m (put_session i ((store m ! i)\<lparr>conflict := None\<rparr>) m)"
    using quiet_fields(1) by (intro store_change_put) simp_all
  ultimately show ?thesis
    using Some assms(2) by (auto simp: open_session_def Let_def store_change_same split: if_splits sum.splits)
qed

lemma quiet_subscribe:
  assumes "text_laws E"
  shows "store_change E (quiet E) m (snd (subscribe E cfg fs io conn p raw m))"
proof -
  have view: "map doc_view (store (join_session conn p key sid m2)) = map doc_view (store m2)" for key sid m2
    using doc_view_put [of "(store m2 ! sid)\<lparr>participants := AList.update conn p (participants (store m2 ! sid))\<rparr>" m2 sid]
    by (simp add: join_session_def Let_def doc_view_def)
  have joined: "store_change E (quiet E) m (join_session conn p key sid m2)"
    if "open_session E cfg io path key (m\<lparr>pending_teardowns := td\<rparr>) = Inr (sid, m2)" for path key sid m2 td
  proof (rule store_change_doc_view [OF _ view])
    show "store_change E (quiet E) m m2" using quiet_open [OF assms that] by simp
  qed
  show ?thesis
    by (auto simp: subscribe_def Let_def store_change_same joined split: sum.splits)
qed

lemma quiet_disconnect: "store_change E (quiet E) m (disconnect conn m)"
  by (rule quiet_same_view) (simp add: disconnect_def doc_view_leaves)

lemma quiet_leave: "store_change E (quiet E) m (leave conn key m)"
  by (rule quiet_same_view) (simp add: leave_def doc_view_leave)

lemma quiet_teardown: "store_change E (quiet E) m (run_teardown key m)"
  by (rule store_change_same) (simp_all add: run_teardown_def Let_def split: option.splits)

end
