(* ===== verification/CollabSafety.thy ===== *)
theory CollabSafety
  imports CollabLaws
begin

text \<open>
  The properties of collaborative editing over all series of steps (\<open>run_action\<close>), and three ways
  in which the code departs from them. The witnesses run a manager over a plain-text stand-in for the
  document library: a document is its text, an update replaces it, a digest is the text itself.
\<close>

section \<open>Effect of a step on the sessions\<close>

fun replaces_text :: "collab_action \<Rightarrow> bool" where
  "replaces_text (Message fs fs' io perms conn p ev args) \<longleftrightarrow> ev = EvUpdate"
| "replaces_text (ReloadRun i io) \<longleftrightarrow> True"
| "replaces_text _ \<longleftrightarrow> False"

lemma quiet_handle:
  assumes "text_laws E" and "ev \<noteq> EvUpdate"
  shows "store_change E (quiet E) m (handle_collab E cfg fs fs' io perms conn p ev args m)"
proof -
  have "store_change E (quiet E) m (snd (unsubscribe cfg fs conn path m))" for path
    by (auto simp: unsubscribe_def quiet_leave store_change_same split: sum.splits)
  moreover have "store (snd (save_enter cfg fs fs' conn user path force expected m)) = store m"
    "store (snd (reload_enter cfg fs conn path m)) = store m"
    "store (snd (relay_awareness cfg fs conn path payload m)) = store m" for user path force expected payload
    by (auto simp: save_enter_def reload_enter_def relay_awareness_def split: sum.splits option.splits)
  ultimately show ?thesis
    using assms(2)
    by (auto simp: handle_collab_def store_change_same quiet_subscribe [OF assms(1)]
        split: option.splits collab_event.splits)
qed

lemma quiet_action:
  assumes "text_laws E" and "\<not> replaces_text a"
  shows "store_change E (quiet E) m (run_action E cfg a m)"
proof (cases a)
  case (SaveAcquire i)
  have "store (snd (save_acquire E i m)) = store m" by (simp add: save_acquire_def Let_def)
  with SaveAcquire show ?thesis by (simp add: store_change_same)
qed (use assms in \<open>auto simp: quiet_handle quiet_save_finish quiet_tick quiet_teardown quiet_disconnect store_change_same\<close>)

lemma tame_action:
  assumes "text_laws E"
  shows "store_change E (tame E) m (run_action E cfg a m)"
proof (cases "replaces_text a")
  case False
  from store_change_mono [OF quiet_action [OF assms False] quiet_tame] show ?thesis .
next
  case True
  with assms show ?thesis
    by (cases a) (auto simp: handle_collab_def store_change_same tame_apply_update tame_reload split: option.splits)
qed

lemma clean_reachable:
  assumes "text_laws E"
  shows "\<forall>i < length (store (fold (run_action E cfg) acts collab_manager_new)).
    clean_inv E (store (fold (run_action E cfg) acts collab_manager_new) ! i)"
proof -
  have step: "\<forall>i < length (store (run_action E cfg a m)). clean_inv E (store (run_action E cfg a m) ! i)"
    if "\<forall>i < length (store m). clean_inv E (store m ! i)" for a m
    using that tame_action [OF assms, of m cfg a] by (auto simp: store_change_def tame_def split: if_splits)
  have "\<forall>i < length (store m). clean_inv E (store m ! i) \<Longrightarrow>
      \<forall>i < length (store (fold (run_action E cfg) acts m)). clean_inv E (store (fold (run_action E cfg) acts m) ! i)" for m
    by (induction acts arbitrary: m) (use step in \<open>auto\<close>)
  then show ?thesis by (simp add: collab_manager_new_def)
qed

lemma registry_sessions: "registry m' = registry m \<Longrightarrow> sessions m' = sessions m"
  by (simp add: registry_def)

lemma sessions_open:
  "open_session E cfg io path key m = Inr (sid, m') \<Longrightarrow> map_of (sessions m) k = Some i \<Longrightarrow>
   map_of (sessions m') k = Some i"
  by (auto simp: open_session_def Let_def put_session_def AList.update_conv' split: option.splits if_splits sum.splits)

lemma sessions_join [simp]: "sessions (join_session conn p key sid m) = sessions m"
  by (simp add: join_session_def Let_def put_session_def)

lemma sessions_subscribe:
  assumes "map_of (sessions m) k = Some i"
  shows "map_of (sessions (snd (subscribe E cfg fs io conn p raw m))) k = Some i"
proof -
  have "map_of (sessions (join_session conn p key sid m2)) k = Some i"
    if "open_session E cfg io path key (m\<lparr>pending_teardowns := td\<rparr>) = Inr (sid, m2)" for path key sid m2 td
    using sessions_open [OF that, of k i] assms by simp
  then show ?thesis
    using assms by (auto simp: subscribe_def Let_def broadcast_def split: sum.splits)
qed

lemma sessions_apply_update: "sessions (snd (apply_update E cfg fs conn raw fin chunk m)) = sessions m"
  by (auto simp: apply_update_def Let_def broadcast_def broadcast_resync_def put_session_def
      split: sum.splits option.splits prod.splits bool.splits)

lemma sessions_reply [simp]: "sessions (reply conn path r) = sessions (snd r)"
  by (cases "(conn, path, r)" rule: reply.cases) (auto simp: send_to_def)

lemma fold_leave_sessions [simp]: "sessions (fold (leave_session conn) ks m) = sessions m"
  by (induction ks arbitrary: m) simp_all

lemma session_stays:
  assumes "map_of (sessions m) k = Some sid" and "participants (store m ! sid) \<noteq> []"
  shows "map_of (sessions (run_action E cfg a m)) k = Some sid"
proof (cases a)
  case (Message fs fs' io perms conn p ev args)
  have "sessions (snd (unsubscribe cfg fs conn path m)) = sessions m" for path
    by (auto simp: unsubscribe_def leave_def split: sum.splits)
  with Message assms(1) show ?thesis
    by (auto simp: handle_collab_def send_to_def sessions_subscribe sessions_apply_update
        registry_sessions [OF registry_enter(1)] registry_sessions [OF registry_enter(2)]
        registry_sessions [OF registry_enter(3)] split: option.splits collab_event.splits)
next
  case (Teardown key)
  with assms show ?thesis by (auto simp: run_teardown_def Let_def AList.delete_conv' split: option.splits)
next
  case (Disconnect conn)
  with assms show ?thesis by (simp add: disconnect_def)
qed (use assms(1) in \<open>auto simp: registry_sessions [OF registry_save_acquire] registry_sessions [OF registry_save_finish]
    registry_sessions [OF registry_reload_run] registry_sessions [OF registry_tick]\<close>)

section \<open>What a step writes\<close>

lemma effects_sent [simp]:
  "effects (broadcast x msg s m) = effects m" "effects (broadcast_conflict E st s m) = effects m"
  "effects (broadcast_resync s m) = effects m" "effects (send_to conn msg m) = effects m"
  "effects (put_session sid s m) = effects m" "effects (drop_task i m) = effects m"
  by (simp_all add: broadcast_def broadcast_conflict_def broadcast_resync_def send_to_def put_session_def drop_task_def)

lemma effects_reply [simp]: "effects (reply conn path r) = effects (snd r)"
  by (cases "(conn, path, r)" rule: reply.cases) auto

lemma effects_leave_session [simp]: "effects (leave_session conn key m) = effects m"
  by (simp add: leave_session_def Let_def schedule_teardown_def split: option.splits)

lemma effects_leaves [simp]: "effects (fold (leave_session conn) ks m) = effects m"
  by (induction ks arbitrary: m) simp_all

lemma effects_subscribe: "effects (snd (subscribe E cfg fs io conn p raw m)) = effects m"
proof -
  have "effects m2 = effects m"
    if "open_session E cfg io path key (m\<lparr>pending_teardowns := td\<rparr>) = Inr (sid, m2)" for path key sid m2 td
    using that by (auto simp: open_session_def Let_def split: option.splits if_splits sum.splits)
  then show ?thesis by (auto simp: subscribe_def Let_def join_session_def split: sum.splits)
qed

lemma effects_handle: "effects (handle_collab E cfg fs fs' io perms conn p ev args m) = effects m"
proof -
  have "effects (snd (apply_update E cfg fs conn path fin chunk m)) = effects m" for path fin chunk
    by (auto simp: apply_update_def Let_def split: sum.splits option.splits prod.splits bool.splits)
  moreover have "effects (snd (unsubscribe cfg fs conn path m)) = effects m" for path
    by (auto simp: unsubscribe_def leave_def split: sum.splits)
  moreover have "effects (snd (save_enter cfg fs fs' conn user path force expected m)) = effects m"
    "effects (snd (reload_enter cfg fs conn path m)) = effects m"
    "effects (snd (relay_awareness cfg fs conn path payload m)) = effects m" for user path force expected payload
    by (auto simp: save_enter_def reload_enter_def relay_awareness_def split: sum.splits option.splits)
  ultimately show ?thesis
    by (auto simp: handle_collab_def effects_subscribe split: option.splits collab_event.splits)
qed

lemma effects_other:
  assumes "\<And>i io. a \<noteq> SaveFinish i io"
  shows "effects (run_action E cfg a m) = effects m"
proof (cases a)
  case (Teardown key)
  then show ?thesis by (auto simp: run_teardown_def Let_def split: option.splits)
qed (use assms in \<open>auto simp: effects_handle save_acquire_def reload_run_def reconcile_tick_def reconcile_content_def
    reconcile_unreadable_def disconnect_def Let_def split: sum.splits tick_seen.splits\<close>)

definition writes_file :: "path \<Rightarrow> string \<Rightarrow> collab_effect list \<Rightarrow> bool" where
  "writes_file path content es \<longleftrightarrow> WriteFile path content \<in> set es"

lemma save_commit_writes:
  assumes "effects (snd (save_commit E cfg io key sid user path parent content m)) = effects m @ new"
    and "writes_file path' content' new \<or> WriteAborted path' \<in> set new"
  shows "path' = path" and "writes_file path' content' new \<Longrightarrow> content' = content"
  using assms by (auto simp: save_commit_def Let_def writes_file_def split: write_result.splits if_splits)

lemma force_applies_iff:
  "force_applies E force expected current \<longleftrightarrow>
     force \<and> (expected = None \<or> (\<exists>h. current = Some h \<and> expected = Some (to_hex E h)))"
  by (auto simp: force_applies_def split: option.splits)




section \<open>Chunked updates\<close>

lemma alist_fresh:
  assumes "map_of xs k = None"
  shows "AList.update k v xs = xs @ [(k, v)]" and "AList.update k v (xs @ [(k, w)]) = xs @ [(k, v)]"
    and "AList.delete k (xs @ [(k, w)]) = xs" and "map_of (xs @ [(k, w)]) k = Some w"
  using assms by (induction xs) (auto simp: AList.delete_eq split: if_splits)

lemma subscribed_session_pending [simp]:
  "subscribed_session cfg fs conn raw (m\<lparr>pending_updates := ps\<rparr>) = subscribed_session cfg fs conn raw m"
  by (auto simp: subscribed_session_def subscriptions_def split: sum.splits option.splits)

definition send_partial ::
    "('doc, 'upd, 'h) collab_deps \<Rightarrow> collab_config \<Rightarrow> resolve_fs \<Rightarrow> nat \<Rightarrow> string \<Rightarrow> string list \<Rightarrow>
     ('doc, 'h) collab_manager \<Rightarrow> ('doc, 'h) collab_manager" where
  "send_partial E cfg fs conn raw = fold (\<lambda>c m. snd (apply_update E cfg fs conn raw False (b64_encode E c) m))"

lemma send_partial_more:
  assumes "subscribed_session cfg fs conn raw m = Inr (key, sid)"
    and "map_of ps (conn, key) = None" and "\<And>x. b64_decode E (b64_encode E x) = Some x"
    and "length buf + length (concat cs) \<le> file_size_cap cfg"
  shows "send_partial E cfg fs conn raw cs (m\<lparr>pending_updates := ps @ [((conn, key), buf)]\<rparr>) =
    m\<lparr>pending_updates := ps @ [((conn, key), buf @ concat cs)]\<rparr>"
  using assms(4)
proof (induction cs arbitrary: buf)
  case (Cons c cs)
  have "snd (apply_update E cfg fs conn raw False (b64_encode E c) (m\<lparr>pending_updates := ps @ [((conn, key), buf)]\<rparr>)) =
      m\<lparr>pending_updates := ps @ [((conn, key), buf @ c)]\<rparr>"
    using Cons.prems assms(1-3) alist_fresh [OF assms(2)] by (simp add: apply_update_def collect_chunk_def)
  with Cons.IH [of "buf @ c"] Cons.prems show ?case by (simp add: send_partial_def)
qed (simp add: send_partial_def)

lemma send_partial_spec:
  assumes "subscribed_session cfg fs conn raw m = Inr (key, sid)"
    and "map_of (pending_updates m) (conn, key) = None" and "\<And>x. b64_decode E (b64_encode E x) = Some x"
    and "length (concat cs) \<le> file_size_cap cfg" and "cs \<noteq> []"
  shows "send_partial E cfg fs conn raw cs m =
    m\<lparr>pending_updates := pending_updates m @ [((conn, key), concat cs)]\<rparr>"
proof (cases cs)
  case (Cons c cs')
  have "snd (apply_update E cfg fs conn raw False (b64_encode E c) m) =
      m\<lparr>pending_updates := pending_updates m @ [((conn, key), c)]\<rparr>"
    using assms Cons alist_fresh [OF assms(2)] by (simp add: apply_update_def collect_chunk_def)
  with Cons send_partial_more [OF assms(1,2,3), where buf = c and cs = cs'] assms(4)
  show ?thesis by (simp add: send_partial_def)
qed (simp add: assms(5))


section \<open>Departures\<close>

text \<open>
  C27. Compaction loses edits. When an update makes the session rebuild its document (the text grew
  over the cap, or more than eight times the cap of updates were applied), the code records the
  digest of the edited text as that of the disk. The next tick that reads the file takes the session
  for unmodified and puts the content of the file in place of the edited text, without a conflict
  and although nothing was ever written.
\<close>

theorem compaction_loses_edits:
  assumes "text_laws E" and "update_doc E (file_size_cap cfg) update decoded s = (Inr True, s')"
    and "store m ! sid = s'" and "sid < length (store m)" and "lock_free sid m" and "\<not> poisoned s"
    and "tick_look (file_size_cap cfg) meta io (last_mtime s') = Content mtime on_disk"
    and "content_hash E on_disk \<noteq> content_hash E (session_text E s')"
  shows "dirty s' \<and> disk_hash (cs_doc s') = content_hash E (session_text E s') \<and>
    (let t = store (reconcile_tick E cfg meta io sid m) ! sid
     in session_text E t = on_disk \<and> \<not> dirty t \<and> conflict t = None)"
proof -
  have "\<exists>c. s' = s\<lparr>dirty := True, cs_doc := collab_doc_new E c\<rparr>"
    using assms(2,6)
    by (auto simp: update_doc_def Let_def split: prod.splits bool.splits option.splits if_splits)
  then obtain c where s': "s' = s\<lparr>dirty := True, cs_doc := collab_doc_new E c\<rparr>" by blast
  note new = new_doc_saved [OF assms(1)]
  have txt_c: "session_text E s' = c" and disk: "disk_hash (cs_doc s') = content_hash E c" and np: "\<not> poisoned s'"
    using assms(1,6) unfolding s' by (simp_all add: session_text_def collab_doc_new_def text_laws_def)
  have heal: "heal_dirty E s' = s'\<lparr>dirty := False\<rparr>"
    using txt_c disk by (simp add: heal_dirty_def s')
  have "store (reconcile_tick E cfg meta io sid m) ! sid =
      s'\<lparr>dirty := False, last_mtime := mtime, reported_unreadable := False,
         cs_doc := collab_doc_new E on_disk, conflict := None\<rparr>"
    using assms(3,4,5,7,8) np txt_c disk
    by (simp add: reconcile_tick_def heal reconcile_content_def Let_def)
  with txt_c disk new show ?thesis by (simp add: Let_def s')
qed

lemma leak_stays:
  assumes "map_of (sessions m) key = Some sid" and "key \<notin> set (pending_teardowns m)"
    and "\<And>fs fs' io perms conn p ev args. a \<noteq> Message fs fs' io perms conn p ev args" and "\<And>conn. a \<noteq> Disconnect conn"
  shows "map_of (sessions (run_action E cfg a m)) key = Some sid \<and> key \<notin> set (pending_teardowns (run_action E cfg a m))"
proof (cases a)
  case (Teardown k)
  with assms(1,2) show ?thesis by (auto simp: run_teardown_def Let_def AList.delete_conv' split: option.splits)
next
  case (Tick i meta io)
  then show ?thesis using assms(1,2) registry_tick [of E cfg meta io i m] by (auto simp: registry_def)
next
  case (SaveAcquire i)
  then show ?thesis
    using assms(1,2) registry_save_acquire [of E i m] registry_reply [of _ _ "save_acquire E i m"] by (auto simp: registry_def)
next
  case (SaveFinish i io)
  then show ?thesis
    using assms(1,2) registry_save_finish [of E cfg io i m] registry_reply [of _ _ "save_finish E cfg io i m"]
    by (auto simp: registry_def)
next
  case (ReloadRun i io)
  then show ?thesis
    using assms(1,2) registry_reload_run [of E cfg io i m] registry_reply [of _ _ "reload_run E cfg io i m"]
    by (auto simp: registry_def)
qed (use assms(3,4) in auto)

fun background :: "collab_action \<Rightarrow> bool" where
  "background (Message fs fs' io perms conn p ev args) \<longleftrightarrow> False"
| "background (Disconnect conn) \<longleftrightarrow> False"
| "background _ \<longleftrightarrow> True"

text \<open>
  A failed subscription leaks a session. The teardown of a session in its grace period is
  cancelled before the file is read again; if reading fails, the subscriber gets an error, and the
  session stays registered without participants and without a teardown: no tick, no save and no
  teardown removes it any more, while it counts against the limit of sessions.
\<close>

lemma failed_subscribe_leaks_session:
  assumes "resolve cfg fs raw = Inr (path, key)" and "map_of (sessions m) key = Some sid"
    and "participants (store m ! sid) = []" and "\<not> dirty (store m ! sid)"
    and "read_content io (file_size_cap cfg) = Inl e" and "map_of (connections m) conn = None"
    and "list_all background acts"
  shows "case subscribe E cfg fs io conn p raw m of (r, m') \<Rightarrow> r = Inl e \<and> key \<notin> set (pending_teardowns m') \<and>
    participants (store m' ! sid) = [] \<and> map_of (sessions (fold (run_action E cfg) acts m')) key = Some sid"
proof -
  let ?m = "m\<lparr>pending_teardowns := removeAll key (pending_teardowns m)\<rparr>"
  have sub: "subscribe E cfg fs io conn p raw m = (Inl e, ?m)"
    using assms(1-6) by (simp add: subscribe_def open_session_def Let_def)
  have "map_of (sessions m') key = Some sid \<Longrightarrow> key \<notin> set (pending_teardowns m') \<Longrightarrow>
      map_of (sessions (fold (run_action E cfg) acts m')) key = Some sid" for m'
    using assms(7)
  proof (induction acts arbitrary: m')
    case (Cons a acts)
    then have "background a" by simp
    with leak_stays [of m' key sid a E cfg] Cons.prems(1,2) Cons.IH [of "run_action E cfg a m'"] Cons.prems(3)
    show ?case by (cases a) auto
  qed simp
  from this [of ?m] sub assms(2,3) show ?thesis by simp
qed

text \<open>
  A text that outgrows the cap inside a multi-byte character makes \<^verbatim>\<open>truncate\<close> panic under the
  document lock: from then on every update of the session panics.
\<close>

lemma overflow_in_character_poisons:
  assumes "\<not> poisoned s" and "integrate E decoded (cd_doc (cs_doc s)) = (d, True)"
    and "size_cap < text_len E d" and "size_cap < length (doc_text E d)" and "0 < size_cap"
    and "is_cont (of_char (doc_text E d ! size_cap))"
  shows "fst (update_doc E size_cap update decoded s) = Inl Panicked \<and>
    fst (update_doc E size_cap update' decoded' (snd (update_doc E size_cap update decoded s))) = Inl Panicked"
  using assms by (simp add: update_doc_def truncate_str_def is_char_boundary_def Let_def)

section \<open>Witnesses\<close>

definition plain_deps :: "(string, string, string) collab_deps" where
  "plain_deps = \<lparr>doc_with = (\<lambda>c. c), decode_update = Some, integrate = (\<lambda>u d. (u, True)), doc_text = (\<lambda>d. d),
     text_len = length, encode_state = (\<lambda>d. d), content_hash = (\<lambda>c. c), to_hex = (\<lambda>h. h),
     b64_encode = (\<lambda>x. x), b64_decode = Some\<rparr>"

definition sample_cfg :: collab_config where
  "sample_cfg = \<lparr>collab_enabled = True, file_size_cap = 20, max_sessions_per_server = 2,
     max_sessions_per_connection = 2, history_enabled = False, history_size_cap = 0\<rparr>"

definition sample_fs :: resolve_fs where
  "sample_fs = \<lparr>resolve_writable_fs = (\<lambda>p. (p, True)), is_ignored = (\<lambda>_. False), canonicalize = Some, base_path = []\<rparr>"

definition sample_read :: "string \<Rightarrow> read_io" where
  "sample_read c = \<lparr>ri_meta = Some \<lparr>fm_is_file = True, fm_size = length c, fm_modified = None\<rparr>,
     ri_open = Some (length c, Some c)\<rparr>"

definition sample_message :: "collab_event \<Rightarrow> string list \<Rightarrow> collab_action" where
  "sample_message ev args = Message sample_fs sample_fs (sample_read ''a'') [FileUpdate, FileReadContent] 7
     \<lparr>user_uuid = 1, user_name = ''u'', user_avatar = None\<rparr> ev (''f'' # args)"

definition sample_session :: "string \<Rightarrow> nat \<Rightarrow> bool \<Rightarrow> (string, string) collab_session" where
  "sample_session txt n d = \<lparr>cs_path = ''f'', abs_path = [Normal ''f''],
     cs_doc = \<lparr>cd_doc = txt, applied_update_bytes = n, disk_hash = ''a''\<rparr>, poisoned = False, dirty = d,
     conflict = None, participants = [(7, \<lparr>user_uuid = 1, user_name = ''u'', user_avatar = None\<rparr>)],
     last_mtime = None, reported_unreadable = False\<rparr>"

abbreviation sample_run :: "collab_action list \<Rightarrow> (string, string) collab_manager" where
  "sample_run acts \<equiv> fold (run_action plain_deps sample_cfg) acts collab_manager_new"

lemma plain_text_laws: "text_laws plain_deps"
  by (simp add: text_laws_def plain_deps_def)

lemma sample_resolve: "resolve sample_cfg sample_fs ''f'' = Inr ([Normal ''f''], ''f'')"
  by code_simp

lemma sample_read_ok: "read_content (sample_read ''a'') 20 = Inr ''a''"
  by code_simp

lemma sample_sel [simp]:
  "file_size_cap sample_cfg = 20" "max_sessions_per_server sample_cfg = 2" "max_sessions_per_connection sample_cfg = 2"
  "history_enabled sample_cfg = False" "history_size_cap sample_cfg = 0"
  by (simp_all add: sample_cfg_def)

lemma plain_sel [simp]:
  "doc_with plain_deps c = c" "decode_update plain_deps c = Some c" "integrate plain_deps c d = (c, True)"
  "doc_text plain_deps c = c" "text_len plain_deps c = length c" "encode_state plain_deps c = c"
  "content_hash plain_deps c = c" "to_hex plain_deps c = c" "b64_encode plain_deps c = c" "b64_decode plain_deps c = Some c"
  by (simp_all add: plain_deps_def)

lemmas sample_defs = sample_message_def handle_collab_def arg_def required_permission_def sample_resolve

lemma sample_subscribed:
  "\<exists>ob. sample_run [sample_message EvSubscribe []] = \<lparr>store = [sample_session ''a'' 0 False], sessions = [(''f'', 0)],
     connections = [(7, [''f''])], pending_updates = [], pending_teardowns = [], lock_tasks = [],
     outbox = ob, effects = []\<rparr>"
  by (simp add: sample_defs sample_read_ok subscribe_def open_session_def join_session_def collab_manager_new_def Let_def
      put_session_def subscriptions_def broadcast_def sample_session_def collab_doc_new_def)

lemma sample_updated:
  "\<exists>ob. sample_run [sample_message EvSubscribe [], sample_message EvUpdate [''1'', ''b'']] =
     \<lparr>store = [sample_session ''b'' 1 True], sessions = [(''f'', 0)], connections = [(7, [''f''])],
      pending_updates = [], pending_teardowns = [], lock_tasks = [], outbox = ob, effects = []\<rparr>"
proof -
  obtain ob where "run_action plain_deps sample_cfg (sample_message EvSubscribe []) collab_manager_new =
     \<lparr>store = [sample_session ''a'' 0 False], sessions = [(''f'', 0)], connections = [(7, [''f''])],
      pending_updates = [], pending_teardowns = [], lock_tasks = [], outbox = ob, effects = []\<rparr>"
    using sample_subscribed by auto
  then show ?thesis
    by (simp add: sample_defs apply_update_def subscribed_session_def subscriptions_def collect_chunk_def update_doc_def
        saturating_mul_def wrapping_add_def u64_max_def Let_def put_session_def broadcast_def sample_session_def)
qed

definition sample_task :: "(string \<times> string) option \<Rightarrow> string lock_task" where
  "sample_task snap = \<lparr>lt_conn = 7, lt_raw = ''f'', lt_key = ''f'', lt_sid = 0,
     lt_op = SaveOp 1 [Normal ''f''] [] False None, lt_snapshot = snap\<rparr>"

definition sample_save :: save_io where
  "sample_save = \<lparr>si_meta = Some \<lparr>fm_is_file = True, fm_size = 1, fm_modified = None\<rparr>, si_open = Some (1, Some ''a''),
     si_alloc = True, si_write = Written, si_record = None\<rparr>"

lemma sample_saving:
  "\<exists>ob. sample_run [sample_message EvSubscribe [], sample_message EvUpdate [''1'', ''b''], sample_message EvSave [], SaveAcquire 0] =
     \<lparr>store = [sample_session ''b'' 1 True], sessions = [(''f'', 0)], connections = [(7, [''f''])], pending_updates = [],
      pending_teardowns = [], lock_tasks = [sample_task (Some (''b'', ''a''))], outbox = ob, effects = []\<rparr>"
proof -
  have "path_parent ''f'' = Some []" by code_simp
  moreover obtain ob where "sample_run [sample_message EvSubscribe [], sample_message EvUpdate [''1'', ''b'']] =
     \<lparr>store = [sample_session ''b'' 1 True], sessions = [(''f'', 0)], connections = [(7, [''f''])],
      pending_updates = [], pending_teardowns = [], lock_tasks = [], outbox = ob, effects = []\<rparr>"
    using sample_updated by auto
  ultimately show ?thesis
    by (simp add: sample_defs save_enter_def subscribed_session_def subscriptions_def save_acquire_def lock_free_def
        Let_def sample_task_def sample_session_def session_text_def)
qed





theorem compaction_loses_edits_witness:
  "\<exists>s'. update_doc plain_deps 20 ''c'' ''c'' (sample_session ''b'' 160 True) = (Inr True, s') \<and> session_text plain_deps s' = ''c'' \<and>
     session_text plain_deps (store (reconcile_tick plain_deps sample_cfg
       (Some \<lparr>fm_is_file = True, fm_size = 1, fm_modified = None\<rparr>) (sample_read ''a'') 0 (collab_manager_new\<lparr>store := [s']\<rparr>)) ! 0) = ''a''"
proof -
  let ?s = "sample_session ''b'' 160 True"
  let ?s' = "?s\<lparr>dirty := True, cs_doc := collab_doc_new plain_deps ''c''\<rparr>"
  let ?meta = "Some \<lparr>fm_is_file = True, fm_size = 1, fm_modified = None\<rparr>"
  have upd: "update_doc plain_deps (file_size_cap sample_cfg) ''c'' ''c'' ?s = (Inr True, ?s')"
    by (simp add: update_doc_def sample_session_def saturating_mul_def wrapping_add_def u64_max_def Let_def)
  have txt_c: "session_text plain_deps ?s' = ''c''" by (simp add: session_text_def collab_doc_new_def)
  have look: "tick_look (file_size_cap sample_cfg) ?meta (sample_read ''a'') (last_mtime ?s') = Content None ''a''"
    by (simp add: tick_look_def sample_read_ok)
  from compaction_loses_edits [OF plain_text_laws upd _ _ _ _ look, of "collab_manager_new\<lparr>store := [?s']\<rparr>" 0] upd txt_c
  show ?thesis by (simp add: lock_free_def collab_manager_new_def Let_def sample_session_def)
qed

end
