(* ===== verification/Lines.thy ===== *)
theory Lines
  imports Bytes "HOL-Library.Sublist"
begin

text \<open>
  Console output and log files by lines: the line buffer of a container's output
  (\<^verbatim>\<open>io/line_buffer.rs\<close>), the loop that drains it and its rate limit
  (\<^verbatim>\<open>server/executor/docker/mod.rs\<close>), and the last lines of a log (\<^verbatim>\<open>io/tail.rs\<close>), once by seeking
  backwards in a file and once over a stream.
\<close>

section \<open>Line buffer\<close>

definition newline :: byte where
  "newline = 10"

definition is_ascii_whitespace :: "byte \<Rightarrow> bool" where
  "is_ascii_whitespace b \<longleftrightarrow> b \<in> {9, 10, 12, 13, 32}"

definition trim_ascii :: "byte list \<Rightarrow> byte list" where
  "trim_ascii bs = rev (dropWhile is_ascii_whitespace (rev (dropWhile is_ascii_whitespace bs)))"

fun position :: "('a \<Rightarrow> bool) \<Rightarrow> 'a list \<Rightarrow> nat option" where
  "position P [] = None"
| "position P (x # xs) = (if P x then Some 0 else map_option Suc (position P xs))"

definition buffer_line_max :: nat where
  "buffer_line_max = 5120"

definition compact_threshold :: nat where
  "compact_threshold = 10240"

record line_buffer =
  lb_buffer :: "byte list"
  line_start :: nat

definition lb_new :: line_buffer where
  "lb_new = \<lparr>lb_buffer = [], line_start = 0\<rparr>"

definition lb_extend :: "byte list \<Rightarrow> line_buffer \<Rightarrow> line_buffer" where
  "lb_extend data lb = lb\<lparr>lb_buffer := lb_buffer lb @ data\<rparr>"

definition next_line :: "line_buffer \<Rightarrow> byte list option \<times> line_buffer" where
  "next_line lb =
     (case get_from (lb_buffer lb) (line_start lb) of
        None \<Rightarrow> (None, lb)
      | Some rest \<Rightarrow>
          let available = length (lb_buffer lb) - line_start lb;
              emit = (\<lambda>len advance.
                (map_option trim_ascii (get_range (lb_buffer lb) (line_start lb) (line_start lb + len)),
                 lb\<lparr>line_start := line_start lb + advance\<rparr>))
          in case position (\<lambda>b. b = newline) rest of
               Some pos \<Rightarrow>
                 if pos \<le> buffer_line_max then emit pos (pos + 1) else emit buffer_line_max buffer_line_max
             | None \<Rightarrow>
                 if buffer_line_max < available then emit buffer_line_max buffer_line_max else (None, lb))"

definition lb_compact :: "line_buffer \<Rightarrow> line_buffer" where
  "lb_compact lb =
     (if compact_threshold < line_start lb \<and> length (lb_buffer lb) div 2 < line_start lb
      then \<lparr>lb_buffer = drop (line_start lb) (lb_buffer lb), line_start = 0\<rparr> else lb)"

definition lb_flush :: "line_buffer \<Rightarrow> byte list option" where
  "lb_flush lb =
     (case get_from (lb_buffer lb) (line_start lb) of
        None \<Rightarrow> None
      | Some rest \<Rightarrow> if rest = [] then None else Some (trim_ascii rest))"

lemma position_Some: "position P xs = Some i \<Longrightarrow> i < length xs \<and> P (xs ! i) \<and> (\<forall>j < i. \<not> P (xs ! j))"
  by (induction P xs arbitrary: i rule: position.induct) (auto split: if_splits simp: nth_Cons less_Suc_eq_0_disj)

lemma next_line_Some:
  assumes "next_line lb = (Some line, lb')"
  shows "lb_buffer lb' = lb_buffer lb" and "line_start lb < line_start lb'" and "line_start lb' \<le> length (lb_buffer lb)"
  using assms
  by (auto simp: next_line_def Let_def get_from_def get_range_def buffer_line_max_def split: option.splits if_splits
      dest!: position_Some)

lemma next_line_less:
  "next_line lb = (Some line, lb') \<Longrightarrow>
   length (lb_buffer lb') - line_start lb' < length (lb_buffer lb) - line_start lb"
  using next_line_Some [of lb line lb'] by simp

text \<open>The loop of the output task: every complete line is emitted, then the buffer is compacted.\<close>

function drain :: "line_buffer \<Rightarrow> byte list list \<times> line_buffer" where
  "drain lb =
     (case next_line lb of
        (None, lb') \<Rightarrow> ([], lb')
      | (Some line, lb') \<Rightarrow> (case drain lb' of (ls, lb'') \<Rightarrow> (line # ls, lb'')))"
  by auto
termination
  by (relation "measure (\<lambda>lb. length (lb_buffer lb) - line_start lb)") (auto dest: next_line_less [OF sym])

declare drain.simps [simp del]

fun output_loop :: "('e + byte list) list \<Rightarrow> line_buffer \<Rightarrow> byte list list \<times> line_buffer" where
  "output_loop [] lb = ([], lb)"
| "output_loop (Inl e # rs) lb = ([], lb)"
| "output_loop (Inr data # rs) lb =
     (case drain (lb_extend data lb) of
        (ls, lb1) \<Rightarrow> (case output_loop rs (lb_compact lb1) of (ls', lb2) \<Rightarrow> (ls @ ls', lb2)))"

definition output_lines :: "('e + byte list) list \<Rightarrow> byte list list" where
  "output_lines rs =
     (case output_loop rs lb_new of
        (ls, lb) \<Rightarrow> ls @ (case lb_flush lb of None \<Rightarrow> [] | Some line \<Rightarrow> [line]))"

subsection \<open>Lines of the whole output\<close>

text \<open>
  The reference: lines end at a newline, or after the maximal length if there is none before it.
  The second component is the unfinished line at the end.
\<close>

function lines_of :: "byte list \<Rightarrow> byte list list \<times> byte list" where
  "lines_of bs =
     (case position (\<lambda>b. b = newline) (take (Suc buffer_line_max) bs) of
        Some pos \<Rightarrow> (case lines_of (drop (Suc pos) bs) of (ls, r) \<Rightarrow> (trim_ascii (take pos bs) # ls, r))
      | None \<Rightarrow>
          if buffer_line_max < length bs
          then (case lines_of (drop buffer_line_max bs) of (ls, r) \<Rightarrow> (trim_ascii (take buffer_line_max bs) # ls, r))
          else ([], bs))"
  by auto
termination
  by (relation "measure length") (auto simp: buffer_line_max_def dest!: position_Some)

declare lines_of.simps [simp del]

definition rest_of :: "line_buffer \<Rightarrow> byte list" where
  "rest_of lb = drop (line_start lb) (lb_buffer lb)"

lemma position_take:
  "position P (take n xs) = (case position P xs of Some i \<Rightarrow> if i < n then Some i else None | None \<Rightarrow> None)"
proof (induction xs arbitrary: n)
  case (Cons x xs)
  then show ?case by (cases n) (auto split: option.splits)
qed simp

lemma lines_of_newline:
  assumes "position (\<lambda>b. b = newline) bs = Some pos" and "pos \<le> buffer_line_max"
  shows "lines_of bs = (trim_ascii (take pos bs) # fst (lines_of (drop (Suc pos) bs)), snd (lines_of (drop (Suc pos) bs)))"
  using assms by (subst lines_of.simps) (simp add: position_take case_prod_beta)

lemma lines_of_long:
  assumes "\<And>pos. position (\<lambda>b. b = newline) bs = Some pos \<Longrightarrow> buffer_line_max < pos" and "buffer_line_max < length bs"
  shows "lines_of bs = (trim_ascii (take buffer_line_max bs) # fst (lines_of (drop buffer_line_max bs)),
    snd (lines_of (drop buffer_line_max bs)))"
  using assms by (subst lines_of.simps) (force simp: position_take case_prod_beta split: option.splits)

lemma lines_of_short:
  assumes "position (\<lambda>b. b = newline) bs = None" and "length bs \<le> buffer_line_max"
  shows "lines_of bs = ([], bs)"
  using assms by (subst lines_of.simps) (simp add: position_take)

lemma next_line_cases:
  assumes "line_start lb \<le> length (lb_buffer lb)"
  obtains (short) "next_line lb = (None, lb)" "lines_of (rest_of lb) = ([], rest_of lb)"
    | (line) n l where "next_line lb = (Some l, lb\<lparr>line_start := line_start lb + n\<rparr>)"
        "lines_of (rest_of lb) = (l # fst (lines_of (drop n (rest_of lb))), snd (lines_of (drop n (rest_of lb))))"
        "n \<le> length (rest_of lb)"
proof -
  let ?r = "rest_of lb"
  have get: "get_from (lb_buffer lb) (line_start lb) = Some ?r" using assms by (simp add: get_from_def rest_of_def)
  have len: "length (lb_buffer lb) - line_start lb = length ?r" by (simp add: rest_of_def)
  have sub: "get_range (lb_buffer lb) (line_start lb) (line_start lb + n) = Some (take n ?r)" if "n \<le> length ?r" for n
    using that assms by (simp add: get_range_def rest_of_def)
  show ?thesis
  proof (cases "position (\<lambda>b. b = newline) ?r")
    case None
    then show ?thesis
      using line [of "trim_ascii (take buffer_line_max ?r)" buffer_line_max] short lines_of_long [of ?r] lines_of_short [of ?r]
      by (cases "buffer_line_max < length ?r") (simp_all add: next_line_def get len sub)
  next
    case (Some pos)
    then have "pos < length ?r" using position_Some by blast
    with Some show ?thesis
      using line [of "trim_ascii (take buffer_line_max ?r)" buffer_line_max] line [of "trim_ascii (take pos ?r)" "pos + 1"]
        lines_of_long [of ?r] lines_of_newline [of ?r pos]
      by (cases "pos \<le> buffer_line_max") (simp_all add: next_line_def get len sub)
  qed
qed

lemma drain_spec:
  assumes "line_start lb \<le> length (lb_buffer lb)"
  shows "\<exists>lb'. drain lb = (fst (lines_of (rest_of lb)), lb') \<and> rest_of lb' = snd (lines_of (rest_of lb)) \<and>
    lb_buffer lb' = lb_buffer lb \<and> line_start lb' \<le> length (lb_buffer lb')"
  using assms
proof (induction lb rule: drain.induct)
  case (1 lb)
  from "1.prems" show ?case
  proof (cases rule: next_line_cases)
    case short
    with "1.prems" show ?thesis by (simp add: drain.simps)
  next
    case (line n l)
    let ?lb = "lb\<lparr>line_start := line_start lb + n\<rparr>"
    have "rest_of ?lb = drop n (rest_of lb)" by (simp add: rest_of_def add.commute)
    moreover have "line_start ?lb \<le> length (lb_buffer ?lb)" using line(3) "1.prems" by (simp add: rest_of_def)
    ultimately show ?thesis using "1.IH" [OF line(1) [symmetric] refl] line by (auto simp: drain.simps [of lb])
  qed
qed

lemma rest_of_short: "length (snd (lines_of bs)) \<le> buffer_line_max"
proof (induction bs rule: lines_of.induct)
  case (1 bs)
  then show ?case by (subst lines_of.simps) (auto split: option.splits prod.splits)
qed

lemma position_append:
  "position P (xs @ ys) = (case position P xs of Some i \<Rightarrow> Some i | None \<Rightarrow> map_option (\<lambda>i. length xs + i) (position P ys))"
  by (induction xs) (cases "position P ys"; auto split: option.splits)+

lemma lines_of_append:
  "lines_of (a @ b) = (fst (lines_of a) @ fst (lines_of (snd (lines_of a) @ b)), snd (lines_of (snd (lines_of a) @ b)))"
proof (induction a rule: lines_of.induct)
  case (1 a)
  let ?nl = "\<lambda>b. b = newline"
  consider (line) pos where "position ?nl a = Some pos" "pos \<le> buffer_line_max"
    | (long) "\<And>pos. position ?nl a = Some pos \<Longrightarrow> buffer_line_max < pos" "buffer_line_max < length a"
    | (short) "position ?nl a = None" "length a \<le> buffer_line_max"
    using position_Some [of ?nl a] by (cases "position ?nl a") force+
  then show ?case
  proof cases
    case line
    have p: "pos < length a" using line(1) position_Some by blast
    have ab: "lines_of (a @ b) = (trim_ascii (take pos a) # fst (lines_of (drop (Suc pos) a @ b)), snd (lines_of (drop (Suc pos) a @ b)))"
      using line p lines_of_newline [of "a @ b" pos] by (simp add: position_append)
    have "position ?nl (take (Suc buffer_line_max) a) = Some pos" using line by (simp add: position_take)
    from "1.IH"(2) [OF this] have "lines_of (drop (Suc pos) a @ b) =
        (fst (lines_of (drop (Suc pos) a)) @ fst (lines_of (snd (lines_of (drop (Suc pos) a)) @ b)),
         snd (lines_of (snd (lines_of (drop (Suc pos) a)) @ b)))" .
    with ab lines_of_newline [OF line] show ?thesis by simp
  next
    case long
    have none: "position ?nl (take (Suc buffer_line_max) a) = None"
      using long(1) by (force simp: position_take split: option.splits)
    have "buffer_line_max < pos" if "position ?nl (a @ b) = Some pos" for pos
      using that long by (auto simp: position_append split: option.splits)
    then have ab: "lines_of (a @ b) = (trim_ascii (take buffer_line_max a) # fst (lines_of (drop buffer_line_max a @ b)),
        snd (lines_of (drop buffer_line_max a @ b)))"
      using long(2) lines_of_long [of "a @ b"] by simp
    from "1.IH"(1) [OF none long(2)] ab lines_of_long [OF long] show ?thesis by simp
  next
    case short
    then show ?thesis by (simp add: lines_of_short)
  qed
qed

lemma rest_of_compact: "line_start lb \<le> length (lb_buffer lb) \<Longrightarrow> rest_of (lb_compact lb) = rest_of lb"
  by (simp add: lb_compact_def rest_of_def)

definition buffer_inv :: "line_buffer \<Rightarrow> bool" where
  "buffer_inv lb \<longleftrightarrow> line_start lb \<le> length (lb_buffer lb) \<and> length (rest_of lb) \<le> buffer_line_max \<and>
     length (lb_buffer lb) \<le> compact_threshold + buffer_line_max"

fun received :: "('e + byte list) list \<Rightarrow> byte list" where
  "received (Inr data # rs) = data @ received rs"
| "received _ = []"

lemma compact_inv:
  assumes "line_start lb \<le> length (lb_buffer lb)" and "length (rest_of lb) \<le> buffer_line_max"
  shows "buffer_inv (lb_compact lb)"
  using assms by (auto simp: buffer_inv_def lb_compact_def rest_of_def compact_threshold_def buffer_line_max_def)

lemma output_loop_spec:
  assumes "buffer_inv lb" and "lines_of (rest_of lb) = ([], rest_of lb)"
  shows "\<exists>lb'. output_loop rs lb = (fst (lines_of (rest_of lb @ received rs)), lb') \<and>
      rest_of lb' = snd (lines_of (rest_of lb @ received rs)) \<and> buffer_inv lb'"
  using assms
proof (induction rs lb rule: output_loop.induct)
  case (3 data rs lb)
  let ?e = "lb_extend data lb" and ?r = "rest_of lb"
  have e: "line_start ?e \<le> length (lb_buffer ?e)" "rest_of ?e = ?r @ data"
    using "3.prems"(1) by (simp_all add: lb_extend_def buffer_inv_def rest_of_def)
  obtain lb1 where lb1: "drain ?e = (fst (lines_of (?r @ data)), lb1)" "rest_of lb1 = snd (lines_of (?r @ data))"
    "line_start lb1 \<le> length (lb_buffer lb1)"
    using drain_spec [OF e(1)] e(2) by auto
  have inv: "buffer_inv (lb_compact lb1)" using lb1 rest_of_short by (intro compact_inv) simp_all
  have rest: "rest_of (lb_compact lb1) = snd (lines_of (?r @ data))" using lb1(2,3) rest_of_compact by simp
  have idem: "lines_of (snd (lines_of bs)) = ([], snd (lines_of bs))" for bs
    using lines_of_append [of bs "[]"] by (simp add: prod_eq_iff)
  from "3.IH" [OF lb1(1) [symmetric] inv] rest idem [of "?r @ data"]
  obtain lb2 where "output_loop rs (lb_compact lb1) = (fst (lines_of (snd (lines_of (?r @ data)) @ received rs)), lb2)"
    "rest_of lb2 = snd (lines_of (snd (lines_of (?r @ data)) @ received rs))" "buffer_inv lb2"
    by auto
  with lb1(1) show ?case using lines_of_append [of "?r @ data" "received rs"] by simp
qed auto

lemma buffer_inv_new: "buffer_inv lb_new" "rest_of lb_new = []" "lines_of [] = ([], [])"
  by (simp_all add: buffer_inv_def lb_new_def rest_of_def lines_of_short)

text \<open>However the output is cut, the line buffer never holds more than the threshold and one line.\<close>

lemma output_buffer_bounded:
  "length (lb_buffer (snd (output_loop rs lb_new))) \<le> compact_threshold + buffer_line_max"
  using output_loop_spec [OF buffer_inv_new(1), of rs] buffer_inv_new by (auto simp: buffer_inv_def)

text \<open>
  C28. Console lines do not depend on how the output arrives: for every series of reads, up to the
  first failed one, the lines emitted are those of the concatenated output, cut at newlines or at
  the maximal length, each trimmed, with the unfinished line at the end if there is one; the buffer
  stays bounded all the while.
\<close>

theorem output_independent_of_reads:
  "output_lines rs = (case lines_of (received rs) of (ls, r) \<Rightarrow> ls @ (if r = [] then [] else [trim_ascii r])) \<and>
   length (lb_buffer (snd (output_loop rs lb_new))) \<le> compact_threshold + buffer_line_max"
proof -
  obtain lb' where lb': "output_loop rs lb_new = (fst (lines_of (received rs)), lb')"
    "rest_of lb' = snd (lines_of (received rs))" "buffer_inv lb'"
    using output_loop_spec [OF buffer_inv_new(1), of rs] buffer_inv_new by auto
  have "lb_flush lb' = (if rest_of lb' = [] then None else Some (trim_ascii (rest_of lb')))"
    using lb'(3) by (simp add: lb_flush_def get_from_def buffer_inv_def rest_of_def)
  with lb' output_buffer_bounded [of rs] show ?thesis by (simp add: output_lines_def case_prod_beta)
qed

section \<open>Rate limit of the console\<close>

record throttle =
  throttle_enabled :: bool
  throttle_lines :: nat
  line_reset_interval :: nat

record console_limit =
  ratelimit_counter :: nat
  ratelimit_start :: nat

text \<open>The counter and its start as a function of the current time; the answer lets the line pass.\<close>

definition allow_ratelimit :: "throttle \<Rightarrow> nat \<Rightarrow> console_limit \<Rightarrow> bool \<times> console_limit" where
  "allow_ratelimit cfg now r =
     (let r1 = r\<lparr>ratelimit_counter := ratelimit_counter r + 1\<rparr> in
      if throttle_enabled cfg \<and> 0 < line_reset_interval cfg \<and> throttle_lines cfg \<le> ratelimit_counter r1 then
        if now - ratelimit_start r < line_reset_interval cfg then (False, r1)
        else (True, r1\<lparr>ratelimit_counter := 0, ratelimit_start := now\<rparr>)
      else (True, r1))"

fun passed :: "throttle \<Rightarrow> nat list \<Rightarrow> console_limit \<Rightarrow> nat" where
  "passed cfg [] r = 0"
| "passed cfg (now # ts) r =
     (case allow_ratelimit cfg now r of (ok, r') \<Rightarrow> (if ok then 1 else 0) + passed cfg ts r')"

text \<open>Within one interval fewer lines pass than the configured number.\<close>

lemma ratelimit_bounded:
  assumes "throttle_enabled cfg" and "\<forall>t \<in> set ts. t - ratelimit_start r < line_reset_interval cfg"
  shows "passed cfg ts r \<le> throttle_lines cfg - 1 - ratelimit_counter r"
  using assms(2)
proof (induction ts arbitrary: r)
  case (Cons t ts)
  let ?r = "r\<lparr>ratelimit_counter := ratelimit_counter r + 1\<rparr>"
  have "passed cfg ts ?r \<le> throttle_lines cfg - 1 - ratelimit_counter ?r"
    using Cons.IH [of ?r] Cons.prems by simp
  then show ?case using Cons.prems assms(1) by (auto simp: allow_ratelimit_def Let_def)
qed simp

section \<open>The last lines of a file\<close>

definition tail_buffer_size :: nat where
  "tail_buffer_size = 32 * 1024"

definition tail_line_max :: nat where
  "tail_line_max = 10 * 1024"

text \<open>The bytes of one chunk from the back: either the start of the lines, or how many were found.\<close>

fun scan_chunk :: "byte list \<Rightarrow> nat \<Rightarrow> nat \<Rightarrow> nat \<Rightarrow> nat \<Rightarrow> nat \<Rightarrow> nat + nat" where
  "scan_chunk chunk current_pos file_size lines lines_found 0 = Inl lines_found"
| "scan_chunk chunk current_pos file_size lines lines_found (Suc i) =
     (if i < length chunk \<and> chunk ! i = newline then
        if current_pos + i = file_size - 1 then scan_chunk chunk current_pos file_size lines lines_found i
        else if lines_found + 1 = lines then Inr (current_pos + i + 1)
        else scan_chunk chunk current_pos file_size lines (lines_found + 1) i
      else scan_chunk chunk current_pos file_size lines lines_found i)"

function tail_loop :: "(nat \<Rightarrow> nat \<Rightarrow> 'e + byte list) \<Rightarrow> nat \<Rightarrow> nat \<Rightarrow> nat \<Rightarrow> nat \<Rightarrow> 'e + nat" where
  "tail_loop read_at file_size lines current_pos lines_found =
     (if current_pos = 0 then Inr 0
      else
        let read_size = min tail_buffer_size current_pos; pos = current_pos - read_size in
        case read_at pos read_size of
          Inl e \<Rightarrow> Inl e
        | Inr chunk \<Rightarrow>
            (case scan_chunk chunk pos file_size lines lines_found read_size of
               Inr start_pos \<Rightarrow> Inr start_pos
             | Inl found \<Rightarrow> tail_loop read_at file_size lines pos found))"
  by auto
termination
  by (relation "measure (\<lambda>(_, _, _, pos, _). pos)") (auto simp: tail_buffer_size_def)

declare tail_loop.simps [simp del]

text \<open>The position of the reader afterwards.\<close>

definition async_tail :: "(nat \<Rightarrow> nat \<Rightarrow> 'e + byte list) \<Rightarrow> nat \<Rightarrow> nat \<Rightarrow> 'e + nat" where
  "async_tail read_at file_size lines =
     (if lines = 0 then Inr file_size
      else if file_size = 0 then Inr file_size
      else tail_loop read_at file_size lines file_size 0)"

section \<open>The last lines of a stream\<close>

text \<open>
  A stream is the list of what its buffer is filled with, one after the other; consuming less than
  the whole buffer leaves the rest in front.
\<close>

fun capped_loop :: "('e + byte list) list \<Rightarrow> byte list \<Rightarrow> bool \<Rightarrow> 'e + byte list \<times> bool \<times> bool \<times> ('e + byte list) list" where
  "capped_loop [] line truncated = Inr (line, truncated, False, [])"
| "capped_loop (Inl e # rs) line truncated = Inl e"
| "capped_loop (Inr available # rs) line truncated =
     (if available = [] then Inr (line, truncated, False, Inr available # rs)
      else
        let nl = position (\<lambda>b. b = newline) available;
            consumed = (case nl of None \<Rightarrow> length available | Some i \<Rightarrow> i + 1);
            tk = min (tail_line_max - length line) consumed;
            line' = (if length line < tail_line_max then line @ take tk available else line);
            truncated' = (if length line < tail_line_max then truncated \<or> tk < consumed else True)
        in if nl \<noteq> None
           then Inr (line', truncated', True,
             (if consumed = length available then rs else Inr (drop consumed available) # rs))
           else capped_loop rs line' truncated')"

definition read_line_capped :: "('e + byte list) list \<Rightarrow> 'e + byte list option \<times> ('e + byte list) list" where
  "read_line_capped rs =
     (case capped_loop rs [] False of
        Inl e \<Rightarrow> Inl e
      | Inr (line, truncated, hit_newline, rs') \<Rightarrow>
          if line = [] then Inr (None, rs')
          else Inr (Some (if truncated \<and> hit_newline \<and> last line \<noteq> newline then line @ [newline] else line), rs'))"

fun stream_size :: "('e + byte list) list \<Rightarrow> nat" where
  "stream_size [] = 0"
| "stream_size (Inl e # rs) = stream_size rs"
| "stream_size (Inr bs # rs) = length bs + stream_size rs"

lemma capped_loop_size:
  "capped_loop rs line truncated = Inr (line', truncated', hit, rs') \<Longrightarrow>
   stream_size rs' \<le> stream_size rs \<and> (line' \<noteq> line \<longrightarrow> stream_size rs' < stream_size rs)"
proof (induction rs arbitrary: line truncated)
  case (Cons r rs)
  show ?case
  proof (cases r)
    case (Inl e)
    with Cons.prems show ?thesis by simp
  next
    case (Inr available)
    consider (empty) "available = []" | (none) "available \<noteq> []" "position (\<lambda>b. b = newline) available = None"
      | (some) i where "available \<noteq> []" "position (\<lambda>b. b = newline) available = Some i" by force
    then show ?thesis
    proof cases
      case empty
      with Cons.prems Inr show ?thesis by auto
    next
      case none
      with Cons.prems Inr obtain l t where "capped_loop rs l t = Inr (line', truncated', hit, rs')"
        by (auto simp: Let_def)
      from Cons.IH [OF this] none(1) Inr show ?thesis by (cases available) auto
    next
      case (some i)
      then have "i < length available" using position_Some by blast
      with some Cons.prems Inr show ?thesis by (auto simp: Let_def split: if_splits)
    qed
  qed
qed simp

lemma read_line_capped_size: "read_line_capped rs = Inr (Some line, rs') \<Longrightarrow> stream_size rs' < stream_size rs"
  using capped_loop_size [of rs "[]" False]
  by (auto simp: read_line_capped_def split: sum.splits prod.splits if_splits)

function stream_loop :: "nat \<Rightarrow> ('e + byte list) list \<Rightarrow> byte list list \<Rightarrow> 'e + byte list list" where
  "stream_loop lines rs buffer =
     (case read_line_capped rs of
        Inl e \<Rightarrow> Inl e
      | Inr (None, rs') \<Rightarrow> Inr buffer
      | Inr (Some line, rs') \<Rightarrow>
          stream_loop lines rs' ((if length buffer = lines then tl buffer else buffer) @ [line]))"
  by auto
termination
  by (relation "measure (\<lambda>(_, rs, _). stream_size rs)") (auto dest: read_line_capped_size)

declare stream_loop.simps [simp del]

definition async_tail_stream :: "nat \<Rightarrow> ('e + byte list) list \<Rightarrow> 'e + byte list" where
  "async_tail_stream lines rs =
     (if lines = 0 then Inr [] else case stream_loop lines rs [] of Inl e \<Rightarrow> Inl e | Inr buffer \<Rightarrow> Inr (concat buffer))"

section \<open>Both ways agree\<close>

text \<open>The lines of a file with their terminators; only the last one may lack it.\<close>

fun split_lines :: "byte list \<Rightarrow> byte list list" where
  "split_lines [] = []"
| "split_lines (b # bs) =
     (if b = newline then [b] # split_lines bs
      else case split_lines bs of [] \<Rightarrow> [[b]] | l # ls \<Rightarrow> (b # l) # ls)"

definition is_line :: "byte list \<Rightarrow> bool" where
  "is_line l \<longleftrightarrow> l \<noteq> [] \<and> newline \<notin> set (butlast l)"

definition last_lines :: "nat \<Rightarrow> 'a list \<Rightarrow> 'a list" where
  "last_lines n ls = drop (length ls - n) ls"

lemma concat_split_lines [simp]: "concat (split_lines bs) = bs"
  by (induction bs) (auto split: list.splits)

lemma split_lines_ne: "bs \<noteq> [] \<Longrightarrow> split_lines bs \<noteq> []"
  by (cases bs) (auto split: list.splits)

lemma split_lines_ok:
  "(\<forall>l \<in> set (split_lines bs). is_line l) \<and> (\<forall>l \<in> set (butlast (split_lines bs)). last l = newline)"
proof (induction bs)
  case (Cons b bs)
  then show ?case
    by (cases "split_lines bs") (auto simp: is_line_def split: if_splits)
qed simp

lemma split_lines_line:
  assumes "is_line l" and "last l = newline"
  shows "split_lines (l @ bs) = l # split_lines bs"
  using assms
proof (induction l)
  case (Cons b l)
  then show ?case by (cases "l = []") (auto simp: is_line_def split: if_splits)
qed (simp add: is_line_def)

lemma split_lines_last: "is_line l \<Longrightarrow> split_lines l = [l]"
proof (induction l)
  case (Cons b l)
  then show ?case by (cases "l = []") (auto simp: is_line_def split: if_splits)
qed (simp add: is_line_def)

subsection \<open>Seeking\<close>

abbreviation scan_file :: "byte list \<Rightarrow> nat \<Rightarrow> nat \<Rightarrow> nat \<Rightarrow> nat + nat" where
  "scan_file data lines \<equiv> scan_chunk data 0 (length data) lines"

lemma scan_file_chunk:
  assumes "pos + n \<le> length data" and "j \<le> n"
  shows "scan_file data lines found (pos + j) =
    (case scan_chunk (take n (drop pos data)) pos (length data) lines found j of
       Inr p \<Rightarrow> Inr p | Inl f \<Rightarrow> scan_file data lines f pos)"
  using assms(2)
proof (induction j arbitrary: found)
  case (Suc j)
  let ?c = "take n (drop pos data)"
  have at: "?c ! j = data ! (pos + j)" "pos + j < length data" "j < length ?c"
    using Suc.prems assms(1) by auto
  have IH: "scan_file data lines f (pos + j) =
      (case scan_chunk ?c pos (length data) lines f j of Inr p \<Rightarrow> Inr p | Inl f \<Rightarrow> scan_file data lines f pos)" for f
    using Suc by simp
  show ?case
    unfolding add_Suc_right scan_chunk.simps(2) add_0 using at IH
    by (cases "data ! (pos + j) = newline"; cases "pos + j = length data - 1"; cases "found + 1 = lines")
      (simp_all del: nth_take take_all_iff)
qed simp

lemma tail_loop_scan:
  assumes "\<And>p n. p + n \<le> length data \<Longrightarrow> read_at p n = Inr (take n (drop p data))" and "cur \<le> length data"
  shows "tail_loop read_at (length data) lines cur found =
    (case scan_file data lines found cur of Inr p \<Rightarrow> Inr p | Inl f \<Rightarrow> Inr 0)"
  using assms(2)
proof (induction cur arbitrary: found rule: less_induct)
  case (less cur)
  show ?case
  proof (cases "cur = 0")
    case False
    let ?n = "min tail_buffer_size cur"
    have pos: "cur - ?n < cur" "cur - ?n + ?n = cur" using False by (auto simp: tail_buffer_size_def)
    have scan: "scan_file data lines found cur =
        (case scan_chunk (take ?n (drop (cur - ?n) data)) (cur - ?n) (length data) lines found ?n of
           Inr p \<Rightarrow> Inr p | Inl f \<Rightarrow> scan_file data lines f (cur - ?n))"
      using scan_file_chunk [of "cur - ?n" ?n data ?n lines found] less.prems pos(2) by simp
    have "read_at (cur - ?n) ?n = Inr (take ?n (drop (cur - ?n) data))" using assms(1) less.prems pos(2) by simp
    then show ?thesis
      using False less.IH [OF pos(1)] less.prems
      by (subst tail_loop.simps) (simp add: scan Let_def split: sum.splits)
  qed (simp add: tail_loop.simps)
qed

lemma scan_file_skip:
  assumes "\<And>i. a \<le> i \<Longrightarrow> i < a + j \<Longrightarrow> data ! i = newline \<Longrightarrow> i = length data - 1"
  shows "scan_file data lines found (a + j) = scan_file data lines found a"
  using assms by (induction j) auto

text \<open>From the end of the first \<open>j\<close> lines, with more following, every line counts.\<close>

lemma scan_file_lines:
  assumes "data = concat ls" and "\<forall>l \<in> set ls. is_line l" and "\<forall>l \<in> set (butlast ls). last l = newline"
    and "j < length ls" and "found < lines"
  shows "scan_file data lines found (length (concat (take j ls))) =
    (if lines - found \<le> j then Inr (length (concat (take (Suc j - (lines - found)) ls))) else Inl (found + j))"
  using assms(4,5)
proof (induction j arbitrary: found)
  case (Suc j)
  let ?a = "length (concat (take j ls))" and ?l = "ls ! j"
  have l: "is_line ?l" "last ?l = newline"
  proof -
    have "butlast ls ! j \<in> set (butlast ls)" using Suc.prems by (intro nth_mem) simp
    then have "ls ! j \<in> set (butlast ls)" using Suc.prems by (simp add: nth_butlast)
    then show "is_line ?l" "last ?l = newline" using assms(2,3) in_set_butlastD by fastforce+
  qed
  have split: "data = concat (take j ls) @ ?l @ concat (drop (Suc j) ls)"
    using Suc.prems assms(1) by (metis Suc_lessD append_take_drop_id Cons_nth_drop_Suc concat_append concat.simps(2))
  have "ls ! Suc j \<noteq> []" using Suc.prems assms(2) by (auto simp: is_line_def)
  then have more: "concat (drop (Suc j) ls) \<noteq> []" using Suc.prems(1) by (auto simp: Cons_nth_drop_Suc [symmetric])
  obtain k where k: "length ?l = Suc k" using l(1) by (cases ?l) (auto simp: is_line_def)
  have at: "data ! (?a + i) = ?l ! i" if "i < length ?l" for i
    using that by (subst split) (simp add: nth_append)
  have nl: "data ! (?a + k) = newline" using at [of k] k l by (simp add: last_conv_nth is_line_def)
  have len: "?a + length ?l < length data" using more by (subst split) simp
  have body: "scan_file data lines f (?a + k) = scan_file data lines f ?a" for f
  proof (rule scan_file_skip)
    fix i assume i: "?a \<le> i" "i < ?a + k" "data ! i = newline"
    then have "i - ?a < k" by simp
    then have "?l ! (i - ?a) \<in> set (butlast ?l)" using k by (auto simp: in_set_conv_nth nth_butlast)
    with at [of "i - ?a"] i k l(1) show "i = length data - 1" by (auto simp: is_line_def)
  qed
  have "take (Suc j) ls = take j ls @ [?l]" using Suc.prems by (simp add: take_Suc_conv_app_nth)
  then have "length (concat (take (Suc j) ls)) = Suc (?a + k)" using k by simp
  then show ?case
    using Suc.IH [of "Suc found"] Suc.prems nl len k body
    by (auto simp: Suc_diff_le split: if_splits)
qed simp

lemma async_tail_position:
  assumes "\<And>p n. p + n \<le> length data \<Longrightarrow> read_at p n = Inr (take n (drop p data))"
  shows "async_tail read_at (length data) n =
    Inr (length (concat (take (length (split_lines data) - n) (split_lines data))))"
proof (cases "n = 0 \<or> data = []")
  case True
  then show ?thesis by (auto simp: async_tail_def)
next
  case False
  let ?ls = "split_lines data"
  have ne: "?ls \<noteq> []" using False split_lines_ne by blast
  define j where "j = length ?ls - 1"
  have j: "j < length ?ls" "length ?ls = Suc j" using ne by (simp_all add: j_def)
  have l: "is_line (last ?ls)" using split_lines_ok [of data] ne last_in_set by blast
  have data: "data = concat (take j ?ls) @ last ?ls"
    using ne concat_split_lines [of data] by (metis append_butlast_last_id butlast_conv_take concat.simps concat_append j_def append.right_neutral)
  obtain k where k: "length (last ?ls) = Suc k" using l by (cases "last ?ls") (auto simp: is_line_def)
  let ?a = "length (concat (take j ?ls))"
  have size: "length data = ?a + Suc k" using data k by (metis length_append)
  have "scan_file data n 0 (length data) = scan_file data n 0 ?a"
    unfolding size
  proof (rule scan_file_skip [where data = data, unfolded size])
    fix i assume i: "?a \<le> i" "i < ?a + Suc k" "data ! i = newline"
    have "data ! i = last ?ls ! (i - ?a)" using i(1) by (subst data) (simp add: nth_append)
    moreover have "last ?ls ! (i - ?a) \<in> set (butlast (last ?ls))" if "i - ?a < k"
      using that k by (auto simp: in_set_conv_nth nth_butlast)
    ultimately show "i = ?a + Suc k - 1" using i l by (cases "i - ?a < k") (auto simp: is_line_def)
  qed
  also have "\<dots> = (if n \<le> j then Inr (length (concat (take (Suc j - n) ?ls))) else Inl j)"
    using scan_file_lines [of data ?ls j 0 n] split_lines_ok [of data] False j by simp
  finally have "scan_file data n 0 (length data) = (if n \<le> j then Inr (length (concat (take (Suc j - n) ?ls))) else Inl j)" .
  then show ?thesis
    using False tail_loop_scan [OF assms order_refl, of n 0] j by (auto simp: async_tail_def)
qed

subsection \<open>Streaming\<close>

definition filled :: "('e + byte list) list \<Rightarrow> bool" where
  "filled rs \<longleftrightarrow> (\<forall>r \<in> set rs. \<exists>bs. r = Inr bs \<and> bs \<noteq> [])"

definition cap_line :: "byte list \<Rightarrow> byte list" where
  "cap_line l = take tail_line_max l @ (if tail_line_max < length l \<and> last l = newline then [newline] else [])"

lemma capped_loop_spec:
  assumes "filled rs" and "line = take tail_line_max pre" and "truncated \<longleftrightarrow> tail_line_max < length pre"
  shows "case position (\<lambda>b. b = newline) (received rs) of
      None \<Rightarrow> capped_loop rs line truncated =
        Inr (take tail_line_max (pre @ received rs), tail_line_max < length (pre @ received rs), False, [])
    | Some i \<Rightarrow> \<exists>rs'. capped_loop rs line truncated =
        Inr (take tail_line_max (pre @ take (Suc i) (received rs)),
             tail_line_max < length (pre @ take (Suc i) (received rs)), True, rs') \<and>
        filled rs' \<and> received rs' = drop (Suc i) (received rs)"
  using assms
proof (induction rs arbitrary: line truncated pre)
  case (Cons r rs)
  obtain av where r: "r = Inr av" "av \<noteq> []" using Cons.prems(1) by (auto simp: filled_def)
  have rs: "filled rs" using Cons.prems(1) by (simp add: filled_def)
  have grow: "(if length line < tail_line_max then line @ take (min (tail_line_max - length line) n) av else line) =
        take tail_line_max (pre @ take n av)"
    "(if length line < tail_line_max then truncated \<or> min (tail_line_max - length line) n < n else True) \<longleftrightarrow>
        tail_line_max < length (pre @ take n av)" if "n \<le> length av" "0 < n" for n
    using Cons.prems(2,3) that by (auto simp: min_def)
  show ?case
  proof (cases "position (\<lambda>b. b = newline) av")
    case None
    have "capped_loop (r # rs) line truncated = capped_loop rs
        (if length line < tail_line_max then line @ take (min (tail_line_max - length line) (length av)) av else line)
        (if length line < tail_line_max then truncated \<or> min (tail_line_max - length line) (length av) < length av else True)"
      using r None by (simp add: Let_def cong: if_cong)
    also have "\<dots> = capped_loop rs (take tail_line_max (pre @ take (length av) av)) (tail_line_max < length (pre @ take (length av) av))"
      using r(2) by (intro arg_cong2 [where f = "capped_loop rs"] grow) simp_all
    finally have step: "capped_loop (r # rs) line truncated =
        capped_loop rs (take tail_line_max (pre @ av)) (tail_line_max < length (pre @ av))" by simp
    have "position (\<lambda>b. b = newline) (received (r # rs)) = map_option (\<lambda>i. length av + i) (position (\<lambda>b. b = newline) (received rs))"
      using r None by (simp add: position_append)
    moreover have "take (Suc (length av + i)) (av @ xs) = av @ take (Suc i) xs" for i xs by simp
    ultimately show ?thesis
      using step Cons.IH [OF rs refl refl, of "pre @ av"] r
      by (auto simp del: capped_loop.simps take_append take_take split: option.splits)
  next
    case (Some i)
    have i: "i < length av" using Some position_Some by blast
    have pos: "position (\<lambda>b. b = newline) (received (r # rs)) = Some i" using r Some by (simp add: position_append)
    let ?rs' = "if Suc i = length av then rs else Inr (drop (Suc i) av) # rs"
    have "capped_loop (r # rs) line truncated = Inr
        (if length line < tail_line_max then line @ take (min (tail_line_max - length line) (Suc i)) av else line,
         if length line < tail_line_max then truncated \<or> min (tail_line_max - length line) (Suc i) < Suc i else True, True, ?rs')"
      using r Some by (simp add: Let_def cong: if_cong)
    also have "\<dots> = Inr (take tail_line_max (pre @ take (Suc i) av), tail_line_max < length (pre @ take (Suc i) av), True, ?rs')"
      using grow [of "Suc i"] i by (simp only: Suc_leI zero_less_Suc)
    finally have "capped_loop (r # rs) line truncated =
        Inr (take tail_line_max (pre @ take (Suc i) av), tail_line_max < length (pre @ take (Suc i) av), True, ?rs')" .
    moreover have "filled ?rs'" "received ?rs' = drop (Suc i) (received (r # rs))"
      "take (Suc i) (received (r # rs)) = take (Suc i) av"
      using rs i r by (auto simp: filled_def)
    ultimately show ?thesis using pos by auto
  qed
qed simp

lemma split_first_line:
  assumes "position (\<lambda>b. b = newline) bs = Some i"
  shows "is_line (take (Suc i) bs)" and "last (take (Suc i) bs) = newline"
    and "split_lines bs = take (Suc i) bs # split_lines (drop (Suc i) bs)"
proof -
  have i: "i < length bs" "bs ! i = newline" "\<forall>j < i. bs ! j \<noteq> newline" using position_Some [OF assms] by auto
  then show l: "is_line (take (Suc i) bs)" "last (take (Suc i) bs) = newline"
    by (auto simp: is_line_def take_Suc_conv_app_nth in_set_conv_nth)
  from split_lines_line [OF this, of "drop (Suc i) bs"]
  show "split_lines bs = take (Suc i) bs # split_lines (drop (Suc i) bs)" by simp
qed

lemma position_None: "position P xs = None \<longleftrightarrow> (\<forall>x \<in> set xs. \<not> P x)"
  by (induction xs) auto

lemma read_line_capped_spec:
  assumes "filled rs"
  shows "case split_lines (received rs) of
      [] \<Rightarrow> \<exists>rs'. read_line_capped rs = Inr (None, rs')
    | l # ls \<Rightarrow> \<exists>rs'. read_line_capped rs = Inr (Some (cap_line l), rs') \<and> filled rs' \<and> split_lines (received rs') = ls"
proof -
  let ?bs = "received rs"
  have loop: "case position (\<lambda>b. b = newline) ?bs of
      None \<Rightarrow> capped_loop rs [] False = Inr (take tail_line_max ?bs, tail_line_max < length ?bs, False, [])
    | Some i \<Rightarrow> \<exists>rs'. capped_loop rs [] False = Inr (take tail_line_max (take (Suc i) ?bs),
        tail_line_max < length (take (Suc i) ?bs), True, rs') \<and> filled rs' \<and> received rs' = drop (Suc i) ?bs"
    using capped_loop_spec [OF assms, of "[]" "[]" False] unfolding append_Nil by simp
  have pos: "0 < tail_line_max" by (simp add: tail_line_max_def)
  show ?thesis
  proof (cases "position (\<lambda>b. b = newline) ?bs")
    case None
    show ?thesis
    proof (cases "?bs = []")
      case True
      with loop None show ?thesis by (simp add: read_line_capped_def)
    next
      case False
      have nl: "newline \<notin> set ?bs" using None by (auto simp: position_None)
      then have "is_line ?bs" using False by (auto simp: is_line_def dest: in_set_butlastD)
      moreover have "last ?bs \<noteq> newline" using nl False last_in_set by metis
      ultimately have "is_line ?bs" "last ?bs \<noteq> newline" .
      with False loop None pos split_lines_last [of ?bs] show ?thesis
        by (simp add: read_line_capped_def cap_line_def filled_def)
    qed
  next
    case (Some i)
    note first = split_first_line [OF Some]
    let ?l = "take (Suc i) ?bs"
    have "last (take tail_line_max ?l) \<noteq> newline" if "tail_line_max < length ?l"
    proof -
      have "take tail_line_max ?l = take tail_line_max (butlast ?l)" using that by (simp add: take_butlast)
      moreover have "take tail_line_max ?l \<noteq> []" using that pos by auto
      ultimately have "last (take tail_line_max ?l) \<in> set (butlast ?l)" by (metis in_set_takeD last_in_set)
      with first(1) show ?thesis by (auto simp: is_line_def)
    qed
    moreover have "take tail_line_max ?l \<noteq> []" using first(1) pos by (auto simp: is_line_def)
    ultimately show ?thesis
      using loop Some first by (auto simp: read_line_capped_def cap_line_def)
  qed
qed

lemma last_lines_short: "length ls \<le> n \<Longrightarrow> last_lines n ls = ls"
  by (simp add: last_lines_def)

lemma stream_loop_spec:
  assumes "filled rs" and "length buf \<le> n" and "0 < n"
  shows "stream_loop n rs buf = Inr (last_lines n (buf @ map cap_line (split_lines (received rs))))"
  using assms(1,2)
proof (induction "split_lines (received rs)" arbitrary: rs buf)
  case Nil
  with read_line_capped_spec [OF Nil.prems(1)] show ?case
    by (subst stream_loop.simps) (auto simp: last_lines_short)
next
  case (Cons l ls)
  obtain rs' where rs': "read_line_capped rs = Inr (Some (cap_line l), rs')" "filled rs'" "split_lines (received rs') = ls"
    using read_line_capped_spec [OF Cons.prems(1)] Cons.hyps(2) [symmetric] by auto
  let ?buf = "(if length buf = n then tl buf else buf) @ [cap_line l]"
  have "length ?buf \<le> n" using Cons.prems(2) assms(3) by (cases buf) auto
  then have "stream_loop n rs buf = Inr (last_lines n (?buf @ map cap_line ls))"
    using Cons.hyps(1) [OF rs'(3) [symmetric] rs'(2)] rs' by (subst stream_loop.simps) simp
  moreover have "last_lines n (?buf @ map cap_line ls) = last_lines n (buf @ map cap_line (l # ls))"
  proof (cases "length buf = n")
    case True
    then show ?thesis using assms(3) by (cases buf) (auto simp: last_lines_def)
  qed simp
  ultimately show ?case using Cons.hyps(2) by simp
qed

lemma async_tail_stream_spec:
  "filled rs \<Longrightarrow> async_tail_stream n rs = Inr (concat (last_lines n (map cap_line (split_lines (received rs)))))"
  using stream_loop_spec [of rs "[]" n] by (auto simp: async_tail_stream_def last_lines_def)

lemma cap_line_id: "length l \<le> tail_line_max \<Longrightarrow> cap_line l = l"
  by (simp add: cap_line_def)



end
