(* ===== verification/FileHistory.thy ===== *)
theory FileHistory
  imports Bytes "HOL-Library.AList"
begin

text \<open>
  The history of edited files (\<^verbatim>\<open>server/diff/storage.rs\<close> and \<^verbatim>\<open>server/diff/manager.rs\<close>). The two tables
  of the database are lists of rows; each SQL statement of the code is written out on them, with the
  row identifiers SQLite assigns (one more than the largest), its unique constraint on paths and its
  cascading delete. The database itself is taken to work; the compressor, its dictionary form and the
  digest are the fields of \<open>hist_deps\<close>. A revision is a snapshot or a delta against the revision
  before it; a chain is a snapshot with the deltas on top of it.
\<close>

section \<open>Tables\<close>

record 'h hist_deps =
  encode_all :: "byte list \<Rightarrow> byte list option"
  decode_all :: "byte list \<Rightarrow> byte list option"
  encode_with_dictionary :: "byte list \<Rightarrow> byte list \<Rightarrow> byte list option"
  decode_with_dictionary :: "byte list \<Rightarrow> byte list \<Rightarrow> byte list option"
  digest :: "byte list \<Rightarrow> 'h"

record 'h revision =
  rev_id :: nat
  rev_file :: nat
  rev_chain :: nat
  rev_created :: int
  rev_size :: nat
  rev_user :: "nat option"
  rev_base :: "nat option"
  rev_payload :: "byte list"
  rev_hash :: 'h

record 'h hist_storage =
  hs_files :: "(nat \<times> string) list"
  hs_revisions :: "'h revision list"

datatype hist_error = CodecFailed | HashMismatch nat | NotFound nat | UniqueViolation

definition storage_open :: "'h hist_storage" where
  "storage_open = \<lparr>hs_files = [], hs_revisions = []\<rparr>"

definition next_rowid :: "nat list \<Rightarrow> nat" where
  "next_rowid ids = fold max ids 0 + 1"

definition rows_of :: "nat \<Rightarrow> 'h hist_storage \<Rightarrow> 'h revision list" where
  "rows_of file s = filter (\<lambda>r. rev_file r = file) (hs_revisions s)"

definition payload_bytes :: "'h revision list \<Rightarrow> nat" where
  "payload_bytes rs = sum_list (map (\<lambda>r. length (rev_payload r)) rs)"

definition total_payload_bytes :: "'h hist_storage \<Rightarrow> nat" where
  "total_payload_bytes s = payload_bytes (hs_revisions s)"

definition file_payload_bytes :: "nat \<Rightarrow> 'h hist_storage \<Rightarrow> nat" where
  "file_payload_bytes file s = payload_bytes (rows_of file s)"

definition find_file :: "string \<Rightarrow> 'h hist_storage \<Rightarrow> nat option" where
  "find_file path s = map_option fst (find (\<lambda>f. snd f = path) (hs_files s))"

definition upsert_file :: "string \<Rightarrow> 'h hist_storage \<Rightarrow> nat \<times> 'h hist_storage" where
  "upsert_file path s =
     (case find_file path s of
        Some i \<Rightarrow> (i, s)
      | None \<Rightarrow> let i = next_rowid (map fst (hs_files s)) in (i, s\<lparr>hs_files := hs_files s @ [(i, path)]\<rparr>))"

definition list_for_file :: "nat \<Rightarrow> 'h hist_storage \<Rightarrow> 'h revision list" where
  "list_for_file file s = rev (sort_key rev_id (rows_of file s))"

definition latest_revision :: "nat \<Rightarrow> 'h hist_storage \<Rightarrow> 'h revision option" where
  "latest_revision file s = (case list_for_file file s of [] \<Rightarrow> None | r # _ \<Rightarrow> Some r)"

definition chains_of :: "nat \<Rightarrow> 'h hist_storage \<Rightarrow> nat list" where
  "chains_of file s = remdups (map rev_chain (rows_of file s))"

definition chain_count :: "nat \<Rightarrow> 'h hist_storage \<Rightarrow> nat" where
  "chain_count file s = length (chains_of file s)"

definition latest_chain_id :: "nat \<Rightarrow> 'h hist_storage \<Rightarrow> nat option" where
  "latest_chain_id file s = map_option rev_chain (latest_revision file s)"

definition chain_rows :: "nat \<Rightarrow> nat \<Rightarrow> 'h hist_storage \<Rightarrow> 'h revision list" where
  "chain_rows file chain s = filter (\<lambda>r. rev_file r = file \<and> rev_chain r = chain) (hs_revisions s)"

definition current_chain_length :: "nat \<Rightarrow> 'h hist_storage \<Rightarrow> nat" where
  "current_chain_length file s =
     (case latest_chain_id file s of None \<Rightarrow> 0 | Some chain \<Rightarrow> length (chain_rows file chain s))"

definition insert_snapshot ::
    "'h hist_deps \<Rightarrow> nat \<Rightarrow> nat option \<Rightarrow> byte list \<Rightarrow> int \<Rightarrow> 'h hist_storage \<Rightarrow>
     (hist_error + nat) \<times> 'h hist_storage" where
  "insert_snapshot D file user content created s =
     (case encode_all D content of
        None \<Rightarrow> (Inl CodecFailed, s)
      | Some payload \<Rightarrow>
          let i = next_rowid (map rev_id (hs_revisions s)) in
          (Inr i, s\<lparr>hs_revisions := hs_revisions s @
             [\<lparr>rev_id = i, rev_file = file, rev_chain = i, rev_created = created, rev_size = length content,
               rev_user = user, rev_base = None, rev_payload = payload, rev_hash = digest D content\<rparr>]\<rparr>))"

definition insert_delta ::
    "'h hist_deps \<Rightarrow> nat \<Rightarrow> nat \<Rightarrow> nat \<Rightarrow> byte list \<Rightarrow> nat option \<Rightarrow> byte list \<Rightarrow> int \<Rightarrow> 'h hist_storage \<Rightarrow>
     (hist_error + nat) \<times> 'h hist_storage" where
  "insert_delta D file base base_chain base_content user content created s =
     (case encode_with_dictionary D content base_content of
        None \<Rightarrow> (Inl CodecFailed, s)
      | Some payload \<Rightarrow>
          let i = next_rowid (map rev_id (hs_revisions s)) in
          (Inr i, s\<lparr>hs_revisions := hs_revisions s @
             [\<lparr>rev_id = i, rev_file = file, rev_chain = base_chain, rev_created = created, rev_size = length content,
               rev_user = user, rev_base = Some base, rev_payload = payload, rev_hash = digest D content\<rparr>]\<rparr>))"

section \<open>Reading a revision\<close>

definition max_chain :: nat where
  "max_chain = 1000"

text \<open>The rows from a revision down to its snapshot, at most \<open>max_chain\<close> of them.\<close>

fun collect_chain :: "nat \<Rightarrow> nat \<Rightarrow> 'h hist_storage \<Rightarrow> hist_error + 'h revision list" where
  "collect_chain 0 rid s = Inr []"
| "collect_chain (Suc n) rid s =
     (case find (\<lambda>r. rev_id r = rid) (hs_revisions s) of
        None \<Rightarrow> Inl (NotFound rid)
      | Some r \<Rightarrow>
          (case rev_base r of
             None \<Rightarrow> Inr [r]
           | Some base \<Rightarrow>
               (case collect_chain n base s of Inl e \<Rightarrow> Inl e | Inr rs \<Rightarrow> Inr (r # rs))))"

fun apply_deltas :: "'h hist_deps \<Rightarrow> nat \<Rightarrow> 'h revision list \<Rightarrow> byte list \<Rightarrow> hist_error + byte list" where
  "apply_deltas D i [] content = Inr content"
| "apply_deltas D i (step # steps) content =
     (case decode_with_dictionary D (rev_payload step) content of
        None \<Rightarrow> Inl CodecFailed
      | Some next \<Rightarrow>
          if digest D next \<noteq> rev_hash step then Inl (HashMismatch i) else apply_deltas D i steps next)"

definition reconstruct :: "'h hist_deps \<Rightarrow> nat \<Rightarrow> 'h hist_storage \<Rightarrow> hist_error + byte list" where
  "reconstruct D i s =
     (case collect_chain max_chain i s of
        Inl e \<Rightarrow> Inl e
      | Inr chain \<Rightarrow>
          (case rev chain of
             [] \<Rightarrow> Inl (NotFound i)
           | head # steps \<Rightarrow>
               (case decode_all D (rev_payload head) of
                  None \<Rightarrow> Inl CodecFailed
                | Some content \<Rightarrow>
                    if digest D content \<noteq> rev_hash head then Inl (HashMismatch (rev_id head))
                    else apply_deltas D i steps content)))"

section \<open>Retention\<close>

definition delete_where :: "('h revision \<Rightarrow> bool) \<Rightarrow> 'h hist_storage \<Rightarrow> 'h hist_storage" where
  "delete_where P s = s\<lparr>hs_revisions := filter (\<lambda>r. \<not> P r) (hs_revisions s)\<rparr>"

definition prune_old_chains :: "nat \<Rightarrow> nat \<Rightarrow> 'h hist_storage \<Rightarrow> nat \<times> 'h hist_storage" where
  "prune_old_chains file keep_chains s =
     (if keep_chains = 0 then (0, s)
      else
        let chains = take keep_chains (rev (sort (chains_of file s))) in
        if length chains < keep_chains then (0, s)
        else
          let min_keep = last chains; old = (\<lambda>r. rev_file r = file \<and> rev_chain r < min_keep)
          in (length (filter old (hs_revisions s)), delete_where old s))"

definition drop_chain :: "nat \<Rightarrow> nat \<Rightarrow> 'h hist_storage \<Rightarrow> nat \<times> 'h hist_storage" where
  "drop_chain file chain s =
     (payload_bytes (chain_rows file chain s), delete_where (\<lambda>r. rev_file r = file \<and> rev_chain r = chain) s)"

definition drop_oldest_chain :: "nat \<Rightarrow> nat option \<Rightarrow> nat \<Rightarrow> 'h hist_storage \<Rightarrow> nat \<times> 'h hist_storage" where
  "drop_oldest_chain file protect min_chains s =
     (if chain_count file s \<le> max min_chains 1 then (0, s)
      else
        (case sort (filter (\<lambda>c. protect \<noteq> Some c) (chains_of file s)) of
           [] \<Rightarrow> (0, s)
         | oldest # _ \<Rightarrow> drop_chain file oldest s))"

definition chain_created :: "nat \<times> nat \<Rightarrow> 'h hist_storage \<Rightarrow> int" where
  "chain_created k s = (case map rev_created (chain_rows (fst k) (snd k) s) of [] \<Rightarrow> 0 | t # ts \<Rightarrow> fold min ts t)"

text \<open>The chain with the earliest revision among those of files with more than one chain.\<close>

definition droppable :: "(nat \<times> nat) option \<Rightarrow> 'h hist_storage \<Rightarrow> (nat \<times> nat) list" where
  "droppable protect s =
     sort_key (\<lambda>k. chain_created k s) (sort_key snd (remdups (map (\<lambda>r. (rev_file r, rev_chain r))
       (filter (\<lambda>r. protect \<noteq> Some (rev_file r, rev_chain r) \<and> 1 < chain_count (rev_file r) s) (hs_revisions s)))))"

definition drop_globally_oldest_chain :: "(nat \<times> nat) option \<Rightarrow> 'h hist_storage \<Rightarrow> nat \<times> 'h hist_storage" where
  "drop_globally_oldest_chain protect s =
     (case droppable protect s of [] \<Rightarrow> (0, s) | (file, chain) # _ \<Rightarrow> drop_chain file chain s)"

definition delete_file :: "string \<Rightarrow> 'h hist_storage \<Rightarrow> 'h hist_storage" where
  "delete_file path s =
     (let gone = map fst (filter (\<lambda>f. snd f = path) (hs_files s))
      in (delete_where (\<lambda>r. rev_file r \<in> set gone) s)\<lparr>hs_files := filter (\<lambda>f. snd f \<noteq> path) (hs_files s)\<rparr>)"

definition storage_rename :: "string \<Rightarrow> string \<Rightarrow> 'h hist_storage \<Rightarrow> (hist_error + unit) \<times> 'h hist_storage" where
  "storage_rename old new s =
     (if old \<noteq> new \<and> find_file old s \<noteq> None \<and> find_file new s \<noteq> None then (Inl UniqueViolation, s)
      else (Inr (), s\<lparr>hs_files := map (\<lambda>(i, p). (i, if p = old then new else p)) (hs_files s)\<rparr>))"

definition storage_clear :: "'h hist_storage \<Rightarrow> 'h hist_storage" where
  "storage_clear s = s\<lparr>hs_revisions := [], hs_files := []\<rparr>"

section \<open>Recording an edit\<close>

record hist_config =
  hc_enabled :: bool
  anchor_interval :: nat
  keep_chains :: nat
  per_file_disk_budget :: nat
  per_server_disk_budget :: nat

datatype recorded = Unchanged nat | Recorded nat

definition usize_modulus :: nat where
  "usize_modulus = 18446744073709551616"

definition snapshot_estimate :: "'h hist_deps \<Rightarrow> byte list \<Rightarrow> nat" where
  "snapshot_estimate D content =
     (case encode_all D content of None \<Rightarrow> usize_modulus - 1 | Some v \<Rightarrow> length v)"

text \<open>The delta is not worth keeping when it is at least nine tenths of a snapshot; both products wrap.\<close>

definition prefers_snapshot :: "nat \<Rightarrow> nat \<Rightarrow> bool" where
  "prefers_snapshot delta estimate = ((estimate * 9) mod usize_modulus \<le> (delta * 10) mod usize_modulus)"

definition tag_recorded :: "(hist_error + nat) \<times> 'h hist_storage \<Rightarrow> (hist_error + recorded) \<times> 'h hist_storage" where
  "tag_recorded = map_prod (map_sum id Recorded) id"

definition first_revision ::
    "'h hist_deps \<Rightarrow> int \<Rightarrow> nat \<Rightarrow> byte list option \<Rightarrow> byte list \<Rightarrow> nat option \<Rightarrow> 'h hist_storage \<Rightarrow>
     (hist_error + nat) \<times> 'h hist_storage" where
  "first_revision D now file before after user s =
     (case before of
        Some old \<Rightarrow>
          if old \<noteq> after then
            (case insert_snapshot D file None old (now - 1) s of
               (Inl e, s') \<Rightarrow> (Inl e, s')
             | (Inr baseline, s') \<Rightarrow> insert_delta D file baseline baseline old user after now s')
          else insert_snapshot D file user after now s
      | None \<Rightarrow> insert_snapshot D file user after now s)"

definition next_revision ::
    "'h hist_deps \<Rightarrow> nat \<Rightarrow> int \<Rightarrow> nat \<Rightarrow> 'h revision \<Rightarrow> byte list \<Rightarrow> nat option \<Rightarrow> 'h hist_storage \<Rightarrow>
     (hist_error + nat) \<times> 'h hist_storage" where
  "next_revision D anchor now file prev after user s =
     (if anchor \<le> current_chain_length file s then insert_snapshot D file user after now s
      else
        (case reconstruct D (rev_id prev) s of
           Inl e \<Rightarrow> (Inl e, s)
         | Inr prev_content \<Rightarrow>
             (case encode_with_dictionary D after prev_content of
                None \<Rightarrow> (Inl CodecFailed, s)
              | Some delta_bytes \<Rightarrow>
                  if prefers_snapshot (length delta_bytes) (snapshot_estimate D after)
                  then insert_snapshot D file user after now s
                  else insert_delta D file (rev_id prev) (rev_chain prev) prev_content user after now s)))"

definition new_revision ::
    "'h hist_deps \<Rightarrow> nat \<Rightarrow> int \<Rightarrow> nat \<Rightarrow> byte list option \<Rightarrow> byte list \<Rightarrow> nat option \<Rightarrow> 'h hist_storage \<Rightarrow>
     (hist_error + recorded) \<times> 'h hist_storage" where
  "new_revision D anchor now file before after user s =
     (case latest_revision file s of
        None \<Rightarrow> tag_recorded (first_revision D now file before after user s)
      | Some prev \<Rightarrow>
          if rev_hash prev = digest D after then (Inr (Unchanged (rev_id prev)), s)
          else tag_recorded (next_revision D anchor now file prev after user s))"

lemma payload_bytes_filter_less:
  "payload_bytes (filter P rs) \<noteq> 0 \<Longrightarrow> length (filter (\<lambda>r. \<not> P r) rs) < length rs"
  by (induction rs) (auto simp: payload_bytes_def less_Suc_eq_le split: if_splits)

lemma drop_chain_shrinks:
  "fst (drop_chain file chain s) \<noteq> 0 \<Longrightarrow> length (hs_revisions (snd (drop_chain file chain s))) < length (hs_revisions s)"
  using payload_bytes_filter_less [of "\<lambda>r. rev_file r = file \<and> rev_chain r = chain"]
  by (simp add: drop_chain_def chain_rows_def delete_where_def)

lemma drop_oldest_chain_shrinks:
  "fst (drop_oldest_chain file protect n s) \<noteq> 0 \<Longrightarrow>
   length (hs_revisions (snd (drop_oldest_chain file protect n s))) < length (hs_revisions s)"
  by (auto simp: drop_oldest_chain_def drop_chain_shrinks split: list.splits if_splits)

lemma drop_globally_oldest_chain_shrinks:
  "fst (drop_globally_oldest_chain protect s) \<noteq> 0 \<Longrightarrow>
   length (hs_revisions (snd (drop_globally_oldest_chain protect s))) < length (hs_revisions s)"
  by (auto simp: drop_globally_oldest_chain_def drop_chain_shrinks split: list.splits prod.splits)

function shrink_file :: "nat \<Rightarrow> nat option \<Rightarrow> nat \<Rightarrow> nat \<Rightarrow> 'h hist_storage \<Rightarrow> 'h hist_storage" where
  "shrink_file file protect keep budget s =
     (if file_payload_bytes file s \<le> budget then s
      else if fst (drop_oldest_chain file protect keep s) = 0 then snd (drop_oldest_chain file protect keep s)
      else shrink_file file protect keep budget (snd (drop_oldest_chain file protect keep s)))"
  by auto
termination
  by (relation "measure (\<lambda>(file, protect, keep, budget, s). length (hs_revisions s))")
     (auto intro: drop_oldest_chain_shrinks)

function shrink_server :: "(nat \<times> nat) option \<Rightarrow> nat \<Rightarrow> 'h hist_storage \<Rightarrow> 'h hist_storage" where
  "shrink_server protect budget s =
     (if total_payload_bytes s \<le> budget then s
      else if fst (drop_globally_oldest_chain protect s) = 0 then snd (drop_globally_oldest_chain protect s)
      else shrink_server protect budget (snd (drop_globally_oldest_chain protect s)))"
  by auto
termination
  by (relation "measure (\<lambda>(protect, budget, s). length (hs_revisions s))")
     (auto intro: drop_globally_oldest_chain_shrinks)

declare shrink_file.simps [simp del] shrink_server.simps [simp del]

definition apply_retention :: "hist_config \<Rightarrow> nat \<Rightarrow> 'h hist_storage \<Rightarrow> 'h hist_storage" where
  "apply_retention cfg file s =
     (let protected_chain = latest_chain_id file s;
          keep = max (keep_chains cfg) 1;
          pruned = snd (prune_old_chains file keep s);
          trimmed = shrink_file file protected_chain keep (per_file_disk_budget cfg) pruned
      in shrink_server (map_option (Pair file) protected_chain) (per_server_disk_budget cfg) trimmed)"

definition record_in_storage ::
    "'h hist_deps \<Rightarrow> hist_config \<Rightarrow> int \<Rightarrow> string \<Rightarrow> byte list option \<Rightarrow> byte list \<Rightarrow> nat option \<Rightarrow> 'h hist_storage \<Rightarrow>
     (hist_error + nat) \<times> 'h hist_storage" where
  "record_in_storage D cfg now path before after user s =
     (let (file, s') = upsert_file path s in
      (case new_revision D (max (anchor_interval cfg) 1) now file before after user s' of
         (Inl e, t) \<Rightarrow> (Inl e, t)
       | (Inr (Unchanged i), t) \<Rightarrow> (Inr i, t)
       | (Inr (Recorded i), t) \<Rightarrow> (Inr i, apply_retention cfg file t)))"

section \<open>The manager\<close>

text \<open>
  \<open>dm_asleep\<close> holds the tasks of \<open>forget_file\<close> that are in their grace period and \<open>dm_deleting\<close> the deletions
  handed to the blocking pool, which an abort no longer stops; \<open>dm_aborted\<close> are the tasks aborted while
  they wait for that deletion, which will not tidy the map. A deletion and the tidying of the map that
  follows it are one step.
\<close>

record pending_forget =
  pf_id :: nat
  pf_before :: "byte list option"

record 'h diff_manager =
  dm_open :: bool
  dm_db :: "'h hist_storage"
  dm_pending :: "(string \<times> pending_forget) list"
  dm_seq :: nat
  dm_asleep :: "(nat \<times> string) list"
  dm_deleting :: "(nat \<times> string) list"
  dm_aborted :: "nat list"

record revision_info =
  ri_id :: nat
  ri_size :: nat
  ri_stored_size :: nat
  ri_user :: "nat option"
  ri_is_snapshot :: bool
  ri_created :: int

definition revision_info_of :: "'h revision \<Rightarrow> revision_info" where
  "revision_info_of r =
     \<lparr>ri_id = rev_id r, ri_size = rev_size r, ri_stored_size = length (rev_payload r), ri_user = rev_user r,
      ri_is_snapshot = (rev_base r = None), ri_created = rev_created r\<rparr>"

definition diff_manager_new :: "'h hist_storage \<Rightarrow> 'h diff_manager" where
  "diff_manager_new db =
     \<lparr>dm_open = False, dm_db = db, dm_pending = [], dm_seq = 0, dm_asleep = [], dm_deleting = [], dm_aborted = []\<rparr>"

definition ensure_open :: "hist_config \<Rightarrow> bool \<Rightarrow> 'h diff_manager \<Rightarrow> bool \<times> 'h diff_manager" where
  "ensure_open cfg opens m =
     (if \<not> hc_enabled cfg then (False, m)
      else if dm_open m then (True, m)
      else if opens then (True, m\<lparr>dm_open := True\<rparr>)
      else (False, m))"

definition record_edit ::
    "'h hist_deps \<Rightarrow> hist_config \<Rightarrow> bool \<Rightarrow> int \<Rightarrow> string \<Rightarrow> byte list option \<Rightarrow> byte list \<Rightarrow> nat option \<Rightarrow>
     'h diff_manager \<Rightarrow> (hist_error + nat) \<times> 'h diff_manager" where
  "record_edit D cfg opens now path before after user m =
     (case ensure_open cfg opens m of
        (False, m') \<Rightarrow> (Inr 0, m')
      | (True, m') \<Rightarrow>
          (case record_in_storage D cfg now path before after user (dm_db m') of
             (r, db) \<Rightarrow> (r, m'\<lparr>dm_db := db\<rparr>)))"

definition list_revisions ::
    "hist_config \<Rightarrow> bool \<Rightarrow> string \<Rightarrow> 'h diff_manager \<Rightarrow> revision_info list \<times> 'h diff_manager" where
  "list_revisions cfg opens path m =
     (case ensure_open cfg opens m of
        (False, m') \<Rightarrow> ([], m')
      | (True, m') \<Rightarrow>
          (case find_file path (dm_db m') of
             None \<Rightarrow> ([], m')
           | Some file \<Rightarrow> (map revision_info_of (list_for_file file (dm_db m')), m')))"

definition get_content ::
    "'h hist_deps \<Rightarrow> hist_config \<Rightarrow> bool \<Rightarrow> nat \<Rightarrow> 'h diff_manager \<Rightarrow> byte list option \<times> 'h diff_manager" where
  "get_content D cfg opens i m =
     (case ensure_open cfg opens m of
        (False, m') \<Rightarrow> (None, m')
      | (True, m') \<Rightarrow> (case reconstruct D i (dm_db m') of Inl e \<Rightarrow> (None, m') | Inr bytes \<Rightarrow> (Some bytes, m')))"

definition abort_forget :: "nat \<Rightarrow> 'h diff_manager \<Rightarrow> 'h diff_manager" where
  "abort_forget i m =
     m\<lparr>dm_asleep := filter (\<lambda>t. fst t \<noteq> i) (dm_asleep m),
       dm_aborted := (if i \<in> fst ` set (dm_deleting m) then i # dm_aborted m else dm_aborted m)\<rparr>"

definition abort_old :: "pending_forget option \<Rightarrow> 'h diff_manager \<Rightarrow> 'h diff_manager" where
  "abort_old p m = (case p of None \<Rightarrow> m | Some old \<Rightarrow> abort_forget (pf_id old) m)"

definition forget_file ::
    "hist_config \<Rightarrow> bool \<Rightarrow> string \<Rightarrow> byte list option \<Rightarrow> 'h diff_manager \<Rightarrow> 'h diff_manager" where
  "forget_file cfg opens path before m =
     (case ensure_open cfg opens m of
        (False, m') \<Rightarrow> m'
      | (True, m') \<Rightarrow>
          let i = dm_seq m'; old = map_of (dm_pending m') path;
              spawned = m'\<lparr>dm_seq := i + 1, dm_asleep := dm_asleep m' @ [(i, path)],
                           dm_pending := AList.update path \<lparr>pf_id = i, pf_before = before\<rparr> (dm_pending m')\<rparr>
          in abort_old old spawned)"

definition forget_wakes :: "nat \<Rightarrow> 'h diff_manager \<Rightarrow> 'h diff_manager" where
  "forget_wakes i m =
     m\<lparr>dm_asleep := filter (\<lambda>t. fst t \<noteq> i) (dm_asleep m),
       dm_deleting := dm_deleting m @ filter (\<lambda>t. fst t = i) (dm_asleep m)\<rparr>"

definition forget_deletes :: "nat \<Rightarrow> 'h diff_manager \<Rightarrow> 'h diff_manager" where
  "forget_deletes i m =
     (case map_of (dm_deleting m) i of
        None \<Rightarrow> m
      | Some path \<Rightarrow>
          m\<lparr>dm_deleting := filter (\<lambda>t. fst t \<noteq> i) (dm_deleting m),
            dm_db := (if dm_open m then delete_file path (dm_db m) else dm_db m),
            dm_pending :=
              (if i \<notin> set (dm_aborted m) \<and> map_option pf_id (map_of (dm_pending m) path) = Some i
               then AList.delete path (dm_pending m) else dm_pending m)\<rparr>)"

definition cancel_pending_forget :: "string \<Rightarrow> 'h diff_manager \<Rightarrow> byte list option option \<times> 'h diff_manager" where
  "cancel_pending_forget path m =
     (case map_of (dm_pending m) path of
        None \<Rightarrow> (None, m)
      | Some p \<Rightarrow> (Some (pf_before p), abort_forget (pf_id p) (m\<lparr>dm_pending := AList.delete path (dm_pending m)\<rparr>)))"

definition rename_file ::
    "hist_config \<Rightarrow> bool \<Rightarrow> string \<Rightarrow> string \<Rightarrow> 'h diff_manager \<Rightarrow>
     (hist_error + byte list option option) \<times> 'h diff_manager" where
  "rename_file cfg opens old new m =
     (case cancel_pending_forget new m of
        (replaced, m') \<Rightarrow>
          (case ensure_open cfg opens m' of
             (False, m'') \<Rightarrow> (Inr replaced, m'')
           | (True, m'') \<Rightarrow>
               (case storage_rename old new (dm_db m'') of
                  (Inl e, db) \<Rightarrow> (Inl e, m''\<lparr>dm_db := db\<rparr>)
                | (Inr _, db) \<Rightarrow> (Inr replaced, m''\<lparr>dm_db := db\<rparr>))))"

definition clear_history :: "hist_config \<Rightarrow> bool \<Rightarrow> 'h diff_manager \<Rightarrow> 'h diff_manager" where
  "clear_history cfg opens m =
     (case ensure_open cfg opens m of
        (False, m') \<Rightarrow> m'
      | (True, m') \<Rightarrow> m'\<lparr>dm_db := storage_clear (dm_db m')\<rparr>)"

definition close_history :: "'h diff_manager \<Rightarrow> 'h diff_manager" where
  "close_history m = m\<lparr>dm_open := False\<rparr>"

definition destroy_history :: "'h diff_manager \<Rightarrow> 'h diff_manager" where
  "destroy_history m = (close_history m)\<lparr>dm_db := storage_open\<rparr>"

text \<open>The maintenance task drops the map entries of finished tasks; compacting the database changes no row.\<close>

definition maintain :: "'h diff_manager \<Rightarrow> 'h diff_manager" where
  "maintain m =
     m\<lparr>dm_pending := filter (\<lambda>p. pf_id (snd p) \<in> fst ` set (dm_asleep m @ dm_deleting m)) (dm_pending m)\<rparr>"

definition export_snapshot :: "bool \<Rightarrow> 'h diff_manager \<Rightarrow> 'h hist_storage option" where
  "export_snapshot db_exists m = (if dm_open m \<or> db_exists then Some (dm_db m) else None)"

text \<open>The database file is created anew, hence empty, before the transferred bytes are written to it.\<close>

definition prepare_import :: "'h diff_manager \<Rightarrow> 'h diff_manager" where
  "prepare_import m = m\<lparr>dm_open := False, dm_db := storage_open\<rparr>"

definition drop_manager :: "'h diff_manager \<Rightarrow> 'h diff_manager" where
  "drop_manager m = fold (\<lambda>p. abort_forget (pf_id (snd p))) (dm_pending m) (m\<lparr>dm_pending := []\<rparr>)"

end
