(* ===== verification/FileHistoryLaws.thy ===== *)
theory FileHistoryLaws
  imports FileHistory
begin

text \<open>
  What keeps the file history readable. A revision denotes a content when its chain decodes to it with
  every digest matching; \<open>hist_inv\<close> says that every stored row denotes one at a depth no larger than its
  chain. Inserting a row keeps that, and so does every way of removing rows, because all of them remove
  whole chains (\<open>trimmed\<close>).
\<close>

section \<open>What the codec promises\<close>

definition codec_ok :: "'h hist_deps \<Rightarrow> bool" where
  "codec_ok D \<longleftrightarrow>
     (\<forall>x p. encode_all D x = Some p \<longrightarrow> decode_all D p = Some x \<and> p \<noteq> []) \<and>
     (\<forall>x d p. encode_with_dictionary D x d = Some p \<longrightarrow> decode_with_dictionary D p d = Some x \<and> p \<noteq> []) \<and>
     (\<forall>x y. digest D x = digest D y \<longrightarrow> x = y)"

lemma codec_okD:
  assumes "codec_ok D"
  shows "encode_all D x = Some p \<Longrightarrow> decode_all D p = Some x"
    and "encode_all D x = Some p \<Longrightarrow> p \<noteq> []"
    and "encode_with_dictionary D x d = Some p \<Longrightarrow> decode_with_dictionary D p d = Some x"
    and "encode_with_dictionary D x d = Some p \<Longrightarrow> p \<noteq> []"
    and "digest D x = digest D y \<Longrightarrow> x = y"
  using assms unfolding codec_ok_def by blast+

section \<open>Rows that denote a content\<close>

inductive denotes :: "'h hist_deps \<Rightarrow> 'h revision list \<Rightarrow> nat \<Rightarrow> 'h revision \<Rightarrow> byte list \<Rightarrow> bool" for D rows where
  snapshot: "\<lbrakk>r \<in> set rows; rev_base r = None; decode_all D (rev_payload r) = Some c; digest D c = rev_hash r\<rbrakk>
     \<Longrightarrow> denotes D rows (Suc 0) r c"
| delta: "\<lbrakk>r \<in> set rows; rev_base r = Some (rev_id b); denotes D rows n b c0; rev_file b = rev_file r;
       rev_chain b = rev_chain r; decode_with_dictionary D (rev_payload r) c0 = Some c; digest D c = rev_hash r\<rbrakk>
     \<Longrightarrow> denotes D rows (Suc n) r c"

lemma denotes_row: "denotes D rows n r c \<Longrightarrow> r \<in> set rows \<and> digest D c = rev_hash r"
  by (erule denotes.cases) auto

lemma denotes_mono: "denotes D rows n r c \<Longrightarrow> set rows \<subseteq> set rows' \<Longrightarrow> denotes D rows' n r c"
  by (induction rule: denotes.induct) (auto intro: denotes.intros)

lemma denotes_filter:
  "denotes D rows n r c \<Longrightarrow> P (rev_file r) (rev_chain r) \<Longrightarrow>
   denotes D (filter (\<lambda>q. P (rev_file q) (rev_chain q)) rows) n r c"
  by (induction rule: denotes.induct) (auto intro: denotes.intros)

lemma find_row:
  "distinct (map rev_id rows) \<Longrightarrow> r \<in> set rows \<Longrightarrow> find (\<lambda>q. rev_id q = rev_id r) rows = Some r"
  by (induction rows) (auto simp: image_iff)

text \<open>The last step of reading: decode the snapshot at the head, then the deltas.\<close>

definition decode_rows :: "'h hist_deps \<Rightarrow> nat \<Rightarrow> 'h revision list \<Rightarrow> hist_error + byte list" where
  "decode_rows D i rs =
     (case rs of
        [] \<Rightarrow> Inl (NotFound i)
      | head # steps \<Rightarrow>
          (case decode_all D (rev_payload head) of
             None \<Rightarrow> Inl CodecFailed
           | Some content \<Rightarrow>
               if digest D content \<noteq> rev_hash head then Inl (HashMismatch (rev_id head))
               else apply_deltas D i steps content))"

lemma reconstruct_alt:
  "reconstruct D i s =
     (case collect_chain max_chain i s of Inl e \<Rightarrow> Inl e | Inr chain \<Rightarrow> decode_rows D i (rev chain))"
  unfolding reconstruct_def decode_rows_def by (rule refl)

lemma apply_deltas_append:
  "apply_deltas D i (xs @ ys) c = (case apply_deltas D i xs c of Inl e \<Rightarrow> Inl e | Inr c' \<Rightarrow> apply_deltas D i ys c')"
  by (induction D i xs c rule: apply_deltas.induct) (auto split: option.splits)

lemma decode_rows_snoc:
  "rs \<noteq> [] \<Longrightarrow>
   decode_rows D i (rs @ [r]) = (case decode_rows D i rs of Inl e \<Rightarrow> Inl e | Inr c \<Rightarrow> apply_deltas D i [r] c)"
  by (cases rs) (auto simp: decode_rows_def apply_deltas_append split: option.splits sum.splits)

lemma denotes_collect:
  assumes "denotes D (hs_revisions s) n r c" and "distinct (map rev_id (hs_revisions s))" and "n \<le> m"
  shows "\<exists>chain. collect_chain m (rev_id r) s = Inr chain \<and> chain \<noteq> [] \<and> decode_rows D i (rev chain) = Inr c"
  using assms(1,3)
proof (induction arbitrary: m rule: denotes.induct)
  case (snapshot r c)
  then show ?case
    by (cases m) (auto simp: find_row assms(2) decode_rows_def)
next
  case (delta r b n c0 c)
  obtain k where k: "m = Suc k" "n \<le> k"
    using delta.prems by (cases m) auto
  obtain chain where "collect_chain k (rev_id b) s = Inr chain" "chain \<noteq> []" "decode_rows D i (rev chain) = Inr c0"
    using delta.IH k(2) by blast
  with delta.hyps k(1) show ?case
    by (auto simp: find_row assms(2) decode_rows_snoc)
qed

lemma denotes_reconstruct:
  assumes "denotes D (hs_revisions s) n r c" "distinct (map rev_id (hs_revisions s))" "n \<le> max_chain"
  shows "reconstruct D (rev_id r) s = Inr c"
  using denotes_collect [OF assms, of "rev_id r"] by (auto simp: reconstruct_alt)

section \<open>The invariant\<close>

definition chain_len :: "'h revision list \<Rightarrow> 'h revision \<Rightarrow> nat" where
  "chain_len rows r = length (filter (\<lambda>q. rev_file q = rev_file r \<and> rev_chain q = rev_chain r) rows)"

definition row_ok :: "'h hist_deps \<Rightarrow> nat \<Rightarrow> 'h revision list \<Rightarrow> 'h revision \<Rightarrow> bool" where
  "row_ok D A rows r \<longleftrightarrow>
     0 < rev_id r \<and> rev_chain r \<le> rev_id r \<and> rev_payload r \<noteq> [] \<and> chain_len rows r \<le> A \<and>
     (\<exists>n c. denotes D rows n r c \<and> n \<le> chain_len rows r \<and> length c = rev_size r)"

definition chains_ordered :: "'h revision list \<Rightarrow> bool" where
  "chains_ordered rows \<longleftrightarrow>
     (\<forall>q\<in>set rows. \<forall>r\<in>set rows. rev_file q = rev_file r \<longrightarrow> rev_id q \<le> rev_id r \<longrightarrow> rev_chain q \<le> rev_chain r)"

definition rows_ok :: "'h hist_deps \<Rightarrow> nat \<Rightarrow> 'h revision list \<Rightarrow> bool" where
  "rows_ok D A rows \<longleftrightarrow> distinct (map rev_id rows) \<and> (\<forall>r\<in>set rows. row_ok D A rows r) \<and> chains_ordered rows"

definition files_ok :: "'h hist_storage \<Rightarrow> bool" where
  "files_ok s \<longleftrightarrow>
     distinct (map fst (hs_files s)) \<and> distinct (map snd (hs_files s)) \<and>
     rev_file ` set (hs_revisions s) \<subseteq> fst ` set (hs_files s)"

definition hist_inv :: "'h hist_deps \<Rightarrow> nat \<Rightarrow> 'h hist_storage \<Rightarrow> bool" where
  "hist_inv D A s \<longleftrightarrow> rows_ok D A (hs_revisions s) \<and> files_ok s"

lemma chain_len_append [simp]:
  "chain_len (rows @ [r]) q =
     chain_len rows q + (if rev_file r = rev_file q \<and> rev_chain r = rev_chain q then 1 else 0)"
  by (simp add: chain_len_def)

lemma chain_len_same:
  "rev_file q = rev_file r \<Longrightarrow> rev_chain q = rev_chain r \<Longrightarrow> chain_len rows q = chain_len rows r"
  by (simp add: chain_len_def)

lemma chain_len_filter:
  "P (rev_file r) (rev_chain r) \<Longrightarrow> chain_len (filter (\<lambda>q. P (rev_file q) (rev_chain q)) rows) r = chain_len rows r"
  unfolding chain_len_def by (simp, rule arg_cong [of _ _ length], rule filter_cong) auto

lemma readable:
  assumes "hist_inv D A s" "A \<le> max_chain" "denotes D (hs_revisions s) n r c" "n \<le> chain_len (hs_revisions s) r"
  shows "reconstruct D (rev_id r) s = Inr c"
proof -
  have "row_ok D A (hs_revisions s) r" "distinct (map rev_id (hs_revisions s))"
    using assms(1) denotes_row [OF assms(3)] by (auto simp: hist_inv_def rows_ok_def)
  then show ?thesis
    using assms(2-4) by (intro denotes_reconstruct [of D s n]) (auto simp: row_ok_def)
qed

lemma hist_inv_open: "hist_inv D A storage_open"
  by (simp add: hist_inv_def rows_ok_def chains_ordered_def files_ok_def storage_open_def)

section \<open>Looking up\<close>

lemma sorted_last: "sorted xs \<Longrightarrow> x \<in> set xs \<Longrightarrow> x \<le> last xs"
  by (induction xs) auto

lemma last_sort_key: "x \<in> set xs \<Longrightarrow> f x \<le> f (last (sort_key f xs))"
  using sorted_last [of "map f (sort_key f xs)" "f x"]
  by (cases "sort_key f xs = []") (auto simp: last_map dest: arg_cong [of _ _ set])

lemma latest_revision_Some:
  assumes "latest_revision file s = Some r"
  shows "r \<in> set (hs_revisions s)" "rev_file r = file"
    and "\<And>q. q \<in> set (hs_revisions s) \<Longrightarrow> rev_file q = file \<Longrightarrow> rev_id q \<le> rev_id r"
proof -
  obtain rs where "rev (sort_key rev_id (rows_of file s)) = r # rs"
    using assms by (auto simp: latest_revision_def list_for_file_def split: list.splits)
  then have eq: "sort_key rev_id (rows_of file s) = rev rs @ [r]"
    by (metis rev.simps(2) rev_rev_ident)
  then have "set (rows_of file s) = set (rev rs @ [r])"
    by (metis set_sort)
  then have "r \<in> set (rows_of file s)"
    by simp
  then show "r \<in> set (hs_revisions s)" "rev_file r = file"
    by (auto simp: rows_of_def)
  show "rev_id q \<le> rev_id r" if "q \<in> set (hs_revisions s)" "rev_file q = file" for q
    using that last_sort_key [of q "rows_of file s" rev_id] unfolding eq by (simp add: rows_of_def)
qed

lemma latest_revision_None:
  "latest_revision file s = None \<longleftrightarrow> (\<forall>q\<in>set (hs_revisions s). rev_file q \<noteq> file)"
proof -
  have "latest_revision file s = None \<longleftrightarrow> rows_of file s = []"
    by (auto simp: latest_revision_def list_for_file_def split: list.splits dest: arg_cong [of _ _ set])
  then show ?thesis
    by (auto simp: rows_of_def filter_empty_conv)
qed

lemma latest_revisionI:
  assumes "distinct (map rev_id (hs_revisions s))" "r \<in> set (hs_revisions s)" "rev_file r = file"
    and "\<And>q. q \<in> set (hs_revisions s) \<Longrightarrow> rev_file q = file \<Longrightarrow> rev_id q \<le> rev_id r"
  shows "latest_revision file s = Some r"
proof -
  obtain p where p: "latest_revision file s = Some p"
    using assms(2,3) latest_revision_None [of "file" s] by (cases "latest_revision file s") auto
  have "rev_id p = rev_id r"
    using latest_revision_Some [OF p] assms(2-4) by (intro le_antisym) auto
  then have "p = r"
    using latest_revision_Some(1) [OF p] assms(1,2) by (auto simp: distinct_map inj_on_def)
  with p show ?thesis
    by simp
qed

lemma current_chain_length_latest:
  "latest_revision file s = Some r \<Longrightarrow> current_chain_length file s = chain_len (hs_revisions s) r"
  using latest_revision_Some(2) [of "file" s r]
  by (simp add: current_chain_length_def latest_chain_id_def chain_rows_def chain_len_def)

lemma latest_chain_newest:
  assumes "hist_inv D A s" "latest_revision file s = Some r" "q \<in> set (hs_revisions s)" "rev_file q = file"
  shows "rev_chain q \<le> rev_chain r"
  using assms latest_revision_Some [OF assms(2)]
  by (auto simp: hist_inv_def rows_ok_def chains_ordered_def)

section \<open>Inserting\<close>

lemma fold_max_ge: "(x::nat) \<in> set xs \<or> x \<le> a \<Longrightarrow> x \<le> fold max xs a"
  by (induction xs arbitrary: a) (auto simp: max_def)

lemma next_rowid_greater: "x \<in> set ids \<Longrightarrow> x < next_rowid ids"
  by (simp add: next_rowid_def fold_max_ge le_imp_less_Suc)

lemma next_rowid_fresh: "next_rowid ids \<notin> set ids"
  using next_rowid_greater [of "next_rowid ids" ids] by auto

lemma rows_ok_append:
  assumes ok: "rows_ok D A rows" and id: "rev_id r = next_rowid (map rev_id rows)"
    and new: "row_ok D A (rows @ [r]) r"
    and newest: "\<And>q. q \<in> set rows \<Longrightarrow> rev_file q = rev_file r \<Longrightarrow> rev_chain q \<le> rev_chain r"
  shows "rows_ok D A (rows @ [r])"
proof -
  have less: "rev_id q < rev_id r" if "q \<in> set rows" for q
    using that next_rowid_greater [of "rev_id q" "map rev_id rows"] by (simp add: id)
  have "row_ok D A (rows @ [r]) q" if q: "q \<in> set rows" for q
  proof -
    have old: "row_ok D A rows q"
      using ok q by (simp add: rows_ok_def)
    then obtain n c where "denotes D rows n q c" "n \<le> chain_len rows q" "length c = rev_size q"
      by (auto simp: row_ok_def)
    moreover have "denotes D (rows @ [r]) n q c"
      using calculation(1) by (rule denotes_mono) auto
    moreover have "chain_len (rows @ [r]) q \<le> A"
      using old new chain_len_same [of r q rows] by (auto simp: row_ok_def)
    ultimately show ?thesis
      using old by (auto simp: row_ok_def intro!: exI [of _ n] exI [of _ c])
  qed
  moreover have "chains_ordered (rows @ [r])"
    using ok newest less by (fastforce simp: rows_ok_def chains_ordered_def)
  moreover have "distinct (map rev_id (rows @ [r]))"
    using ok next_rowid_fresh [of "map rev_id rows"] by (simp add: rows_ok_def id)
  ultimately show ?thesis
    using new by (simp add: rows_ok_def)
qed

lemma latest_append:
  assumes "hist_inv D A t" "hs_revisions t = rows @ [r]" "rev_id r = next_rowid (map rev_id rows)"
  shows "latest_revision (rev_file r) t = Some r"
proof (rule latest_revisionI)
  show "rev_id q \<le> rev_id r" if "q \<in> set (hs_revisions t)" for q
    using that assms next_rowid_greater [of "rev_id q" "map rev_id rows"] by (auto simp: less_imp_le)
qed (use assms in \<open>auto simp: hist_inv_def rows_ok_def\<close>)

lemma insert_snapshot_ok:
  assumes inv: "hist_inv D A s" and D: "codec_ok D" and A: "1 \<le> A" and known: "file \<in> fst ` set (hs_files s)"
    and run: "insert_snapshot D file user content created s = (Inr i, t)"
  obtains r where "hs_revisions t = hs_revisions s @ [r]" "hs_files t = hs_files s" "hist_inv D A t"
    "rev_id r = i" "rev_file r = file" "rev_chain r = i" "denotes D (hs_revisions t) 1 r content"
    "chain_len (hs_revisions t) r = 1" "latest_revision file t = Some r"
proof -
  obtain payload where p: "encode_all D content = Some payload"
    using run by (auto simp: insert_snapshot_def split: option.splits)
  define r where "r = \<lparr>rev_id = i, rev_file = file, rev_chain = i, rev_created = created,
    rev_size = length content, rev_user = user, rev_base = None, rev_payload = payload, rev_hash = digest D content\<rparr>"
  have i: "i = next_rowid (map rev_id (hs_revisions s))" and t: "t = s\<lparr>hs_revisions := hs_revisions s @ [r]\<rparr>"
    using run by (auto simp: insert_snapshot_def p r_def Let_def)
  have rows: "rows_ok D A (hs_revisions s)"
    using inv by (simp add: hist_inv_def)
  have less: "rev_chain q < i" if "q \<in> set (hs_revisions s)" for q
    using that rows next_rowid_greater [of "rev_id q" "map rev_id (hs_revisions s)"]
    by (force simp: rows_ok_def row_ok_def i)
  have den: "denotes D (hs_revisions s @ [r]) 1 r content"
    using codec_okD [OF D] p by (auto simp: r_def intro: denotes.snapshot)
  have len: "chain_len (hs_revisions s @ [r]) r = 1"
    using less by (auto simp: chain_len_def r_def filter_empty_conv)
  have "row_ok D A (hs_revisions s @ [r]) r"
    using den len A codec_okD(2) [OF D p] by (auto simp: row_ok_def r_def i next_rowid_def simp del: chain_len_append)
  then have "rows_ok D A (hs_revisions s @ [r])"
    using less by (intro rows_ok_append rows) (auto simp: r_def i less_imp_le)
  then have "hist_inv D A t"
    using inv known by (auto simp: hist_inv_def files_ok_def t r_def)
  with den len latest_append [of D A t "hs_revisions s" r] show ?thesis
    by (intro that [of r]) (auto simp: t r_def i)
qed

lemma insert_delta_ok:
  assumes inv: "hist_inv D A s" and D: "codec_ok D"
    and base: "b \<in> set (hs_revisions s)" "rev_file b = file" "denotes D (hs_revisions s) n b old"
      "n \<le> chain_len (hs_revisions s) b" "chain_len (hs_revisions s) b < A"
    and newest: "\<And>q. q \<in> set (hs_revisions s) \<Longrightarrow> rev_file q = file \<Longrightarrow> rev_chain q \<le> rev_chain b"
    and run: "insert_delta D file (rev_id b) (rev_chain b) old user content created s = (Inr i, t)"
  obtains r where "hs_revisions t = hs_revisions s @ [r]" "hs_files t = hs_files s" "hist_inv D A t"
    "rev_id r = i" "rev_file r = file" "rev_chain r = rev_chain b"
    "denotes D (hs_revisions t) (Suc n) r content" "Suc n \<le> chain_len (hs_revisions t) r"
    "latest_revision file t = Some r"
proof -
  obtain payload where p: "encode_with_dictionary D content old = Some payload"
    using run by (auto simp: insert_delta_def split: option.splits)
  define r where "r = \<lparr>rev_id = i, rev_file = file, rev_chain = rev_chain b, rev_created = created,
    rev_size = length content, rev_user = user, rev_base = Some (rev_id b), rev_payload = payload,
    rev_hash = digest D content\<rparr>"
  have i: "i = next_rowid (map rev_id (hs_revisions s))" and t: "t = s\<lparr>hs_revisions := hs_revisions s @ [r]\<rparr>"
    using run by (auto simp: insert_delta_def p r_def Let_def)
  have rows: "rows_ok D A (hs_revisions s)"
    using inv by (simp add: hist_inv_def)
  have "rev_id b < i" "rev_chain b \<le> rev_id b"
    using rows base(1) next_rowid_greater [of "rev_id b" "map rev_id (hs_revisions s)"]
    by (auto simp: rows_ok_def row_ok_def i)
  moreover have den: "denotes D (hs_revisions s @ [r]) (Suc n) r content"
    using denotes_mono [OF base(3), of "hs_revisions s @ [r]"] base codec_okD [OF D] p
    by (auto simp: r_def intro!: denotes.delta [of _ _ b])
  moreover have len: "chain_len (hs_revisions s @ [r]) r = Suc (chain_len (hs_revisions s) b)"
    using chain_len_same [of r b] base(2) by (simp add: r_def)
  ultimately have "row_ok D A (hs_revisions s @ [r]) r"
    using base codec_okD(4) [OF D p] by (auto simp: row_ok_def r_def simp del: chain_len_append)
  then have "rows_ok D A (hs_revisions s @ [r])"
    using newest by (intro rows_ok_append rows) (auto simp: r_def i)
  then have "hist_inv D A t"
    using inv base(1,2) by (auto simp: hist_inv_def files_ok_def t r_def)
  with den len base(4) latest_append [of D A t "hs_revisions s" r] show ?thesis
    by (intro that [of r]) (auto simp: t r_def i)
qed

section \<open>Removing whole chains\<close>

definition trimmed :: "nat \<Rightarrow> nat \<Rightarrow> 'h hist_storage \<Rightarrow> 'h hist_storage \<Rightarrow> bool" where
  "trimmed file chain s t \<longleftrightarrow>
     hs_files t = hs_files s \<and>
     (\<exists>P. P file chain \<and> hs_revisions t = filter (\<lambda>r. P (rev_file r) (rev_chain r)) (hs_revisions s))"

lemma trimmed_refl [simp]: "trimmed file chain s s"
  unfolding trimmed_def by (auto intro!: exI [of _ "\<lambda>_ _. True"])

lemma trimmed_trans: "trimmed file chain s t \<Longrightarrow> trimmed file chain t u \<Longrightarrow> trimmed file chain s u"
  unfolding trimmed_def by (clarsimp, rule_tac x = "\<lambda>f c. P f c \<and> Pa f c" in exI) (auto simp: conj_commute)

lemma trimmed_delete:
  "\<not> P file chain \<Longrightarrow> trimmed file chain s (delete_where (\<lambda>r. P (rev_file r) (rev_chain r)) s)"
  unfolding trimmed_def delete_where_def by (auto intro!: exI [of _ "\<lambda>f c. \<not> P f c"])

lemma rows_ok_filter:
  assumes "rows_ok D A rows"
  shows "rows_ok D A (filter (\<lambda>r. P (rev_file r) (rev_chain r)) rows)"
proof -
  have "row_ok D A (filter (\<lambda>r. P (rev_file r) (rev_chain r)) rows) r"
    if "row_ok D A rows r" "P (rev_file r) (rev_chain r)" for r
    using that chain_len_filter [of P r rows, OF that(2)] denotes_filter [of D rows _ r _ P] 
    by (fastforce simp: row_ok_def)
  then show ?thesis
    using assms by (auto simp: rows_ok_def chains_ordered_def distinct_map_filter)
qed

lemma hist_inv_filter:
  assumes "hist_inv D A s" "hs_revisions t = filter (\<lambda>r. P (rev_file r) (rev_chain r)) (hs_revisions s)" "files_ok t"
  shows "hist_inv D A t"
  using assms rows_ok_filter [of D A "hs_revisions s" P] by (simp add: hist_inv_def)

lemma trimmed_inv:
  assumes "hist_inv D A s" "trimmed file chain s t"
  shows "hist_inv D A t"
proof -
  obtain P where "hs_revisions t = filter (\<lambda>r. P (rev_file r) (rev_chain r)) (hs_revisions s)" "hs_files t = hs_files s"
    using assms(2) by (auto simp: trimmed_def)
  with assms(1) show ?thesis
    by (intro hist_inv_filter [of D A s t P]) (auto simp: hist_inv_def files_ok_def)
qed

lemma trimmed_sub: "trimmed file chain s t \<Longrightarrow> set (hs_revisions t) \<subseteq> set (hs_revisions s)"
  by (auto simp: trimmed_def)

lemma trimmed_keeps:
  assumes "trimmed (rev_file r) (rev_chain r) s t" "denotes D (hs_revisions s) n r c"
  shows "denotes D (hs_revisions t) n r c" "chain_len (hs_revisions t) r = chain_len (hs_revisions s) r"
  using assms denotes_filter [of D "hs_revisions s" n r c] chain_len_filter [of _ r "hs_revisions s"]
  by (auto simp: trimmed_def)

lemma trimmed_latest:
  assumes "hist_inv D A s" "trimmed (rev_file r) (rev_chain r) s t" "latest_revision (rev_file r) s = Some r"
  shows "latest_revision (rev_file r) t = Some r"
proof (rule latest_revisionI)
  show "distinct (map rev_id (hs_revisions t))"
    using trimmed_inv [OF assms(1,2)] by (simp add: hist_inv_def rows_ok_def)
  show "r \<in> set (hs_revisions t)"
    using assms(2) latest_revision_Some(1) [OF assms(3)] by (auto simp: trimmed_def)
qed (use trimmed_sub [OF assms(2)] latest_revision_Some(3) [OF assms(3)] in auto)

section \<open>Retention\<close>

lemma chains_of_iff:
  "c \<in> set (chains_of file s) \<longleftrightarrow> (\<exists>r\<in>set (hs_revisions s). rev_file r = file \<and> rev_chain r = c)"
  by (auto simp: chains_of_def rows_of_def)

lemma prune_trimmed:
  assumes "\<And>q. q \<in> set (hs_revisions s) \<Longrightarrow> rev_file q = file \<Longrightarrow> rev_chain q \<le> chain"
  shows "trimmed file chain s (snd (prune_old_chains file keep s))"
proof -
  define chains where "chains = take keep (rev (sort (chains_of file s)))"
  have "\<not> chain < last chains" if "keep \<noteq> 0" "\<not> length chains < keep"
  proof -
    have "chains \<noteq> []"
      using that by auto
    then have "last chains \<in> set (chains_of file s)"
      using in_set_takeD [of "last chains" keep "rev (sort (chains_of file s))"] by (simp add: chains_def)
    then show ?thesis
      using assms by (force simp: chains_of_iff not_less)
  qed
  then show ?thesis
    using trimmed_delete [of "\<lambda>f c. f = file \<and> c < last chains" "file" chain s]
    by (auto simp: prune_old_chains_def Let_def chains_def [symmetric])
qed

lemma drop_chain_trimmed: "(f, c) \<noteq> (file, chain) \<Longrightarrow> trimmed file chain s (snd (drop_chain f c s))"
  using trimmed_delete [of "\<lambda>f' c'. f' = f \<and> c' = c" "file" chain s]
  by (auto simp: drop_chain_def)

lemma drop_oldest_trimmed: "trimmed file chain s (snd (drop_oldest_chain file (Some chain) keep s))"
proof -
  have "c \<noteq> chain" if "sort (filter (\<lambda>c. Some chain \<noteq> Some c) (chains_of file s)) = c # cs" for c cs
    using arg_cong [OF that, of set] by auto
  then show ?thesis
    by (auto simp: drop_oldest_chain_def intro!: drop_chain_trimmed split: list.splits)
qed

lemma drop_globally_trimmed:
  "trimmed file chain s (snd (drop_globally_oldest_chain (Some (file, chain)) s))"
proof -
  have "(f, c) \<noteq> (file, chain)" if "droppable (Some (file, chain)) s = (f, c) # ks" for f c ks
    using arg_cong [OF that, of set] by (auto simp: droppable_def)
  then show ?thesis
    by (auto simp: drop_globally_oldest_chain_def intro!: drop_chain_trimmed split: list.splits)
qed

lemma shrink_file_trimmed: "trimmed file chain s (shrink_file file (Some chain) keep budget s)"
proof (induction "file" "Some chain" keep budget s rule: shrink_file.induct)
  case (1 "file" keep budget s)
  then show ?case
    using drop_oldest_trimmed [of "file" chain s keep] trimmed_trans
    by (subst shrink_file.simps) (auto split: if_splits)
qed

lemma shrink_server_trimmed: "trimmed file chain s (shrink_server (Some (file, chain)) budget s)"
proof (induction "Some (file, chain)" budget s rule: shrink_server.induct)
  case (1 budget s)
  then show ?case
    using drop_globally_trimmed [of "file" chain s] trimmed_trans
    by (subst shrink_server.simps) (auto split: if_splits)
qed

lemma retention_trimmed:
  assumes "hist_inv D A s" "latest_revision (rev_file r) s = Some r"
  shows "trimmed (rev_file r) (rev_chain r) s (apply_retention cfg (rev_file r) s)"
proof -
  have "trimmed (rev_file r) (rev_chain r) s (snd (prune_old_chains (rev_file r) (max (keep_chains cfg) 1) s))"
    using latest_chain_newest [OF assms] by (rule prune_trimmed)
  then show ?thesis
    using assms(2) trimmed_trans [OF trimmed_trans [OF _ shrink_file_trimmed] shrink_server_trimmed]
    by (simp add: apply_retention_def latest_chain_id_def Let_def)
qed

section \<open>Recording an edit\<close>

definition yields :: "'h hist_deps \<Rightarrow> nat \<Rightarrow> nat \<Rightarrow> byte list \<Rightarrow> 'h hist_storage \<Rightarrow> bool" where
  "yields D file i content s \<longleftrightarrow>
     (\<exists>r n. latest_revision file s = Some r \<and> rev_id r = i \<and> denotes D (hs_revisions s) n r content \<and>
            n \<le> chain_len (hs_revisions s) r)"

lemma yieldsI:
  "latest_revision file s = Some r \<Longrightarrow> denotes D (hs_revisions s) n r content \<Longrightarrow>
   n \<le> chain_len (hs_revisions s) r \<Longrightarrow> yields D file (rev_id r) content s"
  by (auto simp: yields_def)

lemma insert_fails:
  "insert_snapshot D file user content created s = (Inl e, t) \<Longrightarrow> t = s"
  "insert_delta D file b ch old user content created s = (Inl e, t) \<Longrightarrow> t = s"
  by (auto simp: insert_snapshot_def insert_delta_def Let_def split: option.splits)

lemma snapshot_step:
  assumes "hist_inv D A s" "codec_ok D" "1 \<le> A" "file \<in> fst ` set (hs_files s)"
    and run: "insert_snapshot D file user content created s = (res, t)"
  shows "hist_inv D A t \<and> hs_files t = hs_files s \<and> (\<forall>i. res = Inr i \<longrightarrow> yields D file i content t)"
proof (cases res)
  case (Inl e)
  with run assms(1) show ?thesis
    by (auto dest!: insert_fails)
next
  case (Inr i)
  then show ?thesis
    using insert_snapshot_ok [OF assms(1-4), of user content created i t] run yieldsI [of "file" t _ D 1 content]
    by (metis order_refl sum.inject(2))
qed

lemma delta_step:
  assumes "hist_inv D A s" "codec_ok D" and latest: "latest_revision file s = Some b"
    and base: "denotes D (hs_revisions s) n b old" "n \<le> chain_len (hs_revisions s) b" "chain_len (hs_revisions s) b < A"
    and run: "insert_delta D file (rev_id b) (rev_chain b) old user content created s = (res, t)"
  shows "hist_inv D A t \<and> hs_files t = hs_files s \<and> (\<forall>i. res = Inr i \<longrightarrow> yields D file i content t)"
proof (cases res)
  case (Inl e)
  with run assms(1) show ?thesis
    by (auto dest!: insert_fails)
next
  case (Inr i)
  then show ?thesis
    using insert_delta_ok [OF assms(1,2) latest_revision_Some(1,2) [OF latest] base, of user content created i t]
      latest_chain_newest [OF assms(1) latest] run yieldsI [of "file" t _ D "Suc n" content]
    by (metis sum.inject(2))
qed

lemma first_revision_step:
  assumes "hist_inv D A s" "codec_ok D" "2 \<le> A" "file \<in> fst ` set (hs_files s)"
    and run: "first_revision D now file before after user s = (res, t)"
  shows "hist_inv D A t \<and> hs_files t = hs_files s \<and> (\<forall>i. res = Inr i \<longrightarrow> yields D file i after t)"
proof -
  have one: "1 \<le> A"
    using assms(3) by simp
  show ?thesis
  proof (cases "\<exists>old. before = Some old \<and> old \<noteq> after")
    case False
    then have "insert_snapshot D file user after now s = (res, t)"
      using run by (auto simp: first_revision_def split: option.splits if_splits)
    then show ?thesis
      by (rule snapshot_step [OF assms(1,2) one assms(4)])
  next
    case True
    then obtain old where old: "before = Some old" "old \<noteq> after"
      by blast
    obtain r1 u where ins: "insert_snapshot D file None old (now - 1) s = (r1, u)"
      by (meson surj_pair)
    show ?thesis
    proof (cases r1)
      case (Inl e)
      then show ?thesis
        using run ins old assms(1) by (auto simp: first_revision_def dest!: insert_fails)
    next
      case (Inr b)
      obtain r where r: "hs_files u = hs_files s" "hist_inv D A u" "rev_id r = b" "rev_file r = file" "rev_chain r = b"
        "denotes D (hs_revisions u) 1 r old" "chain_len (hs_revisions u) r = 1" "latest_revision file u = Some r"
        using insert_snapshot_ok [OF assms(1,2) one assms(4)] ins Inr by metis
      have "insert_delta D file (rev_id r) (rev_chain r) old user after now u = (res, t)"
        using run ins Inr old r by (simp add: first_revision_def)
      then show ?thesis
        using delta_step [OF r(2) assms(2) r(8) r(6), of user after now res t] r assms(3) by simp
    qed
  qed
qed

lemma next_revision_step:
  assumes "hist_inv D A s" "codec_ok D" "1 \<le> A" "A \<le> max_chain" "anchor \<le> A" "file \<in> fst ` set (hs_files s)"
    and latest: "latest_revision file s = Some prev"
    and run: "next_revision D anchor now file prev after user s = (res, t)"
  shows "hist_inv D A t \<and> hs_files t = hs_files s \<and> (\<forall>i. res = Inr i \<longrightarrow> yields D file i after t)"
proof -
  note snap = snapshot_step [OF assms(1-3,6), of user after now res t]
  obtain n c where c: "denotes D (hs_revisions s) n prev c" "n \<le> chain_len (hs_revisions s) prev"
    using assms(1) latest_revision_Some(1) [OF latest] by (auto simp: hist_inv_def rows_ok_def row_ok_def)
  have rec: "reconstruct D (rev_id prev) s = Inr c"
    using readable [OF assms(1,4) c] .
  have len: "chain_len (hs_revisions s) prev < A" if "\<not> anchor \<le> current_chain_length file s"
    using that assms(5) current_chain_length_latest [OF latest] by simp
  show ?thesis
    using run snap delta_step [OF assms(1,2) latest c len, of user after now res t] assms(1)
    by (auto simp: next_revision_def rec split: if_splits option.splits)
qed

lemma denoted_by_hash:
  assumes "hist_inv D A s" "codec_ok D" "latest_revision file s = Some prev" "rev_hash prev = digest D after"
  shows "yields D file (rev_id prev) after s"
proof -
  obtain n c where c: "denotes D (hs_revisions s) n prev c" "n \<le> chain_len (hs_revisions s) prev"
    using assms(1) latest_revision_Some(1) [OF assms(3)] by (auto simp: hist_inv_def rows_ok_def row_ok_def)
  then have "c = after"
    using assms(2,4) denotes_row [OF c(1)] codec_okD(5) [OF assms(2)] by metis
  with c show ?thesis
    using yieldsI [OF assms(3)] by blast
qed

lemma new_revision_step:
  assumes "hist_inv D A s" "codec_ok D" "2 \<le> A" "A \<le> max_chain" "anchor \<le> A" "file \<in> fst ` set (hs_files s)"
    and run: "new_revision D anchor now file before after user s = (res, t)"
  shows "hist_inv D A t \<and> hs_files t = hs_files s \<and>
         (\<forall>i. res = Inr (Recorded i) \<or> res = Inr (Unchanged i) \<longrightarrow> yields D file i after t)"
proof (cases "latest_revision file s")
  case None
  obtain r where "first_revision D now file before after user s = (r, t)" "res = map_sum id Recorded r"
    using run None by (auto simp: new_revision_def tag_recorded_def map_prod_def split: prod.splits)
  then show ?thesis
    using first_revision_step [OF assms(1-3,6)] by (cases r) auto
next
  case (Some prev)
  have one: "1 \<le> A"
    using assms(3) by simp
  show ?thesis
  proof (cases "rev_hash prev = digest D after")
    case True
    then show ?thesis
      using run Some assms(1) denoted_by_hash [OF assms(1,2) Some] by (auto simp: new_revision_def)
  next
    case False
    obtain r where "next_revision D anchor now file prev after user s = (r, t)" "res = map_sum id Recorded r"
      using run Some False by (auto simp: new_revision_def tag_recorded_def map_prod_def split: prod.splits)
    then show ?thesis
      using next_revision_step [OF assms(1,2) one assms(4-6) Some] by (cases r) auto
  qed
qed

lemma retention_yields:
  assumes "hist_inv D A s" "yields D file i content s"
  shows "hist_inv D A (apply_retention cfg file s) \<and> yields D file i content (apply_retention cfg file s) \<and>
         hs_files (apply_retention cfg file s) = hs_files s"
proof -
  obtain r n where r: "latest_revision file s = Some r" "rev_id r = i" "denotes D (hs_revisions s) n r content"
    "n \<le> chain_len (hs_revisions s) r"
    using assms(2) by (auto simp: yields_def)
  have f: "rev_file r = file"
    using latest_revision_Some(2) [OF r(1)] .
  have tr: "trimmed (rev_file r) (rev_chain r) s (apply_retention cfg (rev_file r) s)"
    using retention_trimmed [OF assms(1), of r cfg] r(1) f by simp
  then show ?thesis
    using trimmed_inv [OF assms(1) tr] trimmed_latest [OF assms(1) tr] trimmed_keeps [OF tr r(3)] r f
    by (auto simp: trimmed_def intro: yieldsI)
qed

lemma find_append: "find P (xs @ ys) = (case find P xs of None \<Rightarrow> find P ys | Some x \<Rightarrow> Some x)"
  by (induction xs) auto

lemma find_in: "find P xs = Some x \<Longrightarrow> x \<in> set xs \<and> P x"
  by (induction xs) (auto split: if_splits)

lemma find_file_in: "find_file path s = Some i \<Longrightarrow> (i, path) \<in> set (hs_files s)"
  by (auto simp: find_file_def dest!: find_in)

lemma upsert_file_step:
  assumes "hist_inv D A s" "upsert_file path s = (file, t)"
  shows "hist_inv D A t" "file \<in> fst ` set (hs_files t)" "find_file path t = Some file"
proof -
  have "hist_inv D A t \<and> file \<in> fst ` set (hs_files t) \<and> find_file path t = Some file"
  proof (cases "find_file path s")
    case None
    then have t: "t = s\<lparr>hs_files := hs_files s @ [(next_rowid (map fst (hs_files s)), path)]\<rparr>"
        "file = next_rowid (map fst (hs_files s))"
      using assms(2) by (auto simp: upsert_file_def Let_def)
    have "path \<notin> snd ` set (hs_files s)"
      using None by (auto simp: find_file_def find_None_iff)
    then show ?thesis
      using assms(1) next_rowid_fresh [of "map fst (hs_files s)"] None
      by (auto simp: t hist_inv_def files_ok_def find_file_def find_append)
  next
    case (Some i)
    then have "t = s" "i = file"
      using assms(2) by (auto simp: upsert_file_def)
    then show ?thesis
      using assms(1) Some find_file_in [OF Some] by (auto intro: rev_image_eqI)
  qed
  then show "hist_inv D A t" "file \<in> fst ` set (hs_files t)" "find_file path t = Some file"
    by auto
qed

lemma record_in_storage_step:
  assumes "hist_inv D A s" "codec_ok D" "2 \<le> A" "A \<le> max_chain" "anchor_interval cfg \<le> A"
    and run: "record_in_storage D cfg now path before after user s = (res, t)"
  shows "hist_inv D A t \<and> (\<forall>i. res = Inr i \<longrightarrow> (\<exists>file. find_file path t = Some file \<and> yields D file i after t))"
proof -
  obtain "file" u where up: "upsert_file path s = (file, u)"
    by (meson surj_pair)
  obtain r v where new: "new_revision D (max (anchor_interval cfg) 1) now file before after user u = (r, v)"
    by (meson surj_pair)
  have v: "hist_inv D A v \<and> hs_files v = hs_files u \<and>
      (\<forall>i. r = Inr (Recorded i) \<or> r = Inr (Unchanged i) \<longrightarrow> yields D file i after v)"
    using new_revision_step [OF upsert_file_step(1) [OF assms(1) up] assms(2-4) _ upsert_file_step(2) [OF assms(1) up] new]
      assms(3,5) by simp
  have found: "find_file path w = Some file" if "hs_files w = hs_files u" for w :: "'a hist_storage"
    using upsert_file_step(3) [OF assms(1) up] that by (simp add: find_file_def)
  show ?thesis
    using run v found retention_yields [of D A v "file" _ after cfg]
    by (auto simp: record_in_storage_def up new simp del: One_nat_def split: sum.splits recorded.splits)
qed

lemma yields_readable:
  assumes "hist_inv D A s" "A \<le> max_chain" "yields D file i content s"
  shows "reconstruct D i s = Inr content"
  using assms(3) readable [OF assms(1,2)] by (auto simp: yields_def)

section \<open>The other operations\<close>

lemma delete_file_inv:
  assumes "hist_inv D A s"
  shows "hist_inv D A (delete_file path s)"
proof -
  have keep: "rev_file r \<in> fst ` {e \<in> set (hs_files s). snd e \<noteq> path}"
    if "r \<in> set (hs_revisions s)" "rev_file r \<notin> fst ` {e \<in> set (hs_files s). snd e = path}" for r
    using that assms by (force simp: hist_inv_def files_ok_def)
  show ?thesis
  proof (rule hist_inv_filter [OF assms, of _ "\<lambda>f c. f \<notin> fst ` {e \<in> set (hs_files s). snd e = path}"])
    show "hs_revisions (delete_file path s) =
        filter (\<lambda>r. rev_file r \<notin> fst ` {e \<in> set (hs_files s). snd e = path}) (hs_revisions s)"
      by (simp add: delete_file_def delete_where_def Let_def)
    show "files_ok (delete_file path s)"
      using assms keep
      by (auto simp: hist_inv_def files_ok_def delete_file_def delete_where_def Let_def distinct_map_filter)
  qed
qed

lemma storage_rename_inv:
  assumes "hist_inv D A s"
  shows "hist_inv D A (snd (storage_rename old new s))"
proof -
  let ?f = "\<lambda>(i::nat, p). (i, if p = old then new else p)"
  have fsts: "map fst (map ?f xs) = map fst xs" "fst ` set (map ?f xs) = fst ` set xs" for xs
    by (induction xs) auto
  have "distinct (map snd (map ?f xs))"
    if "distinct (map snd xs)" "old = new \<or> old \<notin> set (map snd xs) \<or> new \<notin> set (map snd xs)" for xs
  proof -
    have "map snd (map ?f xs) = map (\<lambda>p. if p = old then new else p) (map snd xs)"
      by (induction xs) auto
    moreover have "inj_on (\<lambda>p. if p = old then new else p) (set (map snd xs))"
      using that(2) unfolding inj_on_def by metis
    ultimately show ?thesis
      using that(1) by (simp only: distinct_map [of _ "map snd xs"])
  qed
  moreover have "q \<notin> set (map snd (hs_files s))" if "find_file q s = None" for q
    using that by (auto simp: find_file_def find_None_iff)
  ultimately show ?thesis
    using assms fsts [of "hs_files s"]
    by (auto simp: storage_rename_def hist_inv_def files_ok_def simp del: map_map set_map)
qed

lemma storage_clear_inv: "hist_inv D A (storage_clear s)"
  by (simp add: storage_clear_def hist_inv_def rows_ok_def chains_ordered_def files_ok_def)

end
