(* ===== verification/FileHistorySafety.thy ===== *)
theory FileHistorySafety
  imports FileHistoryLaws
begin

text \<open>
  What the file history promises over whole runs of its manager: the operations of \<open>DiffManager\<close> and
  the moments at which the delayed deletions fire are the steps of \<open>hist_step\<close>, and a state is reachable
  when some sequence of them leads to it from an empty database.
\<close>

section \<open>Runs of the manager\<close>

datatype hist_op =
    OpRecord bool int string "byte list option" "byte list" "nat option"
  | OpForget bool string "byte list option"
  | OpWake nat
  | OpDelete nat
  | OpRename bool string string
  | OpClear bool
  | OpClose
  | OpDestroy
  | OpMaintain
  | OpImport
  | OpDrop

fun hist_step :: "'h hist_deps \<Rightarrow> hist_config \<Rightarrow> hist_op \<Rightarrow> 'h diff_manager \<Rightarrow> 'h diff_manager" where
  "hist_step D cfg (OpRecord opens now path before after user) m = snd (record_edit D cfg opens now path before after user m)"
| "hist_step D cfg (OpForget opens path before) m = forget_file cfg opens path before m"
| "hist_step D cfg (OpWake i) m = forget_wakes i m"
| "hist_step D cfg (OpDelete i) m = forget_deletes i m"
| "hist_step D cfg (OpRename opens old new) m = snd (rename_file cfg opens old new m)"
| "hist_step D cfg (OpClear opens) m = clear_history cfg opens m"
| "hist_step D cfg OpClose m = close_history m"
| "hist_step D cfg OpDestroy m = destroy_history m"
| "hist_step D cfg OpMaintain m = maintain m"
| "hist_step D cfg OpImport m = prepare_import m"
| "hist_step D cfg OpDrop m = drop_manager m"

definition hist_run :: "'h hist_deps \<Rightarrow> hist_config \<Rightarrow> hist_op list \<Rightarrow> 'h diff_manager" where
  "hist_run D cfg ops = fold (hist_step D cfg) ops (diff_manager_new storage_open)"

definition forget_ids_ok :: "'h diff_manager \<Rightarrow> bool" where
  "forget_ids_ok m \<longleftrightarrow>
     (\<forall>t\<in>set (dm_asleep m) \<union> set (dm_deleting m). fst t < dm_seq m) \<and>
     (\<forall>p\<in>set (dm_pending m). pf_id (snd p) < dm_seq m)"

definition manager_inv :: "'h hist_deps \<Rightarrow> 'h diff_manager \<Rightarrow> bool" where
  "manager_inv D m \<longleftrightarrow> hist_inv D max_chain (dm_db m) \<and> forget_ids_ok m"

lemma ensure_open_parts:
  "ensure_open cfg opens m = (b, m') \<Longrightarrow>
   dm_db m' = dm_db m \<and> dm_pending m' = dm_pending m \<and> dm_seq m' = dm_seq m \<and> dm_asleep m' = dm_asleep m \<and>
   dm_deleting m' = dm_deleting m \<and> dm_aborted m' = dm_aborted m \<and> (b \<longrightarrow> dm_open m' \<and> hc_enabled cfg)"
  by (auto simp: ensure_open_def split: if_splits)

lemma ensure_open_enabled: "hc_enabled cfg \<Longrightarrow> \<exists>m'. ensure_open cfg True m = (True, m')"
  by (simp add: ensure_open_def)

lemma ensure_open_inv: "manager_inv D m \<Longrightarrow> ensure_open cfg opens m = (b, m') \<Longrightarrow> manager_inv D m'"
  using ensure_open_parts [of cfg opens m b m'] by (simp add: manager_inv_def forget_ids_ok_def)

lemma db_inv: "manager_inv D m \<Longrightarrow> hist_inv D max_chain db \<Longrightarrow> manager_inv D (m\<lparr>dm_db := db\<rparr>)"
  by (simp add: manager_inv_def forget_ids_ok_def)

lemma set_update: "x \<in> set (AList.update k v xs) \<Longrightarrow> x = (k, v) \<or> x \<in> set xs"
  by (induction xs) (auto split: if_splits)

lemma abort_forget_inv: "manager_inv D m \<Longrightarrow> manager_inv D (abort_forget i m)"
  by (auto simp: manager_inv_def forget_ids_ok_def abort_forget_def)

lemma record_edit_inv:
  assumes "codec_ok D" "anchor_interval cfg \<le> max_chain" "manager_inv D m"
    and run: "record_edit D cfg opens now path before after user m = (res, m')"
  shows "manager_inv D m'"
proof -
  obtain b u where u: "ensure_open cfg opens m = (b, u)"
    by (meson surj_pair)
  obtain r db where r: "record_in_storage D cfg now path before after user (dm_db u) = (r, db)"
    by (meson surj_pair)
  have inv: "manager_inv D u"
    using ensure_open_inv [OF assms(3) u] .
  have "hist_inv D max_chain db"
    using record_in_storage_step [OF _ assms(1) _ order_refl assms(2) r] inv by (simp add: manager_inv_def max_chain_def)
  then show ?thesis
    using run inv db_inv [OF inv] by (auto simp: record_edit_def u r split: bool.splits)
qed

lemma rename_file_inv:
  assumes "manager_inv D m"
  shows "manager_inv D (snd (rename_file cfg opens old new m))"
proof -
  obtain p u where u: "cancel_pending_forget new m = (p, u)"
    by (meson surj_pair)
  have inv: "manager_inv D u"
    using assms u abort_forget_inv [of D "m\<lparr>dm_pending := AList.delete new (dm_pending m)\<rparr>"]
    by (auto simp: cancel_pending_forget_def manager_inv_def forget_ids_ok_def AList.delete_eq split: option.splits)
  obtain b v where v: "ensure_open cfg opens u = (b, v)"
    by (meson surj_pair)
  have "manager_inv D (v\<lparr>dm_db := snd (storage_rename old new (dm_db v))\<rparr>)" "manager_inv D v"
    using ensure_open_inv [OF inv v] storage_rename_inv [of D max_chain "dm_db v" old new] db_inv
    by (auto simp: manager_inv_def)
  then show ?thesis
    by (auto simp: rename_file_def u v split: bool.splits prod.splits sum.splits)
qed

lemma forget_file_inv:
  assumes "manager_inv D m"
  shows "manager_inv D (forget_file cfg opens path before m)"
proof -
  obtain b u where u: "ensure_open cfg opens m = (b, u)"
    by (meson surj_pair)
  define v where "v = u\<lparr>dm_seq := dm_seq u + 1, dm_asleep := dm_asleep u @ [(dm_seq u, path)],
    dm_pending := AList.update path \<lparr>pf_id = dm_seq u, pf_before = before\<rparr> (dm_pending u)\<rparr>"
  have inv: "manager_inv D u"
    using ensure_open_inv [OF assms u] .
  then have "manager_inv D v"
    by (auto simp: v_def manager_inv_def forget_ids_ok_def less_Suc_eq dest!: set_update)
  then have "manager_inv D (abort_old p v)" for p
    by (simp add: abort_old_def abort_forget_inv split: option.splits)
  then show ?thesis
    using inv by (simp add: forget_file_def u Let_def v_def split: bool.splits)
qed

lemma hist_step_inv:
  assumes "codec_ok D" "anchor_interval cfg \<le> max_chain" "manager_inv D m"
  shows "manager_inv D (hist_step D cfg op m)"
proof (cases op)
  case (OpRecord opens now path before after user)
  then show ?thesis
    using record_edit_inv [OF assms] by (metis hist_step.simps(1) surjective_pairing)
next
  case (OpForget opens path before)
  then show ?thesis
    using forget_file_inv [OF assms(3)] by simp
next
  case (OpWake i)
  then show ?thesis
    using assms(3) by (auto simp: forget_wakes_def manager_inv_def forget_ids_ok_def)
next
  case (OpDelete i)
  then show ?thesis
    using assms(3) delete_file_inv
    by (auto simp: forget_deletes_def manager_inv_def forget_ids_ok_def AList.delete_eq split: option.splits)
next
  case (OpRename opens old new)
  then show ?thesis
    using rename_file_inv [OF assms(3)] by simp
next
  case (OpClear opens)
  obtain b u where u: "ensure_open cfg opens m = (b, u)"
    by (meson surj_pair)
  then show ?thesis
    using OpClear ensure_open_inv [OF assms(3) u]
    by (auto simp: clear_history_def intro: db_inv storage_clear_inv split: bool.splits)
next
  case OpClose
  then show ?thesis
    using assms(3) by (simp add: close_history_def manager_inv_def forget_ids_ok_def)
next
  case OpDestroy
  then show ?thesis
    using assms(3) hist_inv_open by (simp add: destroy_history_def close_history_def manager_inv_def forget_ids_ok_def)
next
  case OpMaintain
  then show ?thesis
    using assms(3) by (auto simp: maintain_def manager_inv_def forget_ids_ok_def)
next
  case OpImport
  then show ?thesis
    using assms(3) hist_inv_open by (simp add: prepare_import_def manager_inv_def forget_ids_ok_def)
next
  case OpDrop
  have "manager_inv D (fold (\<lambda>p. abort_forget (pf_id (snd p))) ps n)" if "manager_inv D n" for n and ps :: "(string \<times> pending_forget) list"
    using that by (induction ps arbitrary: n) (simp_all add: abort_forget_inv)
  moreover have "manager_inv D (m\<lparr>dm_pending := []\<rparr>)"
    using assms(3) by (simp add: manager_inv_def forget_ids_ok_def)
  ultimately show ?thesis
    using OpDrop by (simp add: drop_manager_def)
qed

lemma hist_run_inv:
  assumes "codec_ok D" "anchor_interval cfg \<le> max_chain"
  shows "manager_inv D (hist_run D cfg ops)"
proof -
  have "manager_inv D (fold (hist_step D cfg) ops m)" if "manager_inv D m" for m
    using that by (induction ops arbitrary: m) (simp_all add: hist_step_inv [OF assms])
  then show ?thesis
    by (simp add: hist_run_def diff_manager_new_def manager_inv_def forget_ids_ok_def hist_inv_open)
qed

section \<open>Retention bounds\<close>

lemma chain_count_card: "chain_count file s = card (set (chains_of file s))"
  by (simp add: chain_count_def chains_of_def length_remdups_card_conv)

lemma chain_count_mono: "set (hs_revisions t) \<subseteq> set (hs_revisions s) \<Longrightarrow> chain_count file t \<le> chain_count file s"
  unfolding chain_count_card by (rule card_mono) (auto simp: chains_of_iff subset_iff)

lemma sorted_desc_take:
  assumes "sorted_wrt (>) (L :: nat list)" "c \<in> set L" "0 < k" "k \<le> length L" "\<not> c < last (take k L)"
  shows "c \<in> set (take k L)"
proof (rule ccontr)
  assume "c \<notin> set (take k L)"
  then have "c \<in> set (drop k L)"
    using assms(2) by (metis Un_iff append_take_drop_id set_append)
  moreover have "last (take k L) \<in> set (take k L)"
    using assms(3,4) by (intro last_in_set) auto
  moreover have "sorted_wrt (>) (take k L @ drop k L)"
    using assms(1) by simp
  ultimately show False
    using assms(5) unfolding sorted_wrt_append by blast
qed

lemma prune_bound:
  assumes "0 < keep"
  shows "chain_count file (snd (prune_old_chains file keep s)) \<le> keep"
proof -
  define L where "L = rev (sort (chains_of file s))"
  have L: "set L = set (chains_of file s)" "length L = chain_count file s"
    by (auto simp: L_def chain_count_def)
  have "distinct L"
    by (simp add: L_def chains_of_def)
  then have desc: "sorted_wrt (>) L"
    by (simp add: L_def sorted_wrt_rev strict_sorted_iff)
  show ?thesis
  proof (cases "length (take keep L) < keep")
    case True
    then show ?thesis
      using assms L(2) by (auto simp: prune_old_chains_def Let_def L_def [symmetric])
  next
    case False
    have "set (chains_of file (snd (prune_old_chains file keep s))) \<subseteq> set (take keep L)"
    proof
      fix c
      assume "c \<in> set (chains_of file (snd (prune_old_chains file keep s)))"
      then have "c \<in> set L" "\<not> c < last (take keep L)"
        using assms False unfolding L(1)
        by (auto simp: prune_old_chains_def Let_def L_def [symmetric] chains_of_iff delete_where_def)
      then show "c \<in> set (take keep L)"
        using sorted_desc_take [OF desc _ assms] False by simp
    qed
    then have "card (set (chains_of file (snd (prune_old_chains file keep s)))) \<le> card (set (take keep L))"
      by (intro card_mono) auto
    also have "\<dots> \<le> keep"
      using card_length [of "take keep L"] by simp
    finally show ?thesis
      by (simp add: chain_count_card)
  qed
qed

lemma shrink_file_idle:
  assumes "chain_count file s \<le> keep"
  shows "shrink_file file protect keep budget s = s"
  using assms by (subst shrink_file.simps) (simp add: drop_oldest_chain_def max_def)

lemma apply_retention_alt:
  "apply_retention cfg file s =
     shrink_server (map_option (Pair file) (latest_chain_id file s)) (per_server_disk_budget cfg)
       (snd (prune_old_chains file (max (keep_chains cfg) 1) s))"
  by (simp add: apply_retention_def Let_def shrink_file_idle prune_bound)

lemma apply_retention_budget: "apply_retention (cfg\<lparr>per_file_disk_budget := budget\<rparr>) = apply_retention cfg"
  by (intro ext) (simp add: apply_retention_alt)

lemma record_in_storage_budget:
  "record_in_storage D (cfg\<lparr>per_file_disk_budget := budget\<rparr>) = record_in_storage D cfg"
  unfolding record_in_storage_def apply_retention_budget by simp

lemma droppable_iff:
  "(f, c) \<in> set (droppable protect s) \<longleftrightarrow>
     protect \<noteq> Some (f, c) \<and> 1 < chain_count f s \<and> (\<exists>r\<in>set (hs_revisions s). rev_file r = f \<and> rev_chain r = c)"
  by (auto simp: droppable_def image_iff)

lemma drop_chain_frees:
  assumes "\<forall>r\<in>set (hs_revisions s). rev_payload r \<noteq> []" "r \<in> set (hs_revisions s)" "rev_file r = f" "rev_chain r = c"
  shows "fst (drop_chain f c s) \<noteq> 0"
proof -
  have "r \<in> set (chain_rows f c s)"
    using assms by (simp add: chain_rows_def)
  then have "length (rev_payload r) \<le> payload_bytes (chain_rows f c s)"
    unfolding payload_bytes_def by (intro member_le_sum_list) auto
  then show ?thesis
    using assms(1,2) by (cases "rev_payload r") (auto simp: drop_chain_def)
qed

lemma drop_globally_stuck:
  assumes "\<forall>r\<in>set (hs_revisions s). rev_payload r \<noteq> []" "fst (drop_globally_oldest_chain protect s) = 0"
  shows "droppable protect s = []"
proof (rule ccontr)
  assume "droppable protect s \<noteq> []"
  then obtain f c ks where k: "droppable protect s = (f, c) # ks"
    by (metis neq_Nil_conv surj_pair)
  then obtain r where "r \<in> set (hs_revisions s)" "rev_file r = f" "rev_chain r = c"
    using droppable_iff [of f c protect s] by auto
  then show False
    using assms drop_chain_frees [OF assms(1)] k by (simp add: drop_globally_oldest_chain_def)
qed

lemma shrink_server_post:
  assumes "\<forall>r\<in>set (hs_revisions s). rev_payload r \<noteq> []"
  shows "total_payload_bytes (shrink_server protect budget s) \<le> budget \<or> droppable protect (shrink_server protect budget s) = []"
  using assms
proof (induction protect budget s rule: shrink_server.induct)
  case (1 protect budget s)
  let ?d = "drop_globally_oldest_chain protect s"
  have stuck: "droppable protect s = [] \<and> snd ?d = s" if "fst ?d = 0"
    using drop_globally_stuck [OF 1(2) that] by (simp add: drop_globally_oldest_chain_def)
  have "\<forall>r\<in>set (hs_revisions (snd ?d)). rev_payload r \<noteq> []"
    using 1(2) by (auto simp: drop_globally_oldest_chain_def drop_chain_def delete_where_def split: list.splits)
  then show ?case
    using 1(1) stuck by (subst (1 2) shrink_server.simps) auto
qed

lemma undroppable_single:
  assumes "droppable (Some (file, c)) s = []" "r \<in> set (hs_revisions s)"
  shows "chain_count (rev_file r) s \<le> 1"
proof (rule ccontr)
  assume many: "\<not> chain_count (rev_file r) s \<le> 1"
  have "rev_chain q = c" if "q \<in> set (hs_revisions s)" "rev_file q = rev_file r" for q
    using droppable_iff [of "rev_file q" "rev_chain q" "Some (file, c)" s] assms(1) that many by auto
  then have "set (chains_of (rev_file r) s) \<subseteq> {c}"
    by (auto simp: chains_of_iff)
  then have "card (set (chains_of (rev_file r) s)) \<le> card {c}"
    by (intro card_mono) auto
  with many show False
    by (simp add: chain_count_card)
qed

lemma retention_bounds:
  assumes "hist_inv D A s" "yields D file i content s"
  shows "chain_count file (apply_retention cfg file s) \<le> max (keep_chains cfg) 1"
    and "total_payload_bytes (apply_retention cfg file s) \<le> per_server_disk_budget cfg \<or>
         (\<forall>r\<in>set (hs_revisions (apply_retention cfg file s)). chain_count (rev_file r) (apply_retention cfg file s) \<le> 1)"
proof -
  obtain r where r: "latest_revision file s = Some r"
    using assms(2) by (auto simp: yields_def)
  define p where "p = snd (prune_old_chains file (max (keep_chains cfg) 1) s)"
  have tr: "trimmed file (rev_chain r) s p"
    unfolding p_def using latest_chain_newest [OF assms(1) r] by (rule prune_trimmed)
  have t: "apply_retention cfg file s = shrink_server (Some (file, rev_chain r)) (per_server_disk_budget cfg) p"
    by (simp add: apply_retention_alt latest_chain_id_def r p_def)
  have "set (hs_revisions (apply_retention cfg file s)) \<subseteq> set (hs_revisions p)"
    unfolding t by (rule trimmed_sub [OF shrink_server_trimmed])
  then have "chain_count file (apply_retention cfg file s) \<le> chain_count file p"
    by (rule chain_count_mono)
  also have "\<dots> \<le> max (keep_chains cfg) 1"
    unfolding p_def by (rule prune_bound) simp
  finally show "chain_count file (apply_retention cfg file s) \<le> max (keep_chains cfg) 1" .
  have "\<forall>r\<in>set (hs_revisions p). rev_payload r \<noteq> []"
    using trimmed_inv [OF assms(1) tr] by (auto simp: hist_inv_def rows_ok_def row_ok_def)
  from shrink_server_post [OF this, of "Some (file, rev_chain r)" "per_server_disk_budget cfg"]
  show "total_payload_bytes (apply_retention cfg file s) \<le> per_server_disk_budget cfg \<or>
      (\<forall>r\<in>set (hs_revisions (apply_retention cfg file s)). chain_count (rev_file r) (apply_retention cfg file s) \<le> 1)"
    unfolding t by (auto intro: undroppable_single [unfolded One_nat_def])
qed

section \<open>A plain codec\<close>

text \<open>A codec that keeps the bytes behind a header, and a digest that is the content: the laws hold of it.\<close>

definition plain_codec :: "byte list hist_deps" where
  "plain_codec =
     \<lparr>encode_all = (\<lambda>x. Some (0 # 0 # 0 # x)), decode_all = (\<lambda>p. Some (drop 3 p)),
      encode_with_dictionary = (\<lambda>x d. Some (1 # x)), decode_with_dictionary = (\<lambda>p d. Some (drop 1 p)), digest = id\<rparr>"

definition small_history :: hist_config where
  "small_history =
     \<lparr>hc_enabled = True, anchor_interval = 4, keep_chains = 2, per_file_disk_budget = 8,
      per_server_disk_budget = 9\<rparr>"

definition first_edit :: hist_op where
  "first_edit = OpRecord True 5 ''a'' (Some [1]) [2] None"

lemma plain_codec_ok: "codec_ok plain_codec"
  by (simp add: codec_ok_def plain_codec_def numeral_3_eq_3)

lemma small_history_ok: "anchor_interval small_history \<le> max_chain" "hc_enabled small_history"
  by (simp_all add: small_history_def max_chain_def)

section \<open>Properties\<close>

lemma tag_recorded_new: "tag_recorded x \<noteq> (Inr (Unchanged i), s)"
  by (cases x; cases "fst x") (auto simp: tag_recorded_def)

lemma list_for_file_latest:
  "latest_revision file s = Some r \<Longrightarrow> \<exists>rs. list_for_file file s = r # rs"
  by (auto simp: latest_revision_def split: list.splits)

lemma get_content_open:
  "ensure_open cfg opens m = (True, m') \<Longrightarrow> reconstruct D i (dm_db m) = Inr c \<Longrightarrow>
   get_content D cfg opens i m = (Some c, m')"
  using ensure_open_parts [of cfg opens m True m'] by (simp add: get_content_def)

lemma record_edit_yields:
  assumes "codec_ok D" "anchor_interval cfg \<le> max_chain" "hc_enabled cfg" "manager_inv D m"
    and "record_edit D cfg True now path before after user m = (Inr i, m')"
  shows "\<exists>file. find_file path (dm_db m') = Some file \<and> yields D file i after (dm_db m') \<and> manager_inv D m' \<and> dm_open m'"
proof -
  obtain u where u: "ensure_open cfg True m = (True, u)"
    using ensure_open_enabled [OF assms(3)] by blast
  then obtain db where db: "record_in_storage D cfg now path before after user (dm_db u) = (Inr i, db)"
    and m': "m' = u\<lparr>dm_db := db\<rparr>"
    using assms(5) by (auto simp: record_edit_def split: prod.splits)
  have "hist_inv D max_chain (dm_db u)" and o: "dm_open u"
    using assms(4) ensure_open_parts [OF u] by (auto simp: manager_inv_def)
  then show ?thesis
    using record_in_storage_step [OF _ assms(1) _ order_refl assms(2) db] record_edit_inv [OF assms(1,2,4,5)]
    by (auto simp: m' max_chain_def)
qed

lemma grace_period_deletes:
  assumes inv: "manager_inv D h" and "hc_enabled cfg" "forget_file cfg True path old h = m"
    and "record_edit D cfg True now path before after user m = (res, m')"
  shows "dm_db (forget_deletes (dm_seq h) (forget_wakes (dm_seq h) m')) = delete_file path (dm_db m')"
proof -
  obtain u where u: "ensure_open cfg True h = (True, u)"
    using ensure_open_enabled [OF assms(2)] by blast
  define k where "k = dm_seq h"
  have seq: "dm_seq u = k" and "\<forall>t\<in>set (dm_asleep u) \<union> set (dm_deleting u). fst t < k"
    using inv ensure_open_parts [OF u] by (auto simp: k_def manager_inv_def forget_ids_ok_def)
  then have "k \<notin> fst ` (set (dm_asleep u) \<union> set (dm_deleting u))"
    by (metis imageE less_irrefl)
  then have fresh: "k \<notin> fst ` set (dm_deleting u)" "filter (\<lambda>t. fst t = k) (dm_asleep u) = []"
    by (force simp: image_Un filter_empty_conv)+
  have old: "pf_id p \<noteq> k" if "map_of (dm_pending u) path = Some p" for p
    using that inv ensure_open_parts [OF u] map_of_SomeD [OF that]
    by (fastforce simp: k_def manager_inv_def forget_ids_ok_def)
  have m: "filter (\<lambda>t. fst t = k) (dm_asleep m) = [(k, path)]" "dm_deleting m = dm_deleting u" "dm_open m"
    using assms(3) fresh old seq ensure_open_parts [OF u]
    by (auto simp: forget_file_def u Let_def abort_old_def abort_forget_def filter_empty_conv
        split: option.splits)
  have m': "dm_asleep m' = dm_asleep m" "dm_deleting m' = dm_deleting m" "dm_open m'"
    using assms(4) m(3) by (auto simp: record_edit_def ensure_open_def split: if_splits prod.splits)
  have "map_of (dm_deleting (forget_wakes k m')) k = Some path"
    using fresh(1) m m' map_of_eq_None_iff [of "dm_deleting u" k]
    by (simp add: forget_wakes_def map_of_append map_add_def)
  then show ?thesis
    using m'(3) by (simp add: k_def [symmetric] forget_deletes_def forget_wakes_def)
qed

lemma delete_file_removes:
  assumes "hist_inv D A s" "find_file path s = Some (rev_file r)" "r \<in> set (hs_revisions s)"
  shows "find_file path (delete_file path s) = None \<and> rev_id r \<notin> rev_id ` set (hs_revisions (delete_file path s))"
proof -
  have "q = r" if "q \<in> set (hs_revisions s)" "rev_id q = rev_id r" for q
    using assms(1,3) that by (auto simp: hist_inv_def rows_ok_def distinct_map inj_on_def)
  then show ?thesis
    using find_file_in [OF assms(2)]
    by (force simp: delete_file_def delete_where_def Let_def find_file_def find_None_iff)
qed

text \<open>
  C30. Every revision that the history lists can be read. After any sequence of edits, renames, deletions,
  delayed deletions firing at any moment, clearing, closing and reopening, each entry of the list of a path
  has a content, of the size the entry shows, although retention has removed chains and deltas depend on
  other rows; the anchor interval is at most the longest chain a read follows.
\<close>
theorem listed_revisions_readable:
  assumes "codec_ok D" and "anchor_interval cfg \<le> max_chain"
    and "list_revisions cfg opens path (hist_run D cfg ops) = (infos, m)" and "info \<in> set infos"
  shows "\<exists>c. fst (get_content D cfg opens (ri_id info) m) = Some c \<and> length c = ri_size info"
proof -
  define h where "h = hist_run D cfg ops"
  obtain b u where u: "ensure_open cfg opens h = (b, u)"
    by (meson surj_pair)
  have b: "b" and m: "m = u" and "info \<in> revision_info_of ` set (hs_revisions (dm_db u))"
    using assms(3,4) u by (auto simp: h_def list_revisions_def list_for_file_def rows_of_def split: bool.splits option.splits)
  then obtain r where r: "r \<in> set (hs_revisions (dm_db h))" "info = revision_info_of r"
    using ensure_open_parts [OF u] by auto
  have inv: "hist_inv D max_chain (dm_db h)"
    using hist_run_inv [OF assms(1,2), of ops] by (simp add: h_def manager_inv_def)
  then obtain n c where "denotes D (hs_revisions (dm_db h)) n r c" "n \<le> chain_len (hs_revisions (dm_db h)) r"
      "length c = rev_size r"
    using r(1) by (auto simp: hist_inv_def rows_ok_def row_ok_def)
  moreover have "ensure_open cfg opens u = (True, u)"
    using u b by (auto simp: ensure_open_def split: if_splits)
  ultimately show ?thesis
    using readable [OF inv order_refl] get_content_open [of cfg opens u u D] ensure_open_parts [OF u]
    by (auto simp: m r(2) revision_info_of_def)
qed

theorem listed_revisions_readable_witness:
  "\<exists>c. fst (get_content plain_codec small_history True 2
      (snd (list_revisions small_history True ''a'' (hist_run plain_codec small_history [first_edit])))) = Some c \<and>
   length c = 1"
proof -
  let ?l = "list_revisions small_history True ''a'' (hist_run plain_codec small_history [first_edit])"
  have "map ri_id (fst ?l) = [2, 1]" "map ri_size (fst ?l) = [1, 1]"
    by code_simp+
  then obtain info infos where "fst ?l = info # infos" "ri_id info = 2" "ri_size info = 1"
    by auto
  then show ?thesis
    using listed_revisions_readable [OF plain_codec_ok small_history_ok(1) surjective_pairing, of info True "''a''" "[first_edit]"]
    by simp
qed

text \<open>
  C31. An edit that was recorded is the newest revision of its file and reads back as what was written, in
  every reachable state and for every configured interval and budget: neither pruning nor either budget ever
  removes the revision just made, and an unchanged content is answered with a revision that has it.
\<close>
theorem recorded_edit_reads_back:
  assumes "codec_ok D" and "anchor_interval cfg \<le> max_chain" and "hc_enabled cfg"
    and "record_edit D cfg True now path before after user (hist_run D cfg ops) = (Inr i, m)"
  shows "fst (get_content D cfg opens i m) = Some after \<and>
         (\<exists>info infos. fst (list_revisions cfg opens path m) = info # infos \<and> ri_id info = i)"
proof -
  obtain "file" where f: "find_file path (dm_db m) = Some file" "yields D file i after (dm_db m)"
    and inv: "manager_inv D m" "dm_open m"
    using record_edit_yields [OF assms(1-3) hist_run_inv [OF assms(1,2)] assms(4)] by blast
  obtain r rs where "list_for_file file (dm_db m) = r # rs" "rev_id r = i"
    using f(2) by (auto simp: yields_def dest!: list_for_file_latest)
  moreover have "reconstruct D i (dm_db m) = Inr after"
    using yields_readable [OF _ order_refl f(2)] inv by (simp add: manager_inv_def)
  moreover have "ensure_open cfg opens m = (True, m)"
    using inv(2) assms(3) by (simp add: ensure_open_def)
  ultimately show ?thesis
    using f(1) get_content_open [of cfg opens m m D i after] by (simp add: list_revisions_def revision_info_of_def)
qed

theorem recorded_edit_reads_back_witness:
  "fst (get_content plain_codec small_history True 3
     (snd (record_edit plain_codec small_history True 7 ''b'' (Some [9]) [8, 8] None
       (hist_run plain_codec small_history [OpRecord True 5 ''a'' None [2] None])))) = Some [8, 8]"
proof -
  let ?r = "record_edit plain_codec small_history True 7 ''b'' (Some [9]) [8, 8] None
       (hist_run plain_codec small_history [OpRecord True 5 ''a'' None [2] None])"
  have "fst ?r = Inr 3"
    by code_simp
  then have "?r = (Inr 3, snd ?r)"
    by (metis prod.collapse)
  from recorded_edit_reads_back [OF plain_codec_ok small_history_ok this, of True] show ?thesis
    by simp
qed

text \<open>
  C32. What retention guarantees once a new revision is stored: its file keeps at most \<open>keep_chains\<close> chains, and
  the payloads of all files together are within the budget of the server unless every file is down to a single chain.
\<close>
theorem retention_holds_after_recording:
  assumes "codec_ok D" and "anchor_interval cfg \<le> max_chain" and "hc_enabled cfg"
    and "record_edit D cfg True now path before after user (hist_run D cfg ops) = (Inr i, m)"
    and "i \<notin> set (map rev_id (hs_revisions (dm_db (hist_run D cfg ops))))"
    and "find_file path (dm_db m) = Some file"
  shows "chain_count file (dm_db m) \<le> max (keep_chains cfg) 1 \<and>
         (total_payload_bytes (dm_db m) \<le> per_server_disk_budget cfg \<or>
          (\<forall>r\<in>set (hs_revisions (dm_db m)). chain_count (rev_file r) (dm_db m) \<le> 1))"
proof -
  define h where "h = hist_run D cfg ops"
  obtain u where u: "ensure_open cfg True h = (True, u)"
    using ensure_open_enabled [OF assms(3)] by blast
  have same: "dm_db u = dm_db h"
    using ensure_open_parts [OF u] by simp
  have inv: "hist_inv D max_chain (dm_db u)"
    using hist_run_inv [OF assms(1,2), of ops] by (simp add: h_def manager_inv_def same)
  obtain f s where up: "upsert_file path (dm_db u) = (f, s)"
    by (meson surj_pair)
  obtain res v where new: "new_revision D (max (anchor_interval cfg) 1) now f before after user s = (res, v)"
    by (meson surj_pair)
  have rows: "hs_revisions s = hs_revisions (dm_db u)"
    using up by (auto simp: upsert_file_def Let_def split: option.splits)
  have step: "hist_inv D max_chain v" "hs_files v = hs_files s" "\<And>j. res = Inr (Recorded j) \<Longrightarrow> yields D f j after v"
    using new_revision_step [OF upsert_file_step(1) [OF inv up] assms(1) _ order_refl _ upsert_file_step(2) [OF inv up] new]
      assms(2) by (auto simp: max_chain_def)
  have "res \<noteq> Inr (Unchanged i)"
    using new assms(5) latest_revision_Some(1) [of f s] rows same
    by (auto simp: new_revision_def tag_recorded_new h_def split: option.splits if_splits)
  then have res: "res = Inr (Recorded i)" "dm_db m = apply_retention cfg f v"
    using assms(4) u up new
    by (auto simp: h_def [symmetric] record_edit_def record_in_storage_def simp del: One_nat_def
        split: sum.splits recorded.splits prod.splits)
  then have "find_file path (dm_db m) = Some f"
    using retention_yields [OF step(1) step(3)] upsert_file_step(3) [OF inv up] step(2) by (simp add: find_file_def)
  then have "file = f"
    using assms(6) by simp
  with retention_bounds [OF step(1) step(3) [OF res(1)], of cfg] show ?thesis
    by (simp add: res(2))
qed

theorem retention_holds_after_recording_witness:
  "chain_count 2 (dm_db (snd (record_edit plain_codec small_history True 7 ''b'' (Some [9]) [8, 8] None
     (hist_run plain_codec small_history [OpRecord True 5 ''a'' None [2] None])))) \<le> 2"
proof -
  let ?h = "hist_run plain_codec small_history [OpRecord True 5 ''a'' None [2] None]"
  let ?r = "record_edit plain_codec small_history True 7 ''b'' (Some [9]) [8, 8] None ?h"
  have "fst ?r = Inr 3" and new: "3 \<notin> set (map rev_id (hs_revisions (dm_db ?h)))"
    and f: "find_file ''b'' (dm_db (snd ?r)) = Some 2" and k: "keep_chains small_history = 2"
    by code_simp+
  then have "?r = (Inr 3, snd ?r)"
    by (metis prod.collapse)
  from retention_holds_after_recording [OF plain_codec_ok small_history_ok this new f] k show ?thesis
    by simp
qed

text \<open>
  The disk budget per file has no effect: whatever it is, every edit is recorded and retained in the
  same way. The loop that enforces it runs after pruning to \<open>keep_chains\<close> chains and may only drop chains beyond
  that number.
\<close>
lemma per_file_budget_has_no_effect:
  "record_edit D (cfg\<lparr>per_file_disk_budget := budget\<rparr>) = record_edit D cfg"
  by (intro ext) (simp add: record_edit_def ensure_open_def record_in_storage_budget)

text \<open>
  C33. An edit made within the grace period after a deletion is lost. In every reachable state, when a path
  is forgotten and written again before the delayed deletion fires, the revision that was just recorded is
  removed with the rest of the history of the path, although the file exists.
\<close>
theorem edit_in_grace_period_is_lost:
  assumes "codec_ok D" and "anchor_interval cfg \<le> max_chain" and "hc_enabled cfg"
    and "forget_file cfg True path old (hist_run D cfg ops) = m"
    and "record_edit D cfg True now path before after user m = (Inr i, m')"
    and "forget_deletes (dm_seq (hist_run D cfg ops)) (forget_wakes (dm_seq (hist_run D cfg ops)) m') = m''"
  shows "i \<in> rev_id ` set (hs_revisions (dm_db m')) \<and>
         find_file path (dm_db m'') = None \<and> i \<notin> rev_id ` set (hs_revisions (dm_db m''))"
proof -
  have inv: "manager_inv D (hist_run D cfg ops)"
    by (rule hist_run_inv [OF assms(1,2)])
  then have "manager_inv D m"
    using assms(4) forget_file_inv by blast
  then obtain f where f: "find_file path (dm_db m') = Some f" "yields D f i after (dm_db m')" "manager_inv D m'"
    using record_edit_yields [OF assms(1-3) _ assms(5)] by blast
  obtain r where r: "r \<in> set (hs_revisions (dm_db m'))" "rev_id r = i" "rev_file r = f"
    using f(2) by (auto simp: yields_def dest: latest_revision_Some(1,2))
  have "dm_db m'' = delete_file path (dm_db m')"
    using grace_period_deletes [OF inv assms(3-5)] assms(6) by simp
  then show ?thesis
    using delete_file_removes [of D max_chain "dm_db m'" path r] f(1,3) r by (auto simp: manager_inv_def)
qed

theorem edit_in_grace_period_is_lost_witness:
  "find_file ''a'' (dm_db (forget_deletes 0 (forget_wakes 0
     (snd (record_edit plain_codec small_history True 7 ''a'' None [8] None
       (forget_file small_history True ''a'' None (hist_run plain_codec small_history []))))))) = None"
proof -
  let ?h = "hist_run plain_codec small_history []"
  let ?r = "record_edit plain_codec small_history True 7 ''a'' None [8] None (forget_file small_history True ''a'' None ?h)"
  have "fst ?r = Inr 1" and k: "dm_seq ?h = 0"
    by code_simp+
  then have "?r = (Inr 1, snd ?r)"
    by (metis prod.collapse)
  from edit_in_grace_period_is_lost [OF plain_codec_ok small_history_ok refl this refl] k show ?thesis
    by simp
qed

text \<open>
  Replacing a tracked file by renaming another tracked file onto it fails in the history. The pending
  deletion of the target is cancelled and the rename then violates the unique path, so both paths keep the
  histories they had: the target shows the revisions of the file that was replaced and the source those of a
  file that is gone, and the caller is told to record nothing.
\<close>
lemma rename_onto_tracked_path_fails:
  assumes "hc_enabled cfg" and "old \<noteq> new"
    and "find_file old (dm_db m) = Some i" and "find_file new (dm_db m) = Some j"
  shows "\<exists>m'. rename_file cfg True old new m = (Inl UniqueViolation, m') \<and> dm_db m' = dm_db m \<and>
         map_of (dm_pending m') new = None"
proof -
  obtain p u where u: "cancel_pending_forget new m = (p, u)"
    by (meson surj_pair)
  then have "dm_db u = dm_db m" "map_of (dm_pending u) new = None"
    by (auto simp: cancel_pending_forget_def abort_forget_def AList.delete_conv' split: option.splits)
  moreover obtain v where v: "ensure_open cfg True u = (True, v)"
    using ensure_open_enabled [OF assms(1)] by blast
  ultimately show ?thesis
    using assms(2-4) ensure_open_parts [OF v] by (auto simp: rename_file_def u v storage_rename_def)
qed

end
