(* ===== verification/Schedule.thy ===== *)
theory Schedule
  imports Complex_Main ServerState "HOL-Library.AList"
begin

text \<open>
  Server schedules (\<^verbatim>\<open>server/schedule/\<close>): conditions and their evaluation, the list of actions with its
  flat \<^verbatim>\<open>if\<close>/\<^verbatim>\<open>else_if\<close>/\<^verbatim>\<open>else\<close>/\<^verbatim>\<open>end_if\<close> markers, the validation of that list, the executor with its stack
  of condition frames, the pure actions (\<^verbatim>\<open>ensure\<close>, \<^verbatim>\<open>format\<close>, \<^verbatim>\<open>match_regex\<close>), and the manager that updates and
  triggers schedules. The server is a world that every look at it may find changed (\<open>observe\<close>); the actions
  that act on it (power, files, backups) and the regular expressions are the fields of \<open>sched_deps\<close>.
\<close>

section \<open>Floating-point numbers as the conditions use them\<close>

datatype f64 = NaN | NegInf | Fin rat | PosInf

fun f64_less :: "f64 \<Rightarrow> f64 \<Rightarrow> bool" where
  "f64_less NaN y = False"
| "f64_less x NaN = False"
| "f64_less (Fin a) (Fin b) = (a < b)"
| "f64_less x PosInf = (x \<noteq> PosInf)"
| "f64_less NegInf y = (y \<noteq> NegInf)"
| "f64_less x y = False"

definition f64_equal :: "f64 \<Rightarrow> f64 \<Rightarrow> bool" where
  "f64_equal x y = (x = y \<and> x \<noteq> NaN)"

definition f64_le :: "f64 \<Rightarrow> f64 \<Rightarrow> bool" where
  "f64_le x y = (f64_less x y \<or> f64_equal x y)"

fun bit_width :: "nat \<Rightarrow> nat" where
  "bit_width n = (if n = 0 then 0 else Suc (bit_width (n div 2)))"

declare bit_width.simps [simp del]

text \<open>A cast from \<^verbatim>\<open>u64\<close> keeps 53 significant bits and rounds to the nearest, ties to even.\<close>

definition f64_of_u64 :: "nat \<Rightarrow> f64" where
  "f64_of_u64 n =
     (let e = bit_width n - 53; q = n div 2 ^ e; r = n mod 2 ^ e;
          up = (if 2 * r < 2 ^ e \<or> 2 * r = 2 ^ e \<and> even q then 0 else 1)
      in Fin (of_nat ((q + up) * 2 ^ e)))"

datatype comparator = SmallerThan | SmallerThanOrEquals | Equal | GreaterThan | GreaterThanOrEquals

fun compare_f64 :: "comparator \<Rightarrow> f64 \<Rightarrow> f64 \<Rightarrow> bool" where
  "compare_f64 SmallerThan lhs rhs = f64_less lhs rhs"
| "compare_f64 SmallerThanOrEquals lhs rhs = f64_le lhs rhs"
| "compare_f64 Equal lhs rhs = f64_equal lhs rhs"
| "compare_f64 GreaterThan lhs rhs = f64_less rhs lhs"
| "compare_f64 GreaterThanOrEquals lhs rhs = f64_le rhs lhs"

section \<open>Variables and conditions\<close>

type_synonym uuid = nat

datatype resource_metric = Cpu | Memory | Disk

datatype dynamic_parameter = Raw string | Variable string

datatype condition =
    NoCondition
  | AndC "condition list"
  | OrC "condition list"
  | NotC condition
  | ServerStateIs server_state
  | Uptime comparator nat
  | ResourceUsage resource_metric comparator f64
  | FileExists string
  | VariableExists string
  | VariableEquals string dynamic_parameter
  | VariableContains string dynamic_parameter
  | VariableStartsWith string dynamic_parameter
  | VariableEndsWith string dynamic_parameter

record execution_context =
  ec_schedule :: uuid
  ec_variables :: "(string \<times> string) list"

definition context_new :: "uuid \<Rightarrow> execution_context" where
  "context_new u = \<lparr>ec_schedule = u, ec_variables = []\<rparr>"

definition get_variable :: "string \<Rightarrow> execution_context \<Rightarrow> string option" where
  "get_variable v ctx = map_of (ec_variables ctx) v"

fun resolve_parameter :: "dynamic_parameter \<Rightarrow> execution_context \<Rightarrow> string option" where
  "resolve_parameter (Raw s) ctx = Some s"
| "resolve_parameter (Variable v) ctx = get_variable v ctx"

definition store_variable :: "string \<Rightarrow> string \<Rightarrow> execution_context \<Rightarrow> execution_context" where
  "store_variable v x ctx = ctx\<lparr>ec_variables := AList.update v x (ec_variables ctx)\<rparr>"

record server_view =
  sv_state :: server_state
  sv_uptime :: nat
  sv_cpu :: f64
  sv_memory :: nat
  sv_disk :: nat
  sv_exists :: "string \<Rightarrow> bool"
  sv_locked :: "string option"

fun contains_text :: "string \<Rightarrow> string \<Rightarrow> bool" where
  "contains_text pat [] = (pat = [])"
| "contains_text pat (c # cs) = (prefix pat (c # cs) \<or> contains_text pat cs)"

definition metric_of :: "resource_metric \<Rightarrow> server_view \<Rightarrow> f64" where
  "metric_of m v = (case m of Cpu \<Rightarrow> sv_cpu v | Memory \<Rightarrow> f64_of_u64 (sv_memory v) | Disk \<Rightarrow> f64_of_u64 (sv_disk v))"

definition compare_variable ::
    "(string \<Rightarrow> string \<Rightarrow> bool) \<Rightarrow> string \<Rightarrow> dynamic_parameter \<Rightarrow> execution_context \<Rightarrow> bool" where
  "compare_variable test v p ctx =
     (case get_variable v ctx of
        None \<Rightarrow> False
      | Some x \<Rightarrow> (case resolve_parameter p ctx of None \<Rightarrow> False | Some y \<Rightarrow> test x y))"

text \<open>Each condition that looks at the server sees it at that moment; \<open>And\<close> and \<open>Or\<close> stop early.\<close>

fun evaluate :: "('w \<Rightarrow> server_view \<times> 'w) \<Rightarrow> execution_context \<Rightarrow> condition \<Rightarrow> 'w \<Rightarrow> bool \<times> 'w"
  and evaluate_and :: "('w \<Rightarrow> server_view \<times> 'w) \<Rightarrow> execution_context \<Rightarrow> condition list \<Rightarrow> 'w \<Rightarrow> bool \<times> 'w"
  and evaluate_or :: "('w \<Rightarrow> server_view \<times> 'w) \<Rightarrow> execution_context \<Rightarrow> condition list \<Rightarrow> 'w \<Rightarrow> bool \<times> 'w" where
  "evaluate obs ctx NoCondition w = (True, w)"
| "evaluate obs ctx (AndC cs) w = evaluate_and obs ctx cs w"
| "evaluate obs ctx (OrC cs) w = evaluate_or obs ctx cs w"
| "evaluate obs ctx (NotC c) w = (case evaluate obs ctx c w of (b, w') \<Rightarrow> (\<not> b, w'))"
| "evaluate obs ctx (ServerStateIs st) w = (case obs w of (v, w') \<Rightarrow> (sv_state v = st, w'))"
| "evaluate obs ctx (Uptime op x) w =
     (case obs w of (v, w') \<Rightarrow> (compare_f64 op (f64_of_u64 (sv_uptime v)) (f64_of_u64 x), w'))"
| "evaluate obs ctx (ResourceUsage m op x) w = (case obs w of (v, w') \<Rightarrow> (compare_f64 op (metric_of m v) x, w'))"
| "evaluate obs ctx (FileExists f) w = (case obs w of (v, w') \<Rightarrow> (sv_exists v f, w'))"
| "evaluate obs ctx (VariableExists x) w = (get_variable x ctx \<noteq> None, w)"
| "evaluate obs ctx (VariableEquals x p) w = (compare_variable (=) x p ctx, w)"
| "evaluate obs ctx (VariableContains x p) w = (compare_variable (\<lambda>a b. contains_text b a) x p ctx, w)"
| "evaluate obs ctx (VariableStartsWith x p) w = (compare_variable (\<lambda>a b. prefix b a) x p ctx, w)"
| "evaluate obs ctx (VariableEndsWith x p) w = (compare_variable (\<lambda>a b. suffix b a) x p ctx, w)"
| "evaluate_and obs ctx [] w = (True, w)"
| "evaluate_and obs ctx (c # cs) w =
     (case evaluate obs ctx c w of (b, w') \<Rightarrow> if b then evaluate_and obs ctx cs w' else (False, w'))"
| "evaluate_or obs ctx [] w = (False, w)"
| "evaluate_or obs ctx (c # cs) w =
     (case evaluate obs ctx c w of (b, w') \<Rightarrow> if b then (True, w') else evaluate_or obs ctx cs w')"

section \<open>Actions\<close>

datatype power_action = PowerStart | PowerStop | PowerRestart | PowerKill

datatype backup_selector =
    LatestBackup "uuid option"
  | OldestBackup "uuid option"
  | BackupByUuid dynamic_parameter
  | BackupByName dynamic_parameter "uuid option" bool

record resolved_selector =
  backup_uuid :: "uuid option"
  backup_name :: "string option"
  backup_group :: "uuid option"
  oldest :: bool

definition resolve_selector ::
    "(string \<Rightarrow> uuid option) \<Rightarrow> backup_selector \<Rightarrow> execution_context \<Rightarrow> string + resolved_selector" where
  "resolve_selector parse_uuid sel ctx =
     (case sel of
        LatestBackup g \<Rightarrow> Inr \<lparr>backup_uuid = None, backup_name = None, backup_group = g, oldest = False\<rparr>
      | OldestBackup g \<Rightarrow> Inr \<lparr>backup_uuid = None, backup_name = None, backup_group = g, oldest = True\<rparr>
      | BackupByUuid p \<Rightarrow>
          (case resolve_parameter p ctx of
             None \<Rightarrow> Inl ''unable to resolve parameter `uuid` into a string.''
           | Some s \<Rightarrow>
               (case parse_uuid s of
                  None \<Rightarrow> Inl ''unable to parse parameter `uuid` into a uuid.''
                | Some u \<Rightarrow> Inr \<lparr>backup_uuid = Some u, backup_name = None, backup_group = None, oldest = False\<rparr>))
      | BackupByName p g old \<Rightarrow>
          (case resolve_parameter p ctx of
             None \<Rightarrow> Inl ''unable to resolve parameter `name` into a string.''
           | Some n \<Rightarrow> Inr \<lparr>backup_uuid = None, backup_name = Some n, backup_group = g, oldest = old\<rparr>))"

datatype 'r schedule_action =
    Sleep nat
  | Ensure condition
  | IfA condition
  | ElseIfA condition
  | ElseA
  | EndIfA
  | ExitA bool
  | Format string string
  | MatchRegex dynamic_parameter 'r "string option list"
  | WaitForConsoleLine bool dynamic_parameter bool nat "string option"
  | WaitForState bool server_state nat
  | SendPower bool power_action
  | SendCommand bool dynamic_parameter
  | CreateBackup bool bool "dynamic_parameter option" "uuid option" "string list"
  | RestoreBackup bool bool bool backup_selector
  | DeleteBackup bool backup_selector
  | MoveBackup bool backup_selector "uuid option"
  | CreateDirectory bool dynamic_parameter dynamic_parameter
  | WriteFile bool bool dynamic_parameter dynamic_parameter
  | CopyFile bool bool dynamic_parameter dynamic_parameter
  | DeleteFiles bool dynamic_parameter "string list"
  | RenameFiles bool dynamic_parameter "(string \<times> string) list"
  | CompressFiles bool bool dynamic_parameter "string list" string dynamic_parameter
  | DecompressFile bool bool dynamic_parameter dynamic_parameter
  | UpdateStartupVariable bool dynamic_parameter dynamic_parameter
  | UpdateStartupCommand bool dynamic_parameter
  | UpdateStartupDockerImage bool dynamic_parameter

fun ignore_failure :: "'r schedule_action \<Rightarrow> bool" where
  "ignore_failure (WaitForConsoleLine i _ _ _ _) = i"
| "ignore_failure (WaitForState i _ _) = i"
| "ignore_failure (SendPower i _) = i"
| "ignore_failure (SendCommand i _) = i"
| "ignore_failure (CreateBackup i _ _ _ _) = i"
| "ignore_failure (RestoreBackup i _ _ _) = i"
| "ignore_failure (DeleteBackup i _) = i"
| "ignore_failure (MoveBackup i _ _) = i"
| "ignore_failure (CreateDirectory i _ _) = i"
| "ignore_failure (WriteFile i _ _ _) = i"
| "ignore_failure (CopyFile i _ _ _) = i"
| "ignore_failure (DeleteFiles i _ _) = i"
| "ignore_failure (RenameFiles i _ _) = i"
| "ignore_failure (CompressFiles i _ _ _ _ _) = i"
| "ignore_failure (DecompressFile i _ _ _) = i"
| "ignore_failure (UpdateStartupVariable i _ _) = i"
| "ignore_failure (UpdateStartupCommand i _) = i"
| "ignore_failure (UpdateStartupDockerImage i _) = i"
| "ignore_failure _ = False"

record ('r, 'w) sched_deps =
  observe :: "'w \<Rightarrow> server_view \<times> 'w"
  sleep_ms :: "nat \<Rightarrow> 'w \<Rightarrow> 'w"
  captures :: "'r \<Rightarrow> string \<Rightarrow> string option list option"
  perform :: "'r schedule_action \<Rightarrow> execution_context \<Rightarrow> 'w \<Rightarrow> (string + unit) \<times> execution_context \<times> 'w"

text \<open>The characters up to a closing brace and the text after it.\<close>

fun split_close :: "string \<Rightarrow> (string \<times> string) option" where
  "split_close [] = None"
| "split_close (c # cs) =
     (if c = CHR ''}'' then Some ([], cs)
      else (case split_close cs of None \<Rightarrow> None | Some (name, rest) \<Rightarrow> Some (c # name, rest)))"

lemma split_close_length: "split_close cs = Some (name, rest) \<Longrightarrow> length rest < length cs"
  by (induction cs arbitrary: name) (auto split: if_splits option.splits)

definition expand_name :: "execution_context \<Rightarrow> string \<Rightarrow> string" where
  "expand_name ctx name =
     (case get_variable name ctx of Some v \<Rightarrow> v | None \<Rightarrow> CHR ''{'' # name @ [CHR ''}''])"

function expand_format :: "execution_context \<Rightarrow> string \<Rightarrow> string" where
  "expand_format ctx [] = []"
| "expand_format ctx (c # cs) =
     (if c = CHR ''{'' then
        (if take 1 cs = ''{'' then CHR ''{'' # expand_format ctx (drop 1 cs)
         else (case split_close cs of
                 Some (name, rest) \<Rightarrow> expand_name ctx name @ expand_format ctx rest
               | None \<Rightarrow> CHR ''{'' # cs))
      else if c = CHR ''}'' then
        (if take 1 cs = ''}'' then CHR ''}'' # expand_format ctx (drop 1 cs) else c # expand_format ctx cs)
      else c # expand_format ctx cs)"
  by pat_completeness auto
termination
  by (relation "measure (\<lambda>(ctx, cs). length cs)") (auto dest!: split_close_length)

fun store_groups :: "string option list \<Rightarrow> string option list \<Rightarrow> execution_context \<Rightarrow> execution_context" where
  "store_groups (g # gs) (v # vs) ctx =
     store_groups gs vs (case (g, v) of (Some x, Some name) \<Rightarrow> store_variable name x ctx | _ \<Rightarrow> ctx)"
| "store_groups _ _ ctx = ctx"

definition match_regex ::
    "('r \<Rightarrow> string \<Rightarrow> string option list option) \<Rightarrow> dynamic_parameter \<Rightarrow> 'r \<Rightarrow> string option list \<Rightarrow>
     execution_context \<Rightarrow> (string + unit) \<times> execution_context" where
  "match_regex caps p re outs ctx =
     (case resolve_parameter p ctx of
        None \<Rightarrow> (Inl ''unable to resolve parameter `input` into a string.'', ctx)
      | Some input \<Rightarrow>
          (case caps re input of None \<Rightarrow> (Inr (), ctx) | Some groups \<Rightarrow> (Inr (), store_groups groups outs ctx)))"

definition execute ::
    "('r, 'w) sched_deps \<Rightarrow> 'r schedule_action \<Rightarrow> execution_context \<Rightarrow> 'w \<Rightarrow> (string + unit) \<times> execution_context \<times> 'w" where
  "execute D a ctx w =
     (case observe D w of
        (v, w') \<Rightarrow>
          (case sv_locked v of
             Some st \<Rightarrow>
               (Inl (''server is in a locked state ('' @ st @ ''), cannot execute schedule action''), ctx, w')
           | None \<Rightarrow>
               (case a of
                  IfA _ \<Rightarrow> (Inr (), ctx, w')
                | ElseIfA _ \<Rightarrow> (Inr (), ctx, w')
                | ElseA \<Rightarrow> (Inr (), ctx, w')
                | EndIfA \<Rightarrow> (Inr (), ctx, w')
                | ExitA _ \<Rightarrow> (Inr (), ctx, w')
                | Sleep ms \<Rightarrow> (Inr (), ctx, sleep_ms D ms w')
                | Ensure c \<Rightarrow>
                    (case evaluate (observe D) ctx c w' of
                       (b, w'') \<Rightarrow>
                         (if b then Inr () else Inl ''condition did not evaluate with success.'', ctx, w''))
                | Format f out \<Rightarrow> (Inr (), store_variable out (expand_format ctx f) ctx, w')
                | MatchRegex p re outs \<Rightarrow> (case match_regex (captures D) p re outs ctx of (r, ctx') \<Rightarrow> (r, ctx', w'))
                | _ \<Rightarrow> perform D a ctx w')))"

record 'r raw_action =
  ra_uuid :: uuid
  ra_action :: "'r schedule_action"

section \<open>Validation\<close>

definition max_if_depth :: nat where
  "max_if_depth = 8"

datatype structure_error =
    TooDeep | ElseIfWithoutIf | ElseIfAfterElse | ElseWithoutIf | SecondElse | EndIfWithoutIf | NeverClosed

fun validate_loop :: "(uuid \<times> bool) list \<Rightarrow> 'r raw_action list \<Rightarrow> uuid \<times> structure_error + unit" where
  "validate_loop stack [] = (case stack of [] \<Rightarrow> Inr () | (u, _) # _ \<Rightarrow> Inl (u, NeverClosed))"
| "validate_loop stack (a # as) =
     (case ra_action a of
        IfA _ \<Rightarrow>
          if max_if_depth \<le> length stack then Inl (ra_uuid a, TooDeep)
          else validate_loop ((ra_uuid a, False) # stack) as
      | ElseIfA _ \<Rightarrow>
          (case stack of
             [] \<Rightarrow> Inl (ra_uuid a, ElseIfWithoutIf)
           | (_, else_seen) # _ \<Rightarrow> if else_seen then Inl (ra_uuid a, ElseIfAfterElse) else validate_loop stack as)
      | ElseA \<Rightarrow>
          (case stack of
             [] \<Rightarrow> Inl (ra_uuid a, ElseWithoutIf)
           | (u, else_seen) # rest \<Rightarrow>
               if else_seen then Inl (ra_uuid a, SecondElse) else validate_loop ((u, True) # rest) as)
      | EndIfA \<Rightarrow>
          (case stack of [] \<Rightarrow> Inl (ra_uuid a, EndIfWithoutIf) | _ # rest \<Rightarrow> validate_loop rest as)
      | _ \<Rightarrow> validate_loop stack as)"

definition validate_action_structure :: "'r raw_action list \<Rightarrow> uuid \<times> structure_error + unit" where
  "validate_action_structure as = validate_loop [] as"

definition structure_message :: "structure_error \<Rightarrow> string" where
  "structure_message e =
     (case e of
        TooDeep \<Rightarrow> ''maximum `if` nesting depth exceeded''
      | ElseIfWithoutIf \<Rightarrow> ''`else_if` without a matching `if`''
      | ElseIfAfterElse \<Rightarrow> ''`else_if` after `else` in the same block''
      | ElseWithoutIf \<Rightarrow> ''`else` without a matching `if`''
      | SecondElse \<Rightarrow> ''multiple `else` in the same block''
      | EndIfWithoutIf \<Rightarrow> ''`end_if` without a matching `if`''
      | NeverClosed \<Rightarrow> ''`if` block is never closed with `end_if`'')"

section \<open>The executor\<close>

record condition_frame =
  parent_active :: bool
  active :: bool
  branch_taken :: bool

record schedule_status =
  st_running :: bool
  st_errors :: "(uuid \<times> string) list"
  st_step :: "uuid option"

datatype ws_event = ScheduleStarted | StepStatus uuid bool | StepError uuid string | ScheduleCompleted

record 'w run_state =
  rs_world :: 'w
  rs_ctx :: execution_context
  rs_errors :: "(uuid \<times> string) list"
  rs_status :: schedule_status
  rs_sent :: "ws_event list"
  rs_successful :: bool

definition send_event :: "ws_event \<Rightarrow> 'w run_state \<Rightarrow> 'w run_state" where
  "send_event e r = r\<lparr>rs_sent := rs_sent r @ [e]\<rparr>"

definition enter_step :: "uuid \<Rightarrow> 'w run_state \<Rightarrow> 'w run_state" where
  "enter_step u r = r\<lparr>rs_status := (rs_status r)\<lparr>st_running := True, st_step := Some u\<rparr>\<rparr>"

definition record_error :: "uuid \<Rightarrow> string \<Rightarrow> 'w run_state \<Rightarrow> 'w run_state" where
  "record_error u e r =
     send_event (StepError u e)
       (r\<lparr>rs_errors := AList.update u e (rs_errors r),
          rs_status := (rs_status r)\<lparr>st_errors := AList.update u e (st_errors (rs_status r))\<rparr>\<rparr>)"

definition test_condition :: "('r, 'w) sched_deps \<Rightarrow> condition \<Rightarrow> 'w run_state \<Rightarrow> bool \<times> 'w run_state" where
  "test_condition D c r =
     (case evaluate (observe D) (rs_ctx r) c (rs_world r) of (b, w) \<Rightarrow> (b, r\<lparr>rs_world := w\<rparr>))"

text \<open>One action that is neither a marker nor an exit; the flag says whether the run goes on.\<close>

definition perform_step :: "('r, 'w) sched_deps \<Rightarrow> 'r raw_action \<Rightarrow> 'w run_state \<Rightarrow> 'w run_state \<times> bool" where
  "perform_step D a r =
     (case execute D (ra_action a) (rs_ctx r) (rs_world r) of
        (res, ctx, w) \<Rightarrow>
          let r' = r\<lparr>rs_ctx := ctx, rs_world := w\<rparr> in
          (case res of
             Inr _ \<Rightarrow> (r', True)
           | Inl e \<Rightarrow>
               if ignore_failure (ra_action a) then (record_error (ra_uuid a) e r', True)
               else ((record_error (ra_uuid a) e r')\<lparr>rs_successful := False\<rparr>, False)))"

fun run_actions ::
    "('r, 'w) sched_deps \<Rightarrow> condition_frame list \<Rightarrow> 'r raw_action list \<Rightarrow> 'w run_state \<Rightarrow> 'w run_state" where
  "run_actions D stack [] r = r"
| "run_actions D stack (a # as) r =
     (let r' = enter_step (ra_uuid a) r; marked = send_event (StepStatus (ra_uuid a) False) r';
          skipped = send_event (StepStatus (ra_uuid a) True) r'
      in case ra_action a of
           IfA c \<Rightarrow>
             (let parent = list_all active stack;
                  (act, t) = (if parent then test_condition D c marked else (False, marked))
              in run_actions D (\<lparr>parent_active = parent, active = act, branch_taken = act\<rparr> # stack) as t)
         | ElseIfA c \<Rightarrow>
             (case stack of
                [] \<Rightarrow> run_actions D [] as marked
              | f # fs \<Rightarrow>
                  (let (act, t) =
                         (if parent_active f \<and> \<not> branch_taken f then test_condition D c marked else (False, marked))
                   in run_actions D (f\<lparr>active := act, branch_taken := branch_taken f \<or> act\<rparr> # fs) as t))
         | ElseA \<Rightarrow>
             (case stack of
                [] \<Rightarrow> run_actions D [] as marked
              | f # fs \<Rightarrow>
                  run_actions D (f\<lparr>active := parent_active f \<and> \<not> branch_taken f, branch_taken := True\<rparr> # fs) as marked)
         | EndIfA \<Rightarrow> run_actions D (tl stack) as marked
         | ExitA ok \<Rightarrow>
             if list_all active stack then marked\<lparr>rs_successful := ok\<rparr> else run_actions D stack as skipped
         | _ \<Rightarrow>
             if list_all active stack
             then (case perform_step D a marked of (t, go) \<Rightarrow> if go then run_actions D stack as t else t)
             else run_actions D stack as skipped)"

section \<open>Schedules\<close>

datatype backup_status = BackupStarting | BackupFinished | BackupFailed

datatype trigger =
    CronT string
  | PowerActionT power_action
  | ServerStateT server_state
  | BackupStatusT backup_status
  | ScheduleCompletionT uuid bool
  | ResourceUsageT resource_metric comparator f64 nat
  | ConsoleLineT string bool "string option"
  | CrashT

text \<open>Equality of triggers compares thresholds as floating-point numbers.\<close>

fun trigger_eq :: "trigger \<Rightarrow> trigger \<Rightarrow> bool" where
  "trigger_eq (ResourceUsageT m1 c1 v1 f1) (ResourceUsageT m2 c2 v2 f2) =
     (m1 = m2 \<and> c1 = c2 \<and> f64_equal v1 v2 \<and> f1 = f2)"
| "trigger_eq s t = (s = t)"

record completion =
  cs_uuid :: uuid
  cs_successful :: bool
  cs_errors :: "(uuid \<times> string) list"
  cs_timestamp :: nat

record 'r raw_schedule =
  raw_uuid :: uuid
  raw_triggers :: "trigger list"
  raw_condition :: condition
  raw_actions :: "'r raw_action list"

record 'r schedule =
  sc_uuid :: uuid
  sc_triggers :: "trigger list"
  sc_condition :: condition
  sc_actions :: "'r raw_action list"
  sc_status :: schedule_status
  sc_completion :: "completion option"
  sc_tasks :: "(nat \<times> trigger) list"
  sc_next_context :: "execution_context option"
  sc_notified :: bool
  sc_skip_notified :: bool

text \<open>Triggers that get a task of their own; \<open>create_trigger_tasks\<close> numbers the tasks it spawns.\<close>

fun taskable :: "trigger \<Rightarrow> bool" where
  "taskable (CronT _) = True"
| "taskable (ConsoleLineT _ _ _) = True"
| "taskable (ResourceUsageT _ _ _ _) = True"
| "taskable _ = False"

definition create_trigger_tasks :: "nat \<Rightarrow> trigger list \<Rightarrow> trigger list \<times> (nat \<times> trigger) list" where
  "create_trigger_tasks next raws =
     (filter (\<lambda>t. \<not> taskable t) raws, zip [next..<next + length raws] (filter taskable raws))"

definition schedule_new :: "nat \<Rightarrow> 'r raw_schedule \<Rightarrow> 'r schedule" where
  "schedule_new next raw =
     \<lparr>sc_uuid = raw_uuid raw, sc_triggers = fst (create_trigger_tasks next (raw_triggers raw)),
      sc_condition = raw_condition raw, sc_actions = raw_actions raw,
      sc_status = \<lparr>st_running = False, st_errors = [], st_step = None\<rparr>, sc_completion = None,
      sc_tasks = snd (create_trigger_tasks next (raw_triggers raw)), sc_next_context = None,
      sc_notified = False, sc_skip_notified = False\<rparr>"

definition trigger_schedule :: "bool \<Rightarrow> 'r schedule \<Rightarrow> 'r schedule" where
  "trigger_schedule skip s = (if skip then s\<lparr>sc_skip_notified := True\<rparr> else s\<lparr>sc_notified := True\<rparr>)"

definition schedule_update :: "'r raw_schedule \<Rightarrow> 'r schedule \<Rightarrow> 'r schedule" where
  "schedule_update raw s = s\<lparr>sc_condition := raw_condition raw, sc_actions := raw_actions raw\<rparr>"

definition recreate_triggers :: "nat \<Rightarrow> trigger list \<Rightarrow> 'r schedule \<Rightarrow> 'r schedule" where
  "recreate_triggers next raws s =
     (case create_trigger_tasks next raws of (ts, us) \<Rightarrow> s\<lparr>sc_triggers := ts, sc_tasks := us\<rparr>)"

definition console_line :: "(string \<Rightarrow> string) \<Rightarrow> string \<Rightarrow> trigger \<Rightarrow> 'r schedule \<Rightarrow> 'r schedule" where
  "console_line lowercase line t s =
     (case t of
        ConsoleLineT pat insensitive out \<Rightarrow>
          if (if insensitive then contains_text (lowercase pat) (lowercase line) else contains_text pat line) then
            trigger_schedule False
              (case out of
                 None \<Rightarrow> s
               | Some v \<Rightarrow> s\<lparr>sc_next_context := Some (store_variable v line (context_new (sc_uuid s)))\<rparr>)
          else s
      | _ \<Rightarrow> s)"

text \<open>
  One turn of the executor after a notification. The result is the schedule, the world, what was sent and, when the
  actions were run, whether they were successful.
\<close>

definition start_run :: "schedule_status \<Rightarrow> execution_context \<Rightarrow> 'w \<Rightarrow> 'w run_state" where
  "start_run status ctx w =
     \<lparr>rs_world = w, rs_ctx = ctx, rs_errors = [], rs_status = status, rs_sent = [ScheduleStarted], rs_successful = True\<rparr>"

definition run_validated :: "('r, 'w) sched_deps \<Rightarrow> 'r raw_action list \<Rightarrow> 'w run_state \<Rightarrow> 'w run_state" where
  "run_validated D as r =
     (case validate_action_structure as of
        Inl (u, e) \<Rightarrow> record_error u (structure_message e) (r\<lparr>rs_successful := False\<rparr>)
      | Inr _ \<Rightarrow> run_actions D [] as r)"

definition run_schedule ::
    "('r, 'w) sched_deps \<Rightarrow> nat \<Rightarrow> bool \<Rightarrow> 'r schedule \<Rightarrow> 'w \<Rightarrow>
     'r schedule \<times> 'w \<times> ws_event list \<times> bool option" where
  "run_schedule D now skip s w =
     (let ctx = (case sc_next_context s of Some c \<Rightarrow> c | None \<Rightarrow> context_new (sc_uuid s));
          s' = (if skip then s\<lparr>sc_skip_notified := False\<rparr> else s\<lparr>sc_notified := False\<rparr>)\<lparr>sc_next_context := None\<rparr>;
          (met, w') = (if skip then (True, w) else evaluate (observe D) ctx (sc_condition s) w)
      in if \<not> met then (s', w', [], None)
         else
           let r = run_validated D (sc_actions s) (start_run (sc_status s) ctx w');
               r' = send_event ScheduleCompleted
                 (r\<lparr>rs_status := (rs_status r)\<lparr>st_running := False, st_step := None\<rparr>\<rparr>)
           in (s'\<lparr>sc_status := rs_status r',
                  sc_completion := Some \<lparr>cs_uuid = sc_uuid s, cs_successful = rs_successful r', cs_errors = rs_errors r',
                                         cs_timestamp = now\<rparr>\<rparr>,
               rs_world r', rs_sent r', Some (rs_successful r')))"

section \<open>The manager\<close>

record 'r schedule_manager =
  mg_schedules :: "'r schedule list"
  mg_next_task :: nat

definition notify_matching :: "(trigger \<Rightarrow> bool) \<Rightarrow> 'r schedule list \<Rightarrow> 'r schedule list" where
  "notify_matching P = map (\<lambda>s. if list_ex P (sc_triggers s) then trigger_schedule False s else s)"

definition execute_server_state_trigger :: "server_state \<Rightarrow> 'r schedule list \<Rightarrow> 'r schedule list" where
  "execute_server_state_trigger st = notify_matching (\<lambda>t. t = ServerStateT st)"

definition execute_power_action_trigger :: "power_action \<Rightarrow> 'r schedule list \<Rightarrow> 'r schedule list" where
  "execute_power_action_trigger a = notify_matching (\<lambda>t. t = PowerActionT a)"

definition execute_backup_status_trigger :: "backup_status \<Rightarrow> 'r schedule list \<Rightarrow> 'r schedule list" where
  "execute_backup_status_trigger st = notify_matching (\<lambda>t. t = BackupStatusT st)"

definition execute_crash_trigger :: "'r schedule list \<Rightarrow> 'r schedule list" where
  "execute_crash_trigger = notify_matching (\<lambda>t. t = CrashT)"

definition execute_schedule_completion_trigger :: "uuid \<Rightarrow> bool \<Rightarrow> 'r schedule list \<Rightarrow> 'r schedule list" where
  "execute_schedule_completion_trigger done ok =
     map (\<lambda>s. if sc_uuid s \<noteq> done \<and> list_ex (\<lambda>t. t = ScheduleCompletionT done ok) (sc_triggers s)
              then trigger_schedule False s else s)"

definition triggers_differ :: "trigger list \<Rightarrow> trigger list \<Rightarrow> bool" where
  "triggers_differ ts us = (\<not> list_all2 trigger_eq ts us)"

fun update_first :: "nat \<Rightarrow> 'r raw_schedule \<Rightarrow> 'r schedule list \<Rightarrow> 'r schedule list" where
  "update_first next raw [] = [schedule_new next raw]"
| "update_first next raw (s # ss) =
     (if sc_uuid s = raw_uuid raw then
        schedule_update raw
          (if triggers_differ (sc_triggers s) (raw_triggers raw) then recreate_triggers next (raw_triggers raw) s else s) # ss
      else s # update_first next raw ss)"

definition update_one :: "'r raw_schedule \<Rightarrow> 'r schedule_manager \<Rightarrow> 'r schedule_manager" where
  "update_one raw m =
     \<lparr>mg_schedules = update_first (mg_next_task m) raw (mg_schedules m),
      mg_next_task = mg_next_task m + length (raw_triggers raw)\<rparr>"

definition update_schedules :: "'r raw_schedule list \<Rightarrow> 'r schedule_manager \<Rightarrow> 'r schedule_manager" where
  "update_schedules raws m =
     fold update_one raws (m\<lparr>mg_schedules := filter (\<lambda>s. sc_uuid s \<in> raw_uuid ` set raws) (mg_schedules m)\<rparr>)"

definition collect_completions :: "'r schedule list \<Rightarrow> completion list \<times> 'r schedule list" where
  "collect_completions ss =
     (List.map_filter sc_completion ss, map (\<lambda>s. s\<lparr>sc_completion := None\<rparr>) ss)"

text \<open>The executor task of the schedule at index \<open>i\<close> takes a turn; its completion notifies the others.\<close>

definition executor_turn ::
    "('r, 'w) sched_deps \<Rightarrow> nat \<Rightarrow> nat \<Rightarrow> bool \<Rightarrow> 'r schedule_manager \<times> 'w \<Rightarrow> 'r schedule_manager \<times> 'w" where
  "executor_turn D now i skip mw =
     (case mw of
        (m, w) \<Rightarrow>
          if i < length (mg_schedules m) \<and>
             (if skip then sc_skip_notified (mg_schedules m ! i) else sc_notified (mg_schedules m ! i)) then
            (case run_schedule D now skip (mg_schedules m ! i) w of
               (s, w', events, res) \<Rightarrow>
                 let ss = (mg_schedules m)[i := s] in
                 (m\<lparr>mg_schedules :=
                      (case res of None \<Rightarrow> ss | Some ok \<Rightarrow> execute_schedule_completion_trigger (sc_uuid s) ok ss)\<rparr>, w'))
          else (m, w))"

end
