(* ===== verification/ScheduleLaws.thy ===== *)
theory ScheduleLaws
  imports Schedule
begin

text \<open>
  The meaning of a schedule. The executor works on a flat list with markers; \<open>block\<close> is the nested program such a
  list stands for, with the meaning one expects (\<open>exec_block\<close>, and \<open>skip_block\<close> for a branch that is not taken).
  Validation accepts exactly the lists of blocks nested at most eight deep, and on those the executor computes
  the meaning of the block.
\<close>

section \<open>Nested blocks\<close>

datatype 'r block =
    Finished
  | Plain "'r raw_action" "'r block"
  | Branch uuid condition "'r block" "'r tail" "'r block"
  and 'r tail =
    CloseIf uuid
  | OtherwiseIf uuid condition "'r block" "'r tail"
  | Otherwise uuid "'r block" uuid

fun is_marker :: "'r schedule_action \<Rightarrow> bool" where
  "is_marker (IfA _) = True"
| "is_marker (ElseIfA _) = True"
| "is_marker ElseA = True"
| "is_marker EndIfA = True"
| "is_marker _ = False"

definition marker :: "uuid \<Rightarrow> 'r schedule_action \<Rightarrow> 'r raw_action" where
  "marker u a = \<lparr>ra_uuid = u, ra_action = a\<rparr>"

lemma marker_sel [simp]: "ra_uuid (marker u a) = u" "ra_action (marker u a) = a"
  by (simp_all add: marker_def)

primrec flatten :: "'r block \<Rightarrow> 'r raw_action list" and flatten_tail :: "'r tail \<Rightarrow> 'r raw_action list" where
  "flatten Finished = []"
| "flatten (Plain a b) = a # flatten b"
| "flatten (Branch u c body t b) = marker u (IfA c) # flatten body @ flatten_tail t @ flatten b"
| "flatten_tail (CloseIf u) = [marker u EndIfA]"
| "flatten_tail (OtherwiseIf u c body t) = marker u (ElseIfA c) # flatten body @ flatten_tail t"
| "flatten_tail (Otherwise u body v) = marker u ElseA # flatten body @ [marker v EndIfA]"

primrec depth :: "'r block \<Rightarrow> nat" and depth_tail :: "'r tail \<Rightarrow> nat" where
  "depth Finished = 0"
| "depth (Plain a b) = depth b"
| "depth (Branch u c body t b) = max (Suc (max (depth body) (depth_tail t))) (depth b)"
| "depth_tail (CloseIf u) = 0"
| "depth_tail (OtherwiseIf u c body t) = max (depth body) (depth_tail t)"
| "depth_tail (Otherwise u body v) = depth body"

primrec plain_ok :: "'r block \<Rightarrow> bool" and plain_ok_tail :: "'r tail \<Rightarrow> bool" where
  "plain_ok Finished = True"
| "plain_ok (Plain a b) = (\<not> is_marker (ra_action a) \<and> plain_ok b)"
| "plain_ok (Branch u c body t b) = (plain_ok body \<and> plain_ok_tail t \<and> plain_ok b)"
| "plain_ok_tail (CloseIf u) = True"
| "plain_ok_tail (OtherwiseIf u c body t) = (plain_ok body \<and> plain_ok_tail t)"
| "plain_ok_tail (Otherwise u body v) = plain_ok body"

section \<open>Their meaning\<close>

definition mark :: "uuid \<Rightarrow> bool \<Rightarrow> 'w run_state \<Rightarrow> 'w run_state" where
  "mark u skipped r = send_event (StepStatus u skipped) (enter_step u r)"

text \<open>A branch that is not taken only reports: its markers as seen, its actions as skipped.\<close>

primrec skip_block :: "'r block \<Rightarrow> 'w run_state \<Rightarrow> 'w run_state"
  and skip_tail :: "'r tail \<Rightarrow> 'w run_state \<Rightarrow> 'w run_state" where
  "skip_block Finished r = r"
| "skip_block (Plain a b) r = skip_block b (mark (ra_uuid a) True r)"
| "skip_block (Branch u c body t b) r = skip_block b (skip_tail t (skip_block body (mark u False r)))"
| "skip_tail (CloseIf u) r = mark u False r"
| "skip_tail (OtherwiseIf u c body t) r = skip_tail t (skip_block body (mark u False r))"
| "skip_tail (Otherwise u body v) r = mark v False (skip_block body (mark u False r))"

definition exec_plain :: "('r, 'w) sched_deps \<Rightarrow> 'r raw_action \<Rightarrow> 'w run_state \<Rightarrow> 'w run_state \<times> bool" where
  "exec_plain D a r =
     (case ra_action a of
        ExitA ok \<Rightarrow> ((mark (ra_uuid a) False r)\<lparr>rs_successful := ok\<rparr>, False)
      | _ \<Rightarrow> perform_step D a (mark (ra_uuid a) False r))"

definition and_then :: "'w run_state \<times> bool \<Rightarrow> ('w run_state \<Rightarrow> 'w run_state \<times> bool) \<Rightarrow> 'w run_state \<times> bool" where
  "and_then x f = (if snd x then f (fst x) else x)"

text \<open>The flag of the result says whether the run goes on: an exit or a failing action ends it.\<close>

primrec exec_block :: "('r, 'w) sched_deps \<Rightarrow> 'r block \<Rightarrow> 'w run_state \<Rightarrow> 'w run_state \<times> bool"
  and exec_tail :: "('r, 'w) sched_deps \<Rightarrow> 'r tail \<Rightarrow> 'w run_state \<Rightarrow> 'w run_state \<times> bool" where
  "exec_block D Finished r = (r, True)"
| "exec_block D (Plain a b) r = and_then (exec_plain D a r) (exec_block D b)"
| "exec_block D (Branch u c body t b) r =
     and_then
       (case test_condition D c (mark u False r) of
          (taken, s) \<Rightarrow>
            if taken then and_then (exec_block D body s) (\<lambda>s. (skip_tail t s, True))
            else exec_tail D t (skip_block body s))
       (exec_block D b)"
| "exec_tail D (CloseIf u) r = (mark u False r, True)"
| "exec_tail D (OtherwiseIf u c body t) r =
     (case test_condition D c (mark u False r) of
        (taken, s) \<Rightarrow>
          if taken then and_then (exec_block D body s) (\<lambda>s. (skip_tail t s, True))
          else exec_tail D t (skip_block body s))"
| "exec_tail D (Otherwise u body v) r =
     and_then (exec_block D body (mark u False r)) (\<lambda>s. (mark v False s, True))"

section \<open>The executor computes it\<close>

text \<open>A frame is settled when none of its later branches can be taken.\<close>

definition settled :: "condition_frame \<Rightarrow> bool" where
  "settled f \<longleftrightarrow> \<not> parent_active f \<or> branch_taken f"

lemma run_marker_simps:
  "run_actions D stack (marker u (IfA c) # as) r =
     (if list_all active stack
      then (case test_condition D c (mark u False r) of
              (act, t) \<Rightarrow> run_actions D (\<lparr>parent_active = True, active = act, branch_taken = act\<rparr> # stack) as t)
      else run_actions D (\<lparr>parent_active = False, active = False, branch_taken = False\<rparr> # stack) as (mark u False r))"
  "run_actions D (f # fs) (marker u (ElseIfA c) # as) r =
     (if parent_active f \<and> \<not> branch_taken f
      then (case test_condition D c (mark u False r) of
              (act, t) \<Rightarrow> run_actions D (f\<lparr>active := act, branch_taken := act\<rparr> # fs) as t)
      else run_actions D (f\<lparr>active := False\<rparr> # fs) as (mark u False r))"
  "run_actions D (f # fs) (marker u ElseA # as) r =
     run_actions D (f\<lparr>active := parent_active f \<and> \<not> branch_taken f, branch_taken := True\<rparr> # fs) as (mark u False r)"
  "run_actions D (f # fs) (marker u EndIfA # as) r = run_actions D fs as (mark u False r)"
  by (auto simp: mark_def Let_def split: prod.splits)

lemma run_skipped_plain:
  assumes "\<not> is_marker (ra_action a)" "\<not> list_all active stack"
  shows "run_actions D stack (a # as) r = run_actions D stack as (mark (ra_uuid a) True r)"
  using assms by (cases "ra_action a") (auto simp: mark_def Let_def)

lemma run_active_plain:
  assumes "\<not> is_marker (ra_action a)" "list_all active stack"
  shows "run_actions D stack (a # as) r =
    (case exec_plain D a r of (t, go) \<Rightarrow> if go then run_actions D stack as t else t)"
  using assms by (cases "ra_action a") (auto simp: mark_def Let_def exec_plain_def)

declare run_actions.simps(2) [simp del]

text \<open>Under an inactive frame, and in the branches after one that was taken, everything is skipped.\<close>

lemma run_skip:
  fixes b :: "'r block" and t :: "'r tail"
  shows "plain_ok b \<Longrightarrow> \<not> list_all active stack \<Longrightarrow>
      run_actions D stack (flatten b @ as) r = run_actions D stack as (skip_block b r)"
    and "plain_ok_tail t \<Longrightarrow> settled f \<Longrightarrow>
      run_actions D (f # fs) (flatten_tail t @ as) r = run_actions D fs as (skip_tail t r)"
proof (induction b and t arbitrary: stack as r and f fs as r)
  case (Plain a b)
  then show ?case
    by (simp add: run_skipped_plain)
next
  case (Branch u c body t b)
  then show ?case
    by (simp add: run_marker_simps settled_def)
next
  case (OtherwiseIf u c body t)
  then show ?case
    by (auto simp: run_marker_simps settled_def)
next
  case (Otherwise u body v)
  then have "run_actions D (f\<lparr>active := False, branch_taken := True\<rparr> # fs) (flatten body @ marker v EndIfA # as) (mark u False r) =
      run_actions D (f\<lparr>active := False, branch_taken := True\<rparr> # fs) (marker v EndIfA # as) (skip_block body (mark u False r))"
    by (intro Otherwise.IH) auto
  then show ?case
    using Otherwise.prems by (cases "parent_active f") (simp_all add: run_marker_simps settled_def)
qed (simp_all add: run_marker_simps)

definition resume :: "('w run_state \<Rightarrow> 'w run_state) \<Rightarrow> 'w run_state \<times> bool \<Rightarrow> 'w run_state" where
  "resume k x = (if snd x then k (fst x) else fst x)"

lemma resume_and_then: "resume k (and_then x f) = resume (\<lambda>r. resume k (f r)) x"
  by (simp add: resume_def and_then_def)

lemma resume_go [simp]: "resume k (r, True) = k r"
  by (simp add: resume_def)

lemma run_exec:
  fixes b :: "'r block" and t :: "'r tail"
  shows "plain_ok b \<Longrightarrow> list_all active stack \<Longrightarrow>
      run_actions D stack (flatten b @ as) r = resume (run_actions D stack as) (exec_block D b r)"
    and "plain_ok_tail t \<Longrightarrow> list_all active fs \<Longrightarrow> parent_active f \<Longrightarrow> \<not> branch_taken f \<Longrightarrow>
      run_actions D (f # fs) (flatten_tail t @ as) r = resume (run_actions D fs as) (exec_tail D t r)"
proof (induction b and t arbitrary: stack as r and f fs as r)
  case (Plain a b)
  then show ?case
    by (simp add: run_active_plain resume_and_then) (simp add: resume_def split: prod.splits)
next
  case (Branch u c body t b)
  then show ?case
    by (auto simp: run_marker_simps run_skip settled_def resume_def and_then_def split: prod.splits)
next
  case (OtherwiseIf u c body t)
  then show ?case
    by (auto simp: run_marker_simps run_skip settled_def resume_def and_then_def split: prod.splits)
next
  case (Otherwise u body v)
  then show ?case
    by (simp add: run_marker_simps resume_def and_then_def)
qed (simp_all add: run_marker_simps)

section \<open>Validation recognises blocks\<close>

lemma validate_marker_simps:
  "validate_loop stack (marker u (IfA c) # as) =
     (if max_if_depth \<le> length stack then Inl (u, TooDeep) else validate_loop ((u, False) # stack) as)"
  "validate_loop ((v, seen) # stack) (marker u (ElseIfA c) # as) =
     (if seen then Inl (u, ElseIfAfterElse) else validate_loop ((v, False) # stack) as)"
  "validate_loop ((v, seen) # stack) (marker u ElseA # as) =
     (if seen then Inl (u, SecondElse) else validate_loop ((v, True) # stack) as)"
  "validate_loop (f # stack) (marker u EndIfA # as) = validate_loop stack as"
  by auto

lemma validate_plain:
  "\<not> is_marker (ra_action a) \<Longrightarrow> validate_loop stack (a # as) = validate_loop stack as"
  by (cases "ra_action a") auto

declare validate_loop.simps(2) [simp del]

lemma marker_cases:
  assumes "is_marker (ra_action a)"
  obtains c where "a = marker (ra_uuid a) (IfA c)"
    | c where "a = marker (ra_uuid a) (ElseIfA c)"
    | "a = marker (ra_uuid a) ElseA"
    | "a = marker (ra_uuid a) EndIfA"
  using assms by (cases a; cases "ra_action a") (auto simp: marker_def)

lemma validate_accepts:
  fixes b :: "'r block" and t :: "'r tail"
  shows "plain_ok b \<Longrightarrow> depth b + length stack \<le> max_if_depth \<Longrightarrow>
      validate_loop stack (flatten b @ as) = validate_loop stack as"
    and "plain_ok_tail t \<Longrightarrow> depth_tail t + Suc (length stack) \<le> max_if_depth \<Longrightarrow>
      validate_loop ((u, False) # stack) (flatten_tail t @ as) = validate_loop stack as"
proof (induction b and t arbitrary: stack as and u stack as)
  case (Plain a b)
  then show ?case
    by (simp add: validate_plain)
qed (auto simp: validate_marker_simps)

definition closing :: "'r raw_action list \<Rightarrow> bool" where
  "closing as \<longleftrightarrow> (\<exists>a as'. as = a # as' \<and> is_marker (ra_action a) \<and> (\<forall>c. ra_action a \<noteq> IfA c))"

definition parses_block :: "(uuid \<times> bool) list \<Rightarrow> 'r raw_action list \<Rightarrow> bool" where
  "parses_block stack as \<longleftrightarrow>
     (\<exists>b rest. as = flatten b @ rest \<and> plain_ok b \<and> depth b + length stack \<le> max_if_depth \<and>
        validate_loop stack rest = Inr () \<and> (if stack = [] then rest = [] else closing rest))"

definition parses_tail :: "(uuid \<times> bool) list \<Rightarrow> 'r raw_action list \<Rightarrow> bool" where
  "parses_tail stack as \<longleftrightarrow>
     (\<exists>t rest. as = flatten_tail t @ rest \<and> plain_ok_tail t \<and> depth_tail t + Suc (length stack) \<le> max_if_depth \<and>
        validate_loop stack rest = Inr ())"

lemma closing_stack:
  assumes "validate_loop stack as = Inr ()" "closing as"
  shows "stack \<noteq> []"
  using assms by (auto simp: closing_def validate_loop.simps(2) split: schedule_action.splits)

lemma parses_tailI:
  fixes as :: "'r raw_action list"
  assumes "validate_loop ((u, False) # stack) as = Inr ()" "closing as" "Suc (length stack) \<le> max_if_depth"
    and block: "\<And>stack' (as' :: 'r raw_action list). length as' < length as \<Longrightarrow> validate_loop stack' as' = Inr () \<Longrightarrow>
      length stack' \<le> max_if_depth \<Longrightarrow> parses_block stack' as'"
    and tail: "\<And>as' :: 'r raw_action list. length as' < length as \<Longrightarrow> validate_loop ((u, False) # stack) as' = Inr () \<Longrightarrow> closing as' \<Longrightarrow>
      parses_tail stack as'"
  shows "parses_tail stack as"
proof -
  obtain a as' where a: "as = a # as'" "is_marker (ra_action a)" "\<And>c. ra_action a \<noteq> IfA c"
    using assms(2) by (auto simp: closing_def)
  show ?thesis
    using a(2)
  proof (cases rule: marker_cases)
    case (1 c)
    then show ?thesis
      using a(3) marker_sel(2) by metis
  next
    case (2 c)
    then have "validate_loop ((u, False) # stack) as' = Inr ()"
      using assms(1) a(1) validate_marker_simps(2) by metis
    then obtain b rest where b: "as' = flatten b @ rest" "plain_ok b" "depth b + Suc (length stack) \<le> max_if_depth"
        "validate_loop ((u, False) # stack) rest = Inr ()" "closing rest"
      using block [of as' "(u, False) # stack"] assms(3) a(1) by (auto simp: parses_block_def)
    then obtain t rest' where "rest = flatten_tail t @ rest'" "plain_ok_tail t"
        "depth_tail t + Suc (length stack) \<le> max_if_depth" "validate_loop stack rest' = Inr ()"
      using tail [of rest] a(1) by (auto simp: parses_tail_def)
    with b show ?thesis
      unfolding parses_tail_def a(1) using 2
      by (intro exI [of _ "OtherwiseIf (ra_uuid a) c b t"] exI [of _ rest']) auto
  next
    case 3
    then have "validate_loop ((u, True) # stack) as' = Inr ()"
      using assms(1) a(1) validate_marker_simps(3) [of u False stack "ra_uuid a" as'] by simp
    then obtain b rest where b: "as' = flatten b @ rest" "plain_ok b" "depth b + Suc (length stack) \<le> max_if_depth"
        "validate_loop ((u, True) # stack) rest = Inr ()" "closing rest"
      using block [of as' "(u, True) # stack"] assms(3) a(1) by (auto simp: parses_block_def)
    then obtain e rest' where e: "rest = e # rest'" "is_marker (ra_action e)" "\<And>c. ra_action e \<noteq> IfA c"
      by (auto simp: closing_def)
    then have "e = marker (ra_uuid e) EndIfA \<and> validate_loop stack rest' = Inr ()"
      using b(4) by (cases e; cases "ra_action e") (auto simp: marker_def validate_loop.simps(2))
    with b e(1) show ?thesis
      unfolding parses_tail_def a(1) using 3
      by (intro exI [of _ "Otherwise (ra_uuid a) b (ra_uuid e)"] exI [of _ rest']) auto
  next
    case 4
    then show ?thesis
      unfolding parses_tail_def a(1) using assms(1,3) a(1) validate_marker_simps(4) [of "(u, False)" stack "ra_uuid a" as']
      by (intro exI [of _ "CloseIf (ra_uuid a)"] exI [of _ as']) auto
  qed
qed

lemma parses_blockI:
  fixes as :: "'r raw_action list"
  assumes ok: "validate_loop stack as = Inr ()" "length stack \<le> max_if_depth"
    and block: "\<And>stack' (as' :: 'r raw_action list). length as' < length as \<Longrightarrow> validate_loop stack' as' = Inr () \<Longrightarrow>
      length stack' \<le> max_if_depth \<Longrightarrow> parses_block stack' as'"
    and tail: "\<And>u' stack' (as' :: 'r raw_action list). length as' < length as \<Longrightarrow>
      validate_loop ((u', False) # stack') as' = Inr () \<Longrightarrow> closing as' \<Longrightarrow> Suc (length stack') \<le> max_if_depth \<Longrightarrow>
      parses_tail stack' as'"
  shows "parses_block stack as"
proof (cases as)
  case Nil
  then show ?thesis
    using ok by (auto simp: parses_block_def intro!: exI [of _ Finished] split: list.splits)
next
  case (Cons a as')
  consider "\<not> is_marker (ra_action a)" | c where "a = marker (ra_uuid a) (IfA c)" | "closing as"
    using Cons by (cases a; cases "\<exists>c. ra_action a = IfA c"; cases "is_marker (ra_action a)") (auto simp: closing_def marker_def)
  then show ?thesis
  proof cases
    case 1
    then obtain b rest where "as' = flatten b @ rest" "plain_ok b" "depth b + length stack \<le> max_if_depth"
        "validate_loop stack rest = Inr ()" "if stack = [] then rest = [] else closing rest"
      using block [of as' stack] ok Cons by (auto simp: parses_block_def validate_plain)
    with 1 Cons show ?thesis
      unfolding parses_block_def by (intro exI [of _ "Plain a b"] exI [of _ rest]) auto
  next
    case (2 c)
    have fits: "Suc (length stack) \<le> max_if_depth" and "validate_loop ((ra_uuid a, False) # stack) as' = Inr ()"
      using ok(1) validate_marker_simps(1) [of stack "ra_uuid a" c as'] 2 Cons by (auto split: if_splits)
    then obtain body rest where b: "as' = flatten body @ rest" "plain_ok body"
        "depth body + Suc (length stack) \<le> max_if_depth" "validate_loop ((ra_uuid a, False) # stack) rest = Inr ()"
        "closing rest"
      using block [of as' "(ra_uuid a, False) # stack"] Cons by (auto simp: parses_block_def)
    then obtain t rest' where t: "rest = flatten_tail t @ rest'" "plain_ok_tail t"
        "depth_tail t + Suc (length stack) \<le> max_if_depth" "validate_loop stack rest' = Inr ()"
      using tail [of rest "ra_uuid a" stack] fits Cons by (auto simp: parses_tail_def)
    then obtain b' rest'' where "rest' = flatten b' @ rest''" "plain_ok b'" "depth b' + length stack \<le> max_if_depth"
        "validate_loop stack rest'' = Inr ()" "if stack = [] then rest'' = [] else closing rest''"
      using block [of rest' stack] ok(2) b(1) Cons by (auto simp: parses_block_def)
    with b t 2 Cons show ?thesis
      unfolding parses_block_def by (intro exI [of _ "Branch (ra_uuid a) c body t b'"] exI [of _ rest'']) auto
  next
    case 3
    then show ?thesis
      unfolding parses_block_def using ok closing_stack [OF ok(1) 3] by (intro exI [of _ Finished] exI [of _ as]) auto
  qed
qed

lemma validate_parses:
  fixes as :: "'r raw_action list"
  shows "(validate_loop stack as = Inr () \<longrightarrow> length stack \<le> max_if_depth \<longrightarrow> parses_block stack as) \<and>
   (validate_loop ((u, False) # stack) as = Inr () \<longrightarrow> closing as \<longrightarrow> Suc (length stack) \<le> max_if_depth \<longrightarrow>
     parses_tail stack as)"
proof (induction "length as" arbitrary: stack u as rule: less_induct)
  case less
  have block: "parses_block stack' as'"
    if "length as' < length as" "validate_loop stack' as' = Inr ()" "length stack' \<le> max_if_depth" for stack' and as' :: "'r raw_action list"
    using less [OF that(1)] that(2,3) by blast
  have tail: "parses_tail stack' as'"
    if "length as' < length as" "validate_loop ((u', False) # stack') as' = Inr ()" "closing as'"
      "Suc (length stack') \<le> max_if_depth" for u' stack' and as' :: "'r raw_action list"
    using less [OF that(1)] that(2-4) by blast
  have "parses_block stack as" if ok: "validate_loop stack as = Inr ()" "length stack \<le> max_if_depth"
    using ok block tail by (rule parses_blockI)
  then show ?case
    using parses_tailI [of u stack as] block tail by blast
qed

section \<open>What every step of a run keeps\<close>

locale run_invariant =
  fixes D :: "('r, 'w) sched_deps" and Q :: "'w run_state \<Rightarrow> bool"
  assumes keeps_send: "Q r \<Longrightarrow> Q (send_event e r)"
    and keeps_enter: "Q r \<Longrightarrow> Q (enter_step u r)"
    and keeps_error: "Q r \<Longrightarrow> Q (record_error u msg r)"
    and keeps_context: "Q r \<Longrightarrow> Q (r\<lparr>rs_ctx := ctx, rs_world := w\<rparr>)"
    and keeps_result: "Q r \<Longrightarrow> Q (r\<lparr>rs_successful := ok\<rparr>)"
begin

lemma keeps_mark: "Q r \<Longrightarrow> Q (mark u b r)"
  by (simp add: mark_def keeps_send keeps_enter)

lemma keeps_test:
  assumes "Q r" "test_condition D c r = (b, r')"
  shows "Q r'"
proof -
  have "r' = r\<lparr>rs_ctx := rs_ctx r, rs_world := rs_world r'\<rparr>"
    using assms(2) by (auto simp: test_condition_def split: prod.splits)
  then show ?thesis
    using keeps_context [OF assms(1), where ctx = "rs_ctx r" and w = "rs_world r'"] by simp
qed

lemma keeps_perform: "Q r \<Longrightarrow> Q (fst (perform_step D a r))"
  by (auto simp: perform_step_def Let_def keeps_context keeps_error keeps_result split: prod.splits sum.splits)

lemma keeps_plain: "Q r \<Longrightarrow> Q (fst (exec_plain D a r))"
  by (auto simp: exec_plain_def keeps_mark keeps_result keeps_perform split: schedule_action.splits)

lemma keeps_skip:
  fixes b :: "'r block" and t :: "'r tail"
  shows "Q r \<Longrightarrow> Q (skip_block b r)" and "Q s \<Longrightarrow> Q (skip_tail t s)"
  by (induction b and t arbitrary: r and s) (auto simp: keeps_mark)

lemma keeps_and_then: "Q (fst x) \<Longrightarrow> (\<And>r. Q r \<Longrightarrow> Q (fst (f r))) \<Longrightarrow> Q (fst (and_then x f))"
  by (simp add: and_then_def)

lemma keeps_branch:
  assumes "Q r" "\<And>s. Q s \<Longrightarrow> Q (fst (f s))" "\<And>s. Q s \<Longrightarrow> Q (fst (g s))"
  shows "Q (fst (case test_condition D c (mark u False r) of (taken, s) \<Rightarrow> if taken then f s else g s))"
proof -
  obtain taken s where t: "test_condition D c (mark u False r) = (taken, s)"
    by (meson surj_pair)
  have "Q s"
    using keeps_test [OF keeps_mark [OF assms(1)] t] .
  then show ?thesis
    by (simp add: t assms(2,3))
qed

lemma keeps_taken:
  fixes t :: "'r tail"
  assumes "\<And>r. Q r \<Longrightarrow> Q (fst (exec_block D body r))" "Q s"
  shows "Q (fst (and_then (exec_block D body s) (\<lambda>s. (skip_tail t s, True))))"
  using assms by (simp add: and_then_def keeps_skip)

lemma keeps_exec:
  fixes b :: "'r block" and t :: "'r tail"
  shows "Q r \<Longrightarrow> Q (fst (exec_block D b r))" and "Q s \<Longrightarrow> Q (fst (exec_tail D t s))"
proof (induction b and t arbitrary: r and s)
  case (Branch u c body t b)
  show ?case
    unfolding exec_block.simps
    by (rule keeps_and_then [OF keeps_branch [OF Branch.prems keeps_taken [OF Branch.IH(1)] Branch.IH(2) [OF keeps_skip(1)]]
          Branch.IH(3)])
next
  case (OtherwiseIf u c body t)
  show ?case
    unfolding exec_tail.simps
    by (rule keeps_branch [OF OtherwiseIf.prems keeps_taken [OF OtherwiseIf.IH(1)] OtherwiseIf.IH(2) [OF keeps_skip(1)]])
next
  case (Plain a b)
  show ?case
    unfolding exec_block.simps by (rule keeps_and_then [OF keeps_plain [OF Plain.prems] Plain.IH])
next
  case (Otherwise u body v)
  show ?case
    unfolding exec_tail.simps
    by (rule keeps_and_then [OF Otherwise.IH [OF keeps_mark [OF Otherwise.prems]]]) (simp add: keeps_mark)
qed (simp_all add: keeps_mark)

lemma keeps_run_validated:
  assumes "Q r"
  shows "Q (run_validated D as r)"
proof (cases "validate_action_structure as")
  case (Inl e)
  then show ?thesis
    using assms by (cases e) (auto simp: run_validated_def keeps_error keeps_result)
next
  case (Inr x)
  then obtain b where "flatten b = as" "plain_ok b"
    using validate_parses [of "[]" as] by (auto simp: validate_action_structure_def parses_block_def)
  then have "run_actions D [] as r = fst (exec_block D b r)"
    using run_exec(1) [of b "[]" D "[]" r] by (auto simp: resume_def)
  then show ?thesis
    using Inr keeps_exec(1) [OF assms] by (simp add: run_validated_def)
qed

end

text \<open>The errors a status shows are those it had, overridden by those of this run.\<close>

definition errors_tracked :: "(uuid \<times> string) list \<Rightarrow> 'w run_state \<Rightarrow> bool" where
  "errors_tracked old r \<longleftrightarrow> map_of (st_errors (rs_status r)) = map_of old ++ map_of (rs_errors r)"

interpretation tracked: run_invariant D "errors_tracked old" for D :: "('r, 'w) sched_deps" and old
  by unfold_locales
     (auto simp: errors_tracked_def send_event_def enter_step_def record_error_def update_conv')

section \<open>Templates\<close>

text \<open>A format string built from literal text, with its braces doubled, and variable names in braces.\<close>

datatype piece = Literal string | Name string

definition escape :: "string \<Rightarrow> string" where
  "escape s = concat (map (\<lambda>c. if c = CHR ''{'' \<or> c = CHR ''}'' then [c, c] else [c]) s)"

fun render :: "piece \<Rightarrow> string" where
  "render (Literal s) = escape s"
| "render (Name n) = CHR ''{'' # n @ [CHR ''}'']"

fun piece_ok :: "piece \<Rightarrow> bool" where
  "piece_ok (Literal s) = True"
| "piece_ok (Name n) = (CHR ''}'' \<notin> set n \<and> take 1 n \<noteq> ''{'')"

fun piece_value :: "execution_context \<Rightarrow> piece \<Rightarrow> string" where
  "piece_value ctx (Literal s) = s"
| "piece_value ctx (Name n) = expand_name ctx n"

lemma expand_escape: "expand_format ctx (escape s @ rest) = s @ expand_format ctx rest"
  by (induction s) (auto simp: escape_def)

lemma split_close_name: "CHR ''}'' \<notin> set n \<Longrightarrow> split_close (n @ CHR ''}'' # rest) = Some (n, rest)"
  by (induction n) auto

lemma expand_braced:
  assumes "piece_ok (Name n)"
  shows "expand_format ctx (CHR ''{'' # n @ CHR ''}'' # rest) = expand_name ctx n @ expand_format ctx rest"
proof -
  have "take 1 (n @ CHR ''}'' # rest) \<noteq> ''{''"
    using assms by (cases n) auto
  then show ?thesis
    using assms split_close_name [of n rest] by simp
qed

section \<open>A small server\<close>

text \<open>A server that is running, with every look at it counted, on which no action succeeds.\<close>

definition small_server :: "(unit, nat) sched_deps" where
  "small_server =
     \<lparr>observe = (\<lambda>n. (\<lparr>sv_state = Running, sv_uptime = 60, sv_cpu = Fin 1, sv_memory = 5, sv_disk = 9,
                       sv_exists = (\<lambda>f. f = ''a''), sv_locked = None\<rparr>, n + 1)),
      sleep_ms = (\<lambda>ms n. n), captures = (\<lambda>re s. None),
      perform = (\<lambda>a ctx n. (Inl ''failed'', ctx, n))\<rparr>"

definition small_block :: "unit block" where
  "small_block =
     Branch 1 (ServerStateIs Offline) (Plain (marker 2 (Sleep 5)) Finished)
       (OtherwiseIf 3 (FileExists ''a'') (Plain (marker 4 (Format ''x'' ''v'')) Finished)
         (Otherwise 5 (Plain (marker 6 (SendPower True PowerStop)) Finished) 7))
       (Plain (marker 8 (ExitA True)) Finished)"

section \<open>Properties\<close>

text \<open>
  C35. Validation accepts exactly the action lists that are nested blocks: every \<open>if\<close> has its \<open>end_if\<close>, \<open>else_if\<close>
  branches come before at most one \<open>else\<close>, and blocks are nested at most eight deep.
\<close>
theorem validation_accepts_exactly_blocks:
  "validate_action_structure as = Inr () \<longleftrightarrow> (\<exists>b. flatten b = as \<and> plain_ok b \<and> depth b \<le> max_if_depth)"
  using validate_parses [of "[]" as] validate_accepts(1) [of _ "[]" "[]"]
  by (auto simp: validate_action_structure_def parses_block_def)

text \<open>
  C34. The executor runs a schedule as the nested program its actions stand for, whatever the server does
  meanwhile: of an \<open>if\<close> block exactly the first branch whose condition holds is executed (conditions are
  evaluated in order, none after the first that holds and none in a skipped block), the others are reported as
  skipped, and an exit or a failing action ends the run at once. Messages, errors, variables and the result
  are those of the nested program.
\<close>
theorem executor_runs_nested_program:
  assumes "plain_ok b" and "depth b \<le> max_if_depth"
  shows "run_validated D (flatten b) r = fst (exec_block D b r)"
  using assms validate_accepts(1) [of b "[]" "[]"] run_exec(1) [of b "[]" D "[]" r]
  by (auto simp: run_validated_def validate_action_structure_def resume_def)

theorem executor_runs_nested_program_witness:
  "map_of (ec_variables (rs_ctx (run_validated small_server (flatten small_block)
     (start_run \<lparr>st_running = False, st_errors = [], st_step = None\<rparr> (context_new 1) 0)))) ''v'' = Some ''x''"
proof -
  have "plain_ok small_block" "depth small_block \<le> max_if_depth"
    by code_simp+
  note eq = executor_runs_nested_program [OF this]
  show ?thesis
    unfolding eq by code_simp
qed

text \<open>
  A format string of literal text with doubled braces and variable names in braces expands to the text with the
  values of the variables; a name without a value stays as it was written.
\<close>
lemma template_expands:
  assumes "list_all piece_ok ps"
  shows "expand_format ctx (concat (map render ps)) = concat (map (piece_value ctx) ps)"
  using assms
proof (induction ps)
  case (Cons p ps)
  then show ?case
    using expand_braced [of _ ctx "concat (map render ps)"]
    by (cases p) (simp_all add: expand_escape del: expand_format.simps)
qed simp

text \<open>
  C36. Triggers that run as tasks survive their removal. A schedule is created and then updated to the same
  schedule without its cron, console and resource triggers: the update compares the new triggers with the
  remembered ones, which never contain those, finds no difference and leaves all their tasks running.
\<close>
theorem removed_triggers_keep_running:
  "map snd (sc_tasks (hd (mg_schedules
     (update_schedules [old\<lparr>raw_triggers := filter (\<lambda>t. \<not> taskable t) (raw_triggers old)\<rparr>]
       (update_schedules [old] \<lparr>mg_schedules = [], mg_next_task = 0\<rparr>))))) = filter taskable (raw_triggers old)"
proof -
  have "trigger_eq t t" if "\<not> taskable t" for t
    using that by (cases t) auto
  then have "list_all2 trigger_eq ts ts" if "list_all (\<lambda>t. \<not> taskable t) ts" for ts
    using that by (induction ts) auto
  then have same: "\<not> triggers_differ (filter (\<lambda>t. \<not> taskable t) (raw_triggers old)) (filter (\<lambda>t. \<not> taskable t) (raw_triggers old))"
    by (simp add: triggers_differ_def list_all_iff)
  have "map snd (zip [0..<length us] (filter P us)) = filter P us" for P and us :: "trigger list"
    by (rule map_snd_zip_take [THEN trans]) (simp add: length_filter_le)
  with same show ?thesis
    by (simp add: update_schedules_def update_one_def schedule_new_def create_trigger_tasks_def schedule_update_def)
qed

text \<open>
  The errors shown for a schedule are never cleared: after a successful run without an error at a step, the
  status still shows the error that step had in an earlier run.
\<close>
lemma stale_errors_stay:
  assumes "run_schedule D now skip s w = (s', w', events, Some ok)"
    and "map_of (st_errors (sc_status s)) u = Some e"
    and "sc_completion s' = Some c" and "map_of (cs_errors c) u = None"
  shows "map_of (st_errors (sc_status s')) u = Some e"
proof -
  define ctx where "ctx = (case sc_next_context s of Some x \<Rightarrow> x | None \<Rightarrow> context_new (sc_uuid s))"
  obtain met v where "(if skip then (True, w) else evaluate (observe D) ctx (sc_condition s) w) = (met, v)"
    by (meson surj_pair)
  then have s': "sc_status s' = (rs_status (run_validated D (sc_actions s) (start_run (sc_status s) ctx v)))
      \<lparr>st_running := False, st_step := None\<rparr>"
    and c: "cs_errors c = rs_errors (run_validated D (sc_actions s) (start_run (sc_status s) ctx v))"
    using assms(1,3) by (auto simp: run_schedule_def ctx_def [symmetric] Let_def send_event_def simp del: split_paired_Ex split: if_splits)
  have "errors_tracked (st_errors (sc_status s)) (run_validated D (sc_actions s) (start_run (sc_status s) ctx v))"
    by (rule tracked.keeps_run_validated) (simp add: errors_tracked_def start_run_def)
  then show ?thesis
    using assms(2,4) by (simp add: errors_tracked_def s' c map_add_def)
qed

end
