(* ===== verification/Activities.thy ===== *)
theory Activities
  imports Prelude "HOL-Library.AList" "HOL-Library.Multiset"
begin

text \<open>
  The activity log of a server (\<^verbatim>\<open>server/activity.rs\<close>): a bounded channel, a task that drains it, merges what
  belongs together and sends it in portions. File activities of one user are merged when they are at most a
  minute from the first of them. The order in which a hash map yields its values is a parameter.
\<close>

section \<open>Activities\<close>

datatype json =
    JNull | JBool bool | JNumber int | JString string | JArray "json list" | JObject "(string \<times> json) list"

fun json_get :: "string \<Rightarrow> json \<Rightarrow> json option" where
  "json_get k (JObject kvs) = map_of kvs k"
| "json_get k _ = None"

fun as_array :: "json \<Rightarrow> json list option" where
  "as_array (JArray xs) = Some xs"
| "as_array _ = None"

fun as_str :: "json \<Rightarrow> string option" where
  "as_str (JString s) = Some s"
| "as_str _ = None"

datatype activity_event =
    PowerStart | PowerStop | PowerRestart | PowerKill | ConsoleCommand
  | SftpLogin | SftpWrite | SftpRead | SftpCreate | SftpCreateDirectory | SftpRename | SftpDelete
  | FileUploaded | FileCompress | FileDecompress | FileCreateDirectory | FileWrite | FileCopy | FileDelete | FileRename

definition is_sftp_event :: "activity_event \<Rightarrow> bool" where
  "is_sftp_event e = (e \<in> {SftpWrite, SftpRead, SftpCreate, SftpCreateDirectory, SftpRename, SftpDelete})"

record activity =
  ac_user :: "nat option"
  ac_event :: activity_event
  ac_metadata :: "json option"
  ac_ip :: "string option"
  ac_schedule :: "nat option"
  ac_timestamp :: int

definition channel_capacity :: nat where
  "channel_capacity = 5120"

text \<open>Timestamps are nanoseconds; whole seconds between two of them, rounded towards zero.\<close>

definition seconds_apart :: "activity \<Rightarrow> activity \<Rightarrow> int" where
  "seconds_apart a b = \<bar>ac_timestamp a - ac_timestamp b\<bar> div 1000000000"

definition extract_files :: "activity \<Rightarrow> json list" where
  "extract_files a =
     (case ac_metadata a of
        None \<Rightarrow> []
      | Some m \<Rightarrow>
          (case json_get ''files'' m of
             None \<Rightarrow> []
           | Some f \<Rightarrow> (case as_array f of None \<Rightarrow> [] | Some xs \<Rightarrow> xs)))"

fun set_files :: "json list \<Rightarrow> json \<Rightarrow> json" where
  "set_files xs (JObject kvs) = (if map_of kvs ''files'' = None then JObject kvs else JObject (AList.update ''files'' (JArray xs) kvs))"
| "set_files xs m = m"

definition finalize_files :: "json list \<Rightarrow> activity \<Rightarrow> activity" where
  "finalize_files xs a = (if xs = [] then a else a\<lparr>ac_metadata := map_option (set_files xs) (ac_metadata a)\<rparr>)"

section \<open>Merging\<close>

type_synonym 'k groups = "('k \<times> activity \<times> json list) list"

definition has_files :: "activity \<Rightarrow> bool" where
  "has_files a = (case ac_metadata a of None \<Rightarrow> False | Some m \<Rightarrow> json_get ''files'' m \<noteq> None)"

definition sftp_key :: "activity \<Rightarrow> (activity_event \<times> nat option) option" where
  "sftp_key a = (if is_sftp_event (ac_event a) \<and> has_files a then Some (ac_event a, ac_user a) else None)"

definition upload_key :: "activity \<Rightarrow> (nat option \<times> string) option" where
  "upload_key a =
     (if ac_event a = FileUploaded \<and> has_files a then
        (case ac_metadata a of
           None \<Rightarrow> None
         | Some m \<Rightarrow>
             (case json_get ''directory'' m of
                None \<Rightarrow> None
              | Some d \<Rightarrow> (case as_str d of None \<Rightarrow> None | Some dir \<Rightarrow> Some (ac_user a, dir))))
      else None)"

definition group_step :: "'k \<Rightarrow> activity \<Rightarrow> activity list \<Rightarrow> 'k groups \<Rightarrow> activity list \<times> 'k groups" where
  "group_step k a merged gs =
     (case map_of gs k of
        None \<Rightarrow> (merged, AList.update k (a, extract_files a) gs)
      | Some (base, files) \<Rightarrow>
          if seconds_apart a base \<le> 60 then (merged, AList.update k (base, files @ extract_files a) gs)
          else (merged @ [finalize_files files base], AList.update k (a, extract_files a) (AList.delete k gs)))"

fun merge_loop ::
    "activity list \<Rightarrow> activity list \<Rightarrow> (activity_event \<times> nat option) groups \<Rightarrow> (nat option \<times> string) groups \<Rightarrow>
     activity list \<times> (activity_event \<times> nat option) groups \<times> (nat option \<times> string) groups" where
  "merge_loop [] merged sftp uploads = (merged, sftp, uploads)"
| "merge_loop (a # as) merged sftp uploads =
     (case sftp_key a of
        Some k \<Rightarrow> (case group_step k a merged sftp of (merged', sftp') \<Rightarrow> merge_loop as merged' sftp' uploads)
      | None \<Rightarrow>
          (case upload_key a of
             Some k \<Rightarrow> (case group_step k a merged uploads of (merged', uploads') \<Rightarrow> merge_loop as merged' sftp uploads')
           | None \<Rightarrow> merge_loop as (merged @ [a]) sftp uploads))"

definition finalize_group :: "activity \<times> json list \<Rightarrow> activity" where
  "finalize_group g = finalize_files (snd g) (fst g)"

definition merge_activities ::
    "((activity \<times> json list) list \<Rightarrow> (activity \<times> json list) list) \<Rightarrow> activity list \<Rightarrow> activity list" where
  "merge_activities order as =
     (case merge_loop as [] [] [] of
        (merged, sftp, uploads) \<Rightarrow>
          merged @ map finalize_group (order (map snd sftp)) @ map finalize_group (order (map snd uploads)))"

section \<open>The manager\<close>

text \<open>\<open>am_sent\<close> holds the portions handed to the panel, with whether it took them.\<close>

record activity_manager =
  am_queue :: "activity list"
  am_leftover :: "activity list"
  am_sent :: "(activity list \<times> bool) list"

definition activity_manager_new :: activity_manager where
  "activity_manager_new = \<lparr>am_queue = [], am_leftover = [], am_sent = []\<rparr>"

definition log_activity :: "activity \<Rightarrow> activity_manager \<Rightarrow> activity_manager" where
  "log_activity a m = (if length (am_queue m) < channel_capacity then m\<lparr>am_queue := am_queue m @ [a]\<rparr> else m)"

text \<open>One turn of the task after its sleep; it waits as long as the channel is empty.\<close>

definition send_turn ::
    "((activity \<times> json list) list \<Rightarrow> (activity \<times> json list) list) \<Rightarrow> nat \<Rightarrow> bool \<Rightarrow> activity_manager \<Rightarrow> activity_manager" where
  "send_turn order send_count ok m =
     (if am_queue m = [] then m
      else
        let merged = merge_activities order (am_leftover m @ take channel_capacity (am_queue m));
            to_send = take send_count merged; rest = drop send_count merged
        in m\<lparr>am_queue := drop channel_capacity (am_queue m), am_leftover := rest,
             am_sent := (if to_send = [] then am_sent m else am_sent m @ [(to_send, ok)])\<rparr>)"

section \<open>Accounting for every file\<close>

datatype log_entry = Whole activity | FileBySftp activity_event "nat option" json | FileByUpload "nat option" string json

definition account :: "activity \<Rightarrow> log_entry multiset" where
  "account a =
     (case sftp_key a of
        Some (e, u) \<Rightarrow> mset (map (FileBySftp e u) (extract_files a))
      | None \<Rightarrow>
          (case upload_key a of
             Some (u, d) \<Rightarrow> mset (map (FileByUpload u d) (extract_files a))
           | None \<Rightarrow> {#Whole a#}))"

definition accounts :: "activity list \<Rightarrow> log_entry multiset" where
  "accounts as = sum_list (map account as)"

lemma accounts_simps [simp]:
  "accounts [] = {#}" "accounts (a # as) = account a + accounts as" "accounts (as @ bs) = accounts as + accounts bs"
  by (simp_all add: accounts_def)

lemma accounts_take_drop: "accounts (take n as) + accounts (drop n as) = accounts as"
  by (metis accounts_simps(3) append_take_drop_id)

definition groups_account :: "('k \<Rightarrow> json \<Rightarrow> log_entry) \<Rightarrow> 'k groups \<Rightarrow> log_entry multiset" where
  "groups_account f gs = sum_list (map (\<lambda>(k, b, files). mset (map (f k) files)) gs)"

text \<open>What holds of every group: its first activity has the key, and its files start with those of that activity.\<close>

definition groups_ok :: "(activity \<Rightarrow> 'k option) \<Rightarrow> 'k groups \<Rightarrow> bool" where
  "groups_ok key gs \<longleftrightarrow>
     distinct (map fst gs) \<and>
     (\<forall>(k, b, files)\<in>set gs. key b = Some k \<and> (\<exists>ext. files = extract_files b @ ext))"

lemma groups_account_simps [simp]:
  "groups_account f [] = {#}"
  "groups_account f (g # gs) = mset (map (f (fst g)) (snd (snd g))) + groups_account f gs"
  by (simp_all add: groups_account_def split: prod.splits)

lemma groups_account_insert:
  "map_of gs k = None \<Longrightarrow>
   groups_account f (AList.update k (b, files) gs) = groups_account f gs + mset (map (f k) files)"
  by (induction gs) (auto split: if_splits)

lemma groups_account_extend:
  "map_of gs k = Some (b0, old) \<Longrightarrow>
   groups_account f (AList.update k (b, old @ files) gs) = groups_account f gs + mset (map (f k) files)"
  by (induction gs) (auto split: if_splits)

lemma groups_account_delete:
  assumes "distinct (map fst gs)" "map_of gs k = Some (b0, old)"
  shows "groups_account f gs = groups_account f (AList.delete k gs) + mset (map (f k) old)"
  using assms
proof (induction gs)
  case (Cons g gs)
  show ?case
  proof (cases "fst g = k")
    case True
    then have "AList.delete k gs = gs"
      using Cons.prems(1) by (intro delete_id) auto
    then show ?thesis
      using True Cons.prems(2) by (cases g) (auto simp: AList.delete_eq)
  next
    case False
    then show ?thesis
      using Cons by (cases g) (auto simp: AList.delete_eq)
  qed
qed simp

lemma groups_ok_update:
  assumes "groups_ok key gs" "key b = Some k"
  shows "groups_ok key (AList.update k (b, extract_files b @ ext) gs)"
proof -
  have "x = (k, v) \<or> x \<in> set gs" if "x \<in> set (AList.update k v gs)" for x and v :: "activity \<times> json list"
    using that by (induction gs) (auto split: if_splits)
  then show ?thesis
    using assms by (fastforce simp: groups_ok_def distinct_update)
qed

lemma groups_ok_delete: "groups_ok key gs \<Longrightarrow> groups_ok key (AList.delete k gs)"
  by (auto simp: groups_ok_def AList.delete_eq distinct_map_filter)

section \<open>Merging keeps every file\<close>

lemma finalize_parts:
  assumes "has_files b"
  shows "sftp_key (finalize_files files b) = sftp_key b" "upload_key (finalize_files files b) = upload_key b"
    and "extract_files (finalize_files files b) = (if files = [] then extract_files b else files)"
proof -
  obtain kvs f where m: "ac_metadata b = Some (JObject kvs)" "map_of kvs ''files'' = Some f"
    using assms by (cases "ac_metadata b"; cases "the (ac_metadata b)") (auto simp: has_files_def)
  then show "sftp_key (finalize_files files b) = sftp_key b" "upload_key (finalize_files files b) = upload_key b"
      "extract_files (finalize_files files b) = (if files = [] then extract_files b else files)"
    by (auto simp: finalize_files_def sftp_key_def upload_key_def has_files_def extract_files_def update_conv'
        split: option.splits)
qed

lemma finalize_account:
  assumes "files = extract_files b @ ext"
  shows "sftp_key b = Some (e, u) \<Longrightarrow> account (finalize_files files b) = mset (map (FileBySftp e u) files)"
    and "sftp_key b = None \<Longrightarrow> upload_key b = Some (u, d) \<Longrightarrow>
      account (finalize_files files b) = mset (map (FileByUpload u d) files)"
  using finalize_parts [of b files] assms
  by (auto simp: account_def sftp_key_def upload_key_def split: if_splits)

text \<open>
  The two maps of the loop follow one contract: a key function, the entries a file of a group stands for, and the
  account of a finished group.
\<close>

locale file_groups =
  fixes key :: "activity \<Rightarrow> 'k option" and file_entry :: "'k \<Rightarrow> json \<Rightarrow> log_entry"
  assumes single: "key a = Some k \<Longrightarrow> account a = mset (map (file_entry k) (extract_files a))"
    and finished: "key b = Some k \<Longrightarrow> files = extract_files b @ ext \<Longrightarrow>
      account (finalize_files files b) = mset (map (file_entry k) files)"
begin

lemma group_step_account:
  assumes "groups_ok key gs" "key a = Some k" "group_step k a merged gs = (merged', gs')"
  shows "groups_ok key gs' \<and> accounts merged' + groups_account file_entry gs' =
    accounts merged + groups_account file_entry gs + account a"
proof (cases "map_of gs k")
  case None
  then show ?thesis
    using assms groups_ok_update [OF assms(1,2), where ext = "[]"] groups_account_insert [OF None]
    by (auto simp: group_step_def single)
next
  case (Some g)
  obtain base files where g: "g = (base, files)"
    by (cases g)
  then have base: "key base = Some k" and "\<exists>ext. files = extract_files base @ ext" and dist: "distinct (map fst gs)"
    using assms(1) map_of_SomeD [OF Some] by (auto simp: groups_ok_def)
  then obtain ext where ext: "files = extract_files base @ ext"
    by blast
  show ?thesis
  proof (cases "seconds_apart a base \<le> 60")
    case True
    then show ?thesis
      using assms Some g groups_ok_update [OF assms(1) base, where ext = "ext @ extract_files a"]
        groups_account_extend [of gs k base files] single
      by (auto simp: group_step_def ext)
  next
    case False
    have "map_of (AList.delete k gs) k = None"
      by (simp add: AList.delete_conv')
    then show ?thesis
      using assms False Some g groups_ok_update [OF groups_ok_delete [OF assms(1)] assms(2), where ext = "[]"]
        groups_account_delete [OF dist, of k base files] groups_account_insert [of "AList.delete k gs" k]
        finished [OF base ext] single
      by (auto simp: group_step_def)
  qed
qed

lemma finalized_account:
  assumes "groups_ok key gs"
  shows "accounts (map finalize_group (map snd gs)) = groups_account file_entry gs"
  using assms finished
  by (induction gs) (auto simp: groups_ok_def finalize_group_def split: prod.splits)

end

interpretation sftp: file_groups sftp_key "\<lambda>(e, u). FileBySftp e u"
proof
  show "account a = mset (map ((\<lambda>(e, u). FileBySftp e u) k) (extract_files a))" if "sftp_key a = Some k" for a k
    using that by (simp add: account_def split: prod.splits)
  show "account (finalize_files files b) = mset (map ((\<lambda>(e, u). FileBySftp e u) k) files)"
    if "sftp_key b = Some k" "files = extract_files b @ ext" for b k files ext
    using finalize_account(1) [OF that(2)] that(1) by (cases k) simp
qed

text \<open>An activity with a key for uploads has none for SFTP.\<close>

lemma upload_not_sftp: "upload_key a = Some k \<Longrightarrow> sftp_key a = None"
  by (auto simp: upload_key_def sftp_key_def is_sftp_event_def split: if_splits)

interpretation upload: file_groups upload_key "\<lambda>(u, d). FileByUpload u d"
proof
  show "account a = mset (map ((\<lambda>(u, d). FileByUpload u d) k) (extract_files a))" if "upload_key a = Some k" for a k
    using that by (simp add: account_def upload_not_sftp split: prod.splits)
  show "account (finalize_files files b) = mset (map ((\<lambda>(u, d). FileByUpload u d) k) files)"
    if "upload_key b = Some k" "files = extract_files b @ ext" for b k files ext
    using finalize_account(2) [OF that(2)] that(1) upload_not_sftp [OF that(1)] by (cases k) simp
qed

lemma merge_loop_account:
  assumes "groups_ok sftp_key sftp" "groups_ok upload_key uploads" "merge_loop as merged sftp uploads = (merged', sftp', uploads')"
  shows "groups_ok sftp_key sftp' \<and> groups_ok upload_key uploads' \<and>
    accounts merged' + groups_account (\<lambda>(e, u). FileBySftp e u) sftp' + groups_account (\<lambda>(u, d). FileByUpload u d) uploads' =
    accounts merged + groups_account (\<lambda>(e, u). FileBySftp e u) sftp + groups_account (\<lambda>(u, d). FileByUpload u d) uploads +
    accounts as"
  using assms
proof (induction as arbitrary: merged sftp uploads)
  case (Cons a as)
  show ?case
  proof (cases "sftp_key a")
    case (Some k)
    obtain merged1 sftp1 where step: "group_step k a merged sftp = (merged1, sftp1)"
      by (meson surj_pair)
    from sftp.group_step_account [OF Cons.prems(1) Some step] Cons.IH [OF _ Cons.prems(2), of sftp1 merged1]
    show ?thesis
      using Cons.prems(3) Some step by (auto simp: ac_simps)
  next
    case none: None
    show ?thesis
    proof (cases "upload_key a")
      case None
      then show ?thesis
        using Cons.IH [OF Cons.prems(1,2), of "merged @ [a]"] Cons.prems(3) none by (auto simp: ac_simps)
    next
      case (Some k)
      obtain merged1 uploads1 where step: "group_step k a merged uploads = (merged1, uploads1)"
        by (meson surj_pair)
      from upload.group_step_account [OF Cons.prems(2) Some step] Cons.IH [OF Cons.prems(1), of uploads1 merged1]
      show ?thesis
        using Cons.prems(3) Some none step by (auto simp: ac_simps)
    qed
  qed
qed auto

lemma accounts_order:
  assumes "\<And>gs. mset (order gs) = mset gs"
  shows "accounts (map finalize_group (order gs)) = accounts (map finalize_group gs)"
proof -
  have "accounts (map finalize_group xs) = sum_mset (image_mset (account \<circ> finalize_group) (mset xs))" for xs
    by (induction xs) auto
  then show ?thesis
    by (simp add: assms)
qed

lemma merge_account:
  assumes "\<And>gs. mset (order gs) = mset gs"
  shows "accounts (merge_activities order as) = accounts as"
proof -
  obtain merged sftp uploads where m: "merge_loop as [] [] [] = (merged, sftp, uploads)"
    by (metis prod_cases3)
  have "groups_ok sftp_key []" "groups_ok upload_key []"
    by (simp_all add: groups_ok_def)
  from merge_loop_account [OF this m] show ?thesis
    using sftp.finalized_account [of sftp] upload.finalized_account [of uploads]
    by (simp add: merge_activities_def m accounts_order [OF assms] ac_simps del: map_map)
qed

section \<open>Runs of the manager\<close>

datatype activity_op = Log activity | Turn bool

fun activity_step ::
    "((activity \<times> json list) list \<Rightarrow> (activity \<times> json list) list) \<Rightarrow> nat \<Rightarrow> activity_op \<Rightarrow> activity_manager \<Rightarrow> activity_manager" where
  "activity_step order n (Log a) m = log_activity a m"
| "activity_step order n (Turn ok) m = send_turn order n ok m"

text \<open>The activities that found room in the channel.\<close>

fun accepted ::
    "((activity \<times> json list) list \<Rightarrow> (activity \<times> json list) list) \<Rightarrow> nat \<Rightarrow> activity_op list \<Rightarrow> activity_manager \<Rightarrow> activity list" where
  "accepted order n [] m = []"
| "accepted order n (p # ops) m =
     (case p of
        Log a \<Rightarrow> if length (am_queue m) < channel_capacity then [a] else []
      | Turn ok \<Rightarrow> []) @ accepted order n ops (activity_step order n p m)"

definition held :: "activity_manager \<Rightarrow> log_entry multiset" where
  "held m = accounts (concat (map fst (am_sent m))) + accounts (am_leftover m) + accounts (am_queue m)"

lemma send_turn_held:
  assumes "\<And>gs. mset (order gs) = mset gs"
  shows "held (send_turn order n ok m) = held m"
proof -
  let ?merged = "merge_activities order (am_leftover m @ take channel_capacity (am_queue m))"
  have "accounts (take n ?merged) + accounts (drop n ?merged) + accounts (drop channel_capacity (am_queue m)) =
      accounts (am_leftover m) + accounts (am_queue m)"
    by (simp add: accounts_take_drop merge_account [OF assms] accounts_take_drop add.assoc del: take_append drop_append)
  then show ?thesis
    by (auto simp: send_turn_def held_def Let_def ac_simps)
qed

lemma activity_step_held:
  assumes "\<And>gs. mset (order gs) = mset gs"
  shows "held (activity_step order n p m) = held m + accounts (accepted order n [p] m)"
proof (cases p)
  case (Log a)
  then show ?thesis
    by (simp add: log_activity_def held_def)
next
  case (Turn ok)
  then show ?thesis
    using send_turn_held [of order, OF assms] by simp
qed

lemma activity_run_held:
  assumes "\<And>gs. mset (order gs) = mset gs"
  shows "held (fold (activity_step order n) ops m) = held m + accounts (accepted order n ops m)"
proof (induction ops arbitrary: m)
  case (Cons p ops)
  then show ?case
    using activity_step_held [of order n p m, OF assms] by (simp add: ac_simps)
qed simp

lemma portions_bounded:
  assumes "\<forall>(p, ok)\<in>set (am_sent m). length p \<le> n"
  shows "\<forall>(p, ok)\<in>set (am_sent (fold (activity_step order n) ops m)). length p \<le> n"
  using assms
proof (induction ops arbitrary: m)
  case (Cons p ops)
  have "\<forall>(q, ok)\<in>set (am_sent (activity_step order n p m)). length q \<le> n"
    using Cons.prems by (cases p) (auto simp: log_activity_def send_turn_def Let_def)
  from Cons.IH [OF this] show ?case
    by simp
qed simp

text \<open>
  C37. No file is lost or reported twice on its way to the panel. After any series of activities and turns of the
  task, what was handed over, what is left over and what waits in the channel name, with its user, event and
  directory, exactly every file of the activities the channel accepted, and hold every other activity unchanged,
  once each, although activities were merged several times over; every portion respects the configured size. This
  is so for every order in which the hash maps yield their groups.
\<close>
theorem no_activity_lost_by_merging:
  assumes "\<And>gs. mset (order gs) = mset gs"
    and "m = fold (activity_step order n) ops activity_manager_new"
  shows "accounts (concat (map fst (am_sent m))) + accounts (am_leftover m) + accounts (am_queue m) =
           accounts (accepted order n ops activity_manager_new) \<and>
         (\<forall>(p, ok)\<in>set (am_sent m). length p \<le> n)"
  using activity_run_held [OF assms(1), where ops = ops and n = n and m = activity_manager_new]
    portions_bounded [where ops = ops and n = n and m = activity_manager_new and order = order]
  by (simp add: assms(2) held_def activity_manager_new_def)

definition two_writes :: "activity_op list" where
  "two_writes =
     [Log \<lparr>ac_user = Some 1, ac_event = SftpWrite, ac_metadata = Some (JObject [(''files'', JArray [JString ''a''])]),
           ac_ip = None, ac_schedule = None, ac_timestamp = 0\<rparr>,
      Log \<lparr>ac_user = Some 1, ac_event = SftpWrite, ac_metadata = Some (JObject [(''files'', JArray [JString ''b''])]),
           ac_ip = None, ac_schedule = None, ac_timestamp = 30000000000\<rparr>,
      Turn True]"

theorem no_activity_lost_by_merging_witness:
  "accounts (concat (map fst (am_sent (fold (activity_step rev 10) two_writes activity_manager_new)))) =
     {#FileBySftp SftpWrite (Some 1) (JString ''a''), FileBySftp SftpWrite (Some 1) (JString ''b'')#}"
proof -
  let ?m = "fold (activity_step rev 10) two_writes activity_manager_new"
  have "am_leftover ?m = []" "am_queue ?m = []"
    by (simp_all add: two_writes_def log_activity_def activity_manager_new_def channel_capacity_def send_turn_def
        merge_activities_def sftp_key_def is_sftp_event_def has_files_def group_step_def seconds_apart_def extract_files_def)
  moreover have "accounts (accepted rev 10 two_writes activity_manager_new) =
      {#FileBySftp SftpWrite (Some 1) (JString ''a''), FileBySftp SftpWrite (Some 1) (JString ''b'')#}"
    by (simp add: two_writes_def log_activity_def activity_manager_new_def channel_capacity_def account_def
        sftp_key_def is_sftp_event_def has_files_def extract_files_def)
  ultimately show ?thesis
    using no_activity_lost_by_merging [of rev, OF _ refl, where n = 10 and ops = two_writes] by simp
qed

text \<open>
  What did not fit into a portion waits for new activity: with an empty channel a turn changes nothing, however
  much is left over.
\<close>
lemma leftover_waits_for_traffic:
  "am_queue m = [] \<Longrightarrow> fold (\<lambda>ok. send_turn order n ok) oks m = m"
  by (induction oks) (simp_all add: send_turn_def)

end
