(* ===== verification/Placeholders.thy ===== *)
theory Placeholders
  imports Bytes "HOL-Library.Sublist"
begin

text \<open>
  The values a server's configuration files are filled with (\<^verbatim>\<open>server/configuration/process/mod.rs\<close>): JSON values,
  the variables of the server, the environment and the daemon, and the replacement of placeholders in double
  braces. Text is a list of Unicode code points; where the code slices by bytes the lengths in UTF-8 are written
  out. How the JSON library prints a value is a parameter.
\<close>

section \<open>Characters\<close>

type_synonym ustring = "nat list"

abbreviation (input) newline :: nat where "newline \<equiv> 10"
abbreviation (input) carriage_return :: nat where "carriage_return \<equiv> 13"
abbreviation (input) hash_sign :: nat where "hash_sign \<equiv> 35"
abbreviation (input) bang :: nat where "bang \<equiv> 33"
abbreviation (input) equals_sign :: nat where "equals_sign \<equiv> 61"
abbreviation (input) colon :: nat where "colon \<equiv> 58"
abbreviation (input) backslash :: nat where "backslash \<equiv> 92"
abbreviation (input) open_brace :: nat where "open_brace \<equiv> 123"
abbreviation (input) close_brace :: nat where "close_brace \<equiv> 125"

definition is_whitespace :: "nat \<Rightarrow> bool" where
  "is_whitespace c =
     (9 \<le> c \<and> c \<le> 13 \<or> c = 32 \<or> c = 133 \<or> c = 160 \<or> c = 5760 \<or> 8192 \<le> c \<and> c \<le> 8202 \<or>
      c = 8232 \<or> c = 8233 \<or> c = 8239 \<or> c = 8287 \<or> c = 12288)"

definition trim_start :: "ustring \<Rightarrow> ustring" where
  "trim_start = dropWhile is_whitespace"

definition utf8_len :: "nat \<Rightarrow> nat" where
  "utf8_len c = (if c < 128 then 1 else if c < 2048 then 2 else if c < 65536 then 3 else 4)"

text \<open>A slice from a byte offset, \<^verbatim>\<open>None\<close> when it is past the end or inside a character.\<close>

fun drop_bytes :: "nat \<Rightarrow> ustring \<Rightarrow> ustring option" where
  "drop_bytes n [] = (if n = 0 then Some [] else None)"
| "drop_bytes n (c # cs) =
     (if n = 0 then Some (c # cs) else if utf8_len c \<le> n then drop_bytes (n - utf8_len c) cs else None)"

definition from_u32 :: "nat \<Rightarrow> nat option" where
  "from_u32 c = (if c < 1114112 \<and> \<not> (55296 \<le> c \<and> c < 57344) then Some c else None)"

definition chars :: "string \<Rightarrow> ustring" where
  "chars s = map of_char s"

fun strip_open :: "ustring \<Rightarrow> ustring" where
  "strip_open (a # b # s) = (if a = open_brace \<and> b = open_brace then strip_open s else a # b # s)"
| "strip_open s = s"

fun strip_closing :: "ustring \<Rightarrow> ustring" where
  "strip_closing (a # b # s) = (if a = close_brace \<and> b = close_brace then strip_closing s else a # b # s)"
| "strip_closing s = s"

definition trim :: "ustring \<Rightarrow> ustring" where
  "trim s = rev (trim_start (rev (trim_start s)))"

fun split_dots :: "ustring \<Rightarrow> ustring list" where
  "split_dots [] = [[]]"
| "split_dots (c # cs) =
     (if c = 46 then [] # split_dots cs
      else (case split_dots cs of [] \<Rightarrow> [[c]] | p # ps \<Rightarrow> (c # p) # ps))"

section \<open>JSON values\<close>

text \<open>Objects keep the order in which their keys were inserted; a number is kept as it is printed.\<close>

datatype json_value =
  VNull | VBool bool | VNumber ustring | VString ustring | VArray "json_value list" | VObject "(ustring \<times> json_value) list"

fun value_get :: "ustring \<Rightarrow> json_value \<Rightarrow> json_value option" where
  "value_get k (VObject m) = map_of m k"
| "value_get k _ = None"

text \<open>Removing an entry puts the last entry in its place.\<close>

fun swap_remove :: "'k \<Rightarrow> ('k \<times> 'v) list \<Rightarrow> ('k \<times> 'v) list" where
  "swap_remove k [] = []"
| "swap_remove k (e # es) =
     (if fst e = k then (if es = [] then [] else last es # butlast es) else e # swap_remove k es)"

fun map_entry :: "('v \<Rightarrow> 'v) \<Rightarrow> 'k \<Rightarrow> ('k \<times> 'v) list \<Rightarrow> ('k \<times> 'v) list" where
  "map_entry f k [] = []"
| "map_entry f k (e # es) = (if fst e = k then (fst e, f (snd e)) # es else e # map_entry f k es)"

fun strip_path :: "ustring list \<Rightarrow> json_value \<Rightarrow> json_value" where
  "strip_path (p # ps) (VObject m) = VObject (if ps = [] then swap_remove p m else map_entry (strip_path ps) p m)"
| "strip_path _ v = v"

definition strip_paths :: "json_value \<Rightarrow> ustring list \<Rightarrow> json_value" where
  "strip_paths v paths = foldl (\<lambda>v p. strip_path (split_dots p) v) v paths"

section \<open>Variables\<close>

record server_config =
  sc_memory_limit :: int
  sc_swap :: int
  sc_io_weight :: "nat option"
  sc_cpu_limit :: int
  sc_disk_space :: nat
  sc_threads :: "ustring option"
  sc_default :: "(ustring \<times> nat) option"
  sc_environment :: "(ustring \<times> json_value) list"

text \<open>The configuration of the daemon as the JSON library serialises it, and how that library prints a value.\<close>

record variables =
  va_server :: server_config
  va_config :: "json_value option"
  va_json_text :: "json_value \<Rightarrow> ustring"

datatype config_error = SerializeFailed | PrintFailed

definition show_nat :: "nat \<Rightarrow> ustring" where
  "show_nat n = chars (decimal n)"

definition show_int :: "int \<Rightarrow> ustring" where
  "show_int i = (if i < 0 then chars ''-'' @ show_nat (nat (- i)) else show_nat (nat i))"

definition lookup_environment :: "variables \<Rightarrow> ustring \<Rightarrow> ustring" where
  "lookup_environment va name =
     (case map_of (sc_environment (va_server va)) name of
        None \<Rightarrow> []
      | Some (VString s) \<Rightarrow> s
      | Some v \<Rightarrow> va_json_text va v)"

definition lookup_server_variable :: "variables \<Rightarrow> ustring list \<Rightarrow> ustring" where
  "lookup_server_variable va parts =
     (let config = va_server va in
      case parts of
        [] \<Rightarrow> []
      | section # rest \<Rightarrow>
          if section = chars ''build'' then
            (case rest of
               [] \<Rightarrow> []
             | subpath # more_parts \<Rightarrow>
                 if subpath = chars ''memory'' then show_int (sc_memory_limit config)
                 else if subpath = chars ''swap'' then show_int (sc_swap config)
                 else if subpath = chars ''io'' then
                   (case sc_io_weight config of None \<Rightarrow> chars ''500'' | Some w \<Rightarrow> show_nat w)
                 else if subpath = chars ''cpu'' then show_int (sc_cpu_limit config)
                 else if subpath = chars ''disk'' then show_nat (sc_disk_space config)
                 else if subpath = chars ''threads'' then (case sc_threads config of None \<Rightarrow> [] | Some t \<Rightarrow> t)
                 else if subpath = chars ''default'' then
                   (case more_parts of
                      [] \<Rightarrow> []
                    | part # _ \<Rightarrow>
                        if part = chars ''port'' then (case sc_default config of None \<Rightarrow> [] | Some (ip, port) \<Rightarrow> show_nat port)
                        else if part = chars ''ip'' then (case sc_default config of None \<Rightarrow> [] | Some (ip, port) \<Rightarrow> ip)
                        else [])
                 else if subpath = chars ''env'' then
                   (case more_parts of [] \<Rightarrow> [] | env_var # _ \<Rightarrow> lookup_environment va env_var)
                 else [])
          else if section = chars ''env'' then (case rest of [] \<Rightarrow> [] | env_var # _ \<Rightarrow> lookup_environment va env_var)
          else [])"

fun walk_path :: "json_value \<Rightarrow> ustring list \<Rightarrow> json_value option" where
  "walk_path v [] = Some v"
| "walk_path v (p # ps) = (case value_get p v of None \<Rightarrow> None | Some w \<Rightarrow> walk_path w ps)"

fun join_dots :: "ustring list \<Rightarrow> ustring" where
  "join_dots [] = []"
| "join_dots [p] = p"
| "join_dots (p # ps) = p @ [46] @ join_dots ps"

fun scalar_text :: "variables \<Rightarrow> json_value \<Rightarrow> ustring" where
  "scalar_text va (VString s) = s"
| "scalar_text va (VNumber n) = n"
| "scalar_text va (VBool b) = (if b then chars ''true'' else chars ''false'')"
| "scalar_text va VNull = []"
| "scalar_text va v = va_json_text va v"

text \<open>Only the section \<^verbatim>\<open>docker\<close> without its registries is open to placeholders.\<close>

definition open_section :: "json_value \<Rightarrow> json_value" where
  "open_section config =
     strip_paths (case config of VObject m \<Rightarrow> VObject (filter (\<lambda>(k, _). k = chars ''docker'') m) | v \<Rightarrow> v)
       [chars ''docker.registries'']"

definition lookup_config_variable :: "variables \<Rightarrow> ustring list \<Rightarrow> config_error + ustring" where
  "lookup_config_variable va parts =
     (if parts = [] then Inr []
      else
        (case va_config va of
           None \<Rightarrow> Inl SerializeFailed
         | Some config \<Rightarrow>
             (case walk_path (open_section config) parts of
                None \<Rightarrow> Inr (chars ''{{config.'' @ join_dots parts @ chars ''}}'')
              | Some v \<Rightarrow> Inr (scalar_text va v))))"

definition lookup_value :: "variables \<Rightarrow> json_value \<Rightarrow> config_error + ustring" where
  "lookup_value va replacement =
     (case replacement of
        VString s \<Rightarrow>
          if \<not> prefix [open_brace, open_brace] s \<or> \<not> suffix [close_brace, close_brace] s then Inr s
          else
            (case split_dots (trim (rev (strip_closing (rev (strip_open s))))) of
               [] \<Rightarrow> Inr []
             | section # parts \<Rightarrow>
                 if section = chars ''server'' then Inr (lookup_server_variable va parts)
                 else if section = chars ''config'' then lookup_config_variable va parts
                 else if section = chars ''env'' then
                   (case parts of [] \<Rightarrow> Inr [] | env_var # _ \<Rightarrow> Inr (lookup_environment va env_var))
                 else Inr [])
      | v \<Rightarrow> Inr (scalar_text va v))"

section \<open>Replacing placeholders\<close>

fun scan_placeholder :: "ustring \<Rightarrow> ustring \<times> ustring \<times> bool" where
  "scan_placeholder [] = ([], [], False)"
| "scan_placeholder (c # cs) =
     (if c = close_brace \<and> take 1 cs = [close_brace] then ([close_brace, close_brace], tl cs, True)
      else (case scan_placeholder cs of (p, rest, found) \<Rightarrow> (c # p, rest, found)))"

lemma scan_placeholder_length: "scan_placeholder cs = (p, rest, found) \<Longrightarrow> length rest \<le> length cs"
  by (induction cs arbitrary: p) (auto split: if_splits prod.splits)

function expand_placeholders :: "variables \<Rightarrow> ustring \<Rightarrow> ustring" where
  "expand_placeholders va [] = []"
| "expand_placeholders va (c # cs) =
     (if c = open_brace \<and> take 1 cs = [open_brace] then
        (case scan_placeholder (tl cs) of
           (p, rest, found) \<Rightarrow>
             (let placeholder = [open_brace, open_brace] @ p in
              if found then
                (case lookup_value va (VString placeholder) of Inr x \<Rightarrow> x | Inl _ \<Rightarrow> placeholder) @
                expand_placeholders va rest
              else placeholder))
      else c # expand_placeholders va cs)"
  by pat_completeness auto
termination
  by (relation "measure (\<lambda>(va, cs). length cs)") (auto dest!: scan_placeholder_length [OF sym])

definition replace_all_placeholders :: "variables \<Rightarrow> json_value \<Rightarrow> config_error + ustring" where
  "replace_all_placeholders va v =
     (case v of VString s \<Rightarrow> Inr (expand_placeholders va s) | _ \<Rightarrow> lookup_value va v)"

record replacement =
  rp_match :: ustring
  rp_if_value :: "ustring option"
  rp_insert_new :: "bool option"
  rp_update_existing :: bool
  rp_replace_with :: json_value

text \<open>Replacing placeholders never fails: a variable that cannot be read stays as it is written.\<close>

definition replacement_text :: "variables \<Rightarrow> json_value \<Rightarrow> ustring" where
  "replacement_text va v = (case replace_all_placeholders va v of Inr x \<Rightarrow> x | Inl _ \<Rightarrow> [])"

lemma replace_all_total: "replace_all_placeholders va v = Inr (replacement_text va v)"
  by (cases v) (simp_all add: replace_all_placeholders_def replacement_text_def lookup_value_def)

section \<open>What placeholders can reveal\<close>

text \<open>The part of the daemon's configuration a placeholder can read: the section for containers, with the
  credentials of the registries blotted out.\<close>

definition blot :: "ustring \<Rightarrow> (ustring \<times> json_value) list \<Rightarrow> (ustring \<times> json_value) list" where
  "blot name = map (\<lambda>(k, v). (k, if k = name then VNull else v))"

definition public_part :: "(ustring \<times> json_value) list \<Rightarrow> json_value option" where
  "public_part m =
     (case map_of m (chars ''docker'') of
        Some (VObject es) \<Rightarrow> Some (VObject (blot (chars ''registries'') es))
      | other \<Rightarrow> other)"

definition unique_keys :: "(ustring \<times> json_value) list \<Rightarrow> bool" where
  "unique_keys m =
     (distinct (map fst m) \<and>
      (case map_of m (chars ''docker'') of Some (VObject es) \<Rightarrow> distinct (map fst es) | _ \<Rightarrow> True))"

lemma blot_absent: "name \<notin> fst ` set es \<Longrightarrow> blot name es = es"
  by (induction es) (auto simp: blot_def)

lemma swap_remove_absent: "name \<notin> fst ` set es \<Longrightarrow> swap_remove name es = es"
  by (induction es) auto

lemma blot_keys [simp]: "map fst (blot name es) = map fst es" "fst ` set (blot name es) = fst ` set es" "length (blot name es) = length es"
  by (induction es) (auto simp: blot_def)

lemma swap_remove_blot: "distinct (map fst es) \<Longrightarrow> swap_remove name (blot name es) = swap_remove name es"
proof (induction es)
  case (Cons e es)
  obtain k v where e: "e = (k, v)"
    by (cases e)
  have "blot name (e # es) = (k, if k = name then VNull else v) # blot name es"
    by (simp add: e blot_def)
  then show ?case
    using Cons blot_absent [of name es] by (auto simp: e)
qed (simp add: blot_def)

lemma filter_key: "distinct (map fst m) \<Longrightarrow> filter (\<lambda>(k, _). k = name) m = (case map_of m name of None \<Rightarrow> [] | Some v \<Rightarrow> [(name, v)])"
proof (induction m)
  case (Cons e m)
  have "map_of m name = None" if "fst e = name"
    using Cons.prems that by (simp add: map_of_eq_None_iff)
  then show ?case
    using Cons by (auto split: option.split)
qed simp

lemma dotted_path: "split_dots (chars ''docker.registries'') = [chars ''docker'', chars ''registries'']"
  by (simp add: chars_def)

lemma open_section_public:
  assumes "unique_keys m"
  shows "open_section (VObject m) =
    (case public_part m of
       None \<Rightarrow> VObject []
     | Some d \<Rightarrow> VObject [(chars ''docker'', strip_path [chars ''registries''] d)])"
proof -
  have "distinct (map fst m)"
    using assms by (simp add: unique_keys_def)
  then have sect: "open_section (VObject m) =
      (case map_of m (chars ''docker'') of
         None \<Rightarrow> VObject []
       | Some v \<Rightarrow> VObject [(chars ''docker'', strip_path [chars ''registries''] v)])"
    by (simp add: open_section_def strip_paths_def dotted_path filter_key split: option.split)
  show ?thesis
  proof (cases "map_of m (chars ''docker'')")
    case None
    then show ?thesis
      by (simp add: sect public_part_def)
  next
    case (Some v)
    then show ?thesis
      using assms by (cases v) (simp_all add: sect public_part_def unique_keys_def swap_remove_blot)
  qed
qed

definition same_answers :: "variables \<Rightarrow> variables \<Rightarrow> bool" where
  "same_answers va vb =
     (\<forall>v. replace_all_placeholders va v = replace_all_placeholders vb v)"

lemma same_lookup:
  assumes "unique_keys m1" "unique_keys m2" "public_part m1 = public_part m2"
  shows "lookup_value (va\<lparr>va_config := Some (VObject m1)\<rparr>) v = lookup_value (va\<lparr>va_config := Some (VObject m2)\<rparr>) v"
proof -
  have scalar: "scalar_text (va\<lparr>va_config := c\<rparr>) w = scalar_text va w" for c w
    by (cases w) simp_all
  have "open_section (VObject m1) = open_section (VObject m2)"
    using assms by (simp add: open_section_public)
  then have "lookup_config_variable (va\<lparr>va_config := Some (VObject m1)\<rparr>) ps = lookup_config_variable (va\<lparr>va_config := Some (VObject m2)\<rparr>) ps" for ps
    by (simp add: lookup_config_variable_def scalar split: option.split)
  moreover have env: "lookup_environment (va\<lparr>va_config := c\<rparr>) = lookup_environment va" for c
    by (rule ext) (simp add: lookup_environment_def split: option.split json_value.split)
  moreover have "lookup_server_variable (va\<lparr>va_config := c\<rparr>) ps = lookup_server_variable va ps" for c ps
    unfolding lookup_server_variable_def env by simp
  ultimately show ?thesis
    by (simp add: lookup_value_def scalar split: json_value.split list.split)
qed

lemma expand_same:
  assumes "\<And>v. lookup_value va v = lookup_value vb v"
  shows "expand_placeholders va s = expand_placeholders vb s"
proof (induction s rule: length_induct)
  case (1 s)
  show ?case
  proof (cases s)
    case (Cons c cs)
    obtain p rest found where scan: "scan_placeholder (tl cs) = (p, rest, found)"
      by (cases "scan_placeholder (tl cs)")
    have "length rest < length s"
      using scan_placeholder_length [OF scan] by (simp add: Cons)
    then show ?thesis
      using 1 by (auto simp: Cons scan assms Let_def split: sum.split)
  qed simp
qed

lemma secrets_same_answers:
  assumes "unique_keys m1" "unique_keys m2" "public_part m1 = public_part m2"
  shows "same_answers (va\<lparr>va_config := Some (VObject m1)\<rparr>) (va\<lparr>va_config := Some (VObject m2)\<rparr>)"
proof -
  note same = same_lookup [OF assms, of va]
  show ?thesis
    by (auto simp: same_answers_def replace_all_placeholders_def same expand_same [OF same] split: json_value.split)
qed

text \<open>
  The contract of a parser of configuration files (the trait \<^verbatim>\<open>ProcessConfigurationFileParser\<close>): it sees the server
  and the daemon only through the replaced placeholders. Nothing else of the daemon's configuration can then
  reach the file it writes.
\<close>

locale config_parser =
  fixes process :: "variables \<Rightarrow> replacement list \<Rightarrow> ustring \<Rightarrow> 'e + ustring"
  assumes only_placeholders: "same_answers va vb \<Longrightarrow> process va rs content = process vb rs content"
begin

lemma secrets_hidden:
  assumes "unique_keys m1" "unique_keys m2" "public_part m1 = public_part m2"
  shows "process (va\<lparr>va_config := Some (VObject m1)\<rparr>) rs content = process (va\<lparr>va_config := Some (VObject m2)\<rparr>) rs content"
  by (rule only_placeholders [OF secrets_same_answers [OF assms]])

end

end
