(* ===== verification/Properties.thy ===== *)
theory Properties
  imports Placeholders
begin

text \<open>
  Rewriting a server's \<^verbatim>\<open>.properties\<close> file before it starts (\<^verbatim>\<open>server/configuration/process/properties.rs\<close>): the
  line parser with continuation lines, separators and escapes, the writer, and the replacement of configured
  values. The lemmas say which values survive being written and read again, and what a file settles on.
\<close>

section \<open>Writing values\<close>

definition hex_digit :: "nat \<Rightarrow> nat" where
  "hex_digit d = (if d < 10 then 48 + d else 87 + d)"

fun hex_pad :: "nat \<Rightarrow> nat \<Rightarrow> ustring" where
  "hex_pad 0 n = []"
| "hex_pad (Suc w) n = hex_pad w (n div 16) @ [hex_digit (n mod 16)]"

definition quote_char :: "nat \<Rightarrow> ustring" where
  "quote_char c =
     (if c = 92 then [92, 92] else if c = 34 then [92, 34] else if c = 10 then [92, 110]
      else if c = 13 then [92, 114] else if c = 9 then [92, 116] else if c = 8 then [92, 98]
      else if c = 12 then [92, 102] else if c = 7 then [92, 97] else if c = 11 then [92, 118]
      else if 32 \<le> c \<and> c \<le> 126 then [c]
      else if c < 128 then [92, 120] @ hex_pad 2 c
      else if c < 65536 then [92, 117] @ hex_pad 4 c
      else [92, 85] @ hex_pad 8 c)"

definition quote_to_ascii :: "ustring \<Rightarrow> ustring" where
  "quote_to_ascii s = concat (map quote_char s)"

section \<open>Reading lines\<close>

datatype property_line = Pair ustring ustring | Comment ustring | Blank | RawLine ustring

text \<open>Lines end at a newline, with a carriage return before it; text after the last newline is a line of its own.\<close>

definition strip_cr :: "ustring \<Rightarrow> ustring" where
  "strip_cr l = (if l \<noteq> [] \<and> last l = carriage_return then butlast l else l)"

function split_lines :: "ustring \<Rightarrow> ustring list" where
  "split_lines s =
     (if s = [] then []
      else if newline \<in> set s then
        strip_cr (takeWhile (\<lambda>c. c \<noteq> newline) s) # split_lines (tl (dropWhile (\<lambda>c. c \<noteq> newline) s))
      else [s])"
  by auto
termination
proof (relation "measure length")
  show "(tl (dropWhile (\<lambda>c. c \<noteq> newline) s), s) \<in> measure length" if "s \<noteq> []" for s :: ustring
    using length_dropWhile_le [of "\<lambda>c. c \<noteq> newline" s] that by (cases s) auto
qed simp

declare split_lines.simps [simp del]

definition is_continuation :: "ustring \<Rightarrow> bool" where
  "is_continuation line = odd (length (takeWhile (\<lambda>c. c = backslash) (rev line)))"

definition hex_value :: "nat \<Rightarrow> nat option" where
  "hex_value c =
     (if 48 \<le> c \<and> c \<le> 57 then Some (c - 48) else if 97 \<le> c \<and> c \<le> 102 then Some (c - 87)
      else if 65 \<le> c \<and> c \<le> 70 then Some (c - 55) else None)"

fun hex_number :: "nat \<Rightarrow> ustring \<Rightarrow> nat option" where
  "hex_number acc [] = Some acc"
| "hex_number acc (c # cs) = (case hex_value c of None \<Rightarrow> None | Some d \<Rightarrow> hex_number (acc * 16 + d) cs)"

text \<open>A number in base sixteen may start with a plus sign.\<close>

definition from_str_radix_16 :: "ustring \<Rightarrow> nat option" where
  "from_str_radix_16 s =
     (let digits = (if take 1 s = [43] then tl s else s) in if digits = [] then None else hex_number 0 digits)"

definition escaped_char :: "nat \<Rightarrow> nat" where
  "escaped_char d = (if d = 110 then 10 else if d = 114 then 13 else if d = 116 then 9 else if d = 102 then 12 else d)"

function unescape :: "ustring \<Rightarrow> ustring option" where
  "unescape [] = Some []"
| "unescape (c # cs) =
     (if c \<noteq> backslash then map_option ((#) c) (unescape cs)
      else
        (case cs of
           [] \<Rightarrow> Some [backslash]
         | d # ds \<Rightarrow>
             if d = 117 then
               (if length ds < 4 then None
                else
                  (case from_str_radix_16 (take 4 ds) of
                     None \<Rightarrow> None
                   | Some code \<Rightarrow>
                       (case from_u32 code of
                          None \<Rightarrow> None
                        | Some u \<Rightarrow> map_option ((#) u) (unescape (drop 4 ds)))))
             else map_option ((#) (escaped_char d)) (unescape ds)))"
  by pat_completeness auto
termination
  by (relation "measure length") auto

text \<open>Physical lines joined into a logical one, with the text as it was.\<close>

function join_lines :: "ustring \<Rightarrow> ustring \<Rightarrow> ustring list \<Rightarrow> ustring \<times> ustring \<times> ustring list" where
  "join_lines logical raw ls =
     (if is_continuation logical then
        (case ls of
           [] \<Rightarrow> (butlast logical, raw, [])
         | l # ls' \<Rightarrow> join_lines (butlast logical @ trim_start l) (raw @ [newline] @ l) ls')
      else (logical, raw, ls))"
  by auto
termination
  by (relation "measure (\<lambda>(logical, raw, ls). length ls)") auto

declare join_lines.simps [simp del]

lemma join_lines_length: "join_lines logical raw ls = (logical', raw', rest) \<Longrightarrow> length rest \<le> length ls"
proof (induction logical raw ls rule: join_lines.induct)
  case (1 logical raw ls)
  from 1(2) show ?case
    by (subst (asm) join_lines.simps) (auto split: if_splits list.splits dest!: 1(1))
qed

text \<open>The characters of the separator after a blank, and after \<^verbatim>\<open>=\<close> or \<^verbatim>\<open>:\<close>.\<close>

fun blank_separator :: "ustring \<Rightarrow> nat" where
  "blank_separator [] = 0"
| "blank_separator (c # cs) =
     (if c = equals_sign \<or> c = colon then 1 + length (takeWhile is_whitespace cs)
      else if is_whitespace c then 1 + blank_separator cs
      else 0)"

text \<open>The key as written, the text from the separator on and the length of the separator.\<close>

fun find_separator :: "ustring \<Rightarrow> (ustring \<times> ustring \<times> nat) option" where
  "find_separator [] = None"
| "find_separator (c # cs) =
     (if c = backslash then
        (case cs of
           [] \<Rightarrow> None
         | d # ds \<Rightarrow> map_option (\<lambda>(k, rest, n). (c # d # k, rest, n)) (find_separator ds))
      else if c = equals_sign \<or> c = colon then Some ([], c # cs, 1 + length (takeWhile is_whitespace cs))
      else if is_whitespace c then Some ([], c # cs, 1 + blank_separator cs)
      else map_option (\<lambda>(k, rest, n). (c # k, rest, n)) (find_separator cs))"

definition split_pair :: "ustring \<Rightarrow> ustring \<times> ustring" where
  "split_pair line =
     (case find_separator line of
        None \<Rightarrow> (line, [])
      | Some (k, rest, n) \<Rightarrow> (k, (case drop_bytes n rest of Some v \<Rightarrow> v | None \<Rightarrow> [])))"

definition parse_line :: "ustring \<Rightarrow> ustring \<Rightarrow> property_line" where
  "parse_line logical raw =
     (let line = trim_start logical in
      if line = [] then Blank
      else if hd line = hash_sign \<or> hd line = bang then Comment raw
      else
        (case split_pair line of
           (k, v) \<Rightarrow>
             (case (unescape k, unescape v) of (Some key, Some val) \<Rightarrow> Pair key val | _ \<Rightarrow> RawLine raw)))"

function parse_lines :: "ustring list \<Rightarrow> property_line list" where
  "parse_lines [] = []"
| "parse_lines (l # ls) =
     (case join_lines l l ls of (logical, raw, rest) \<Rightarrow> parse_line logical raw # parse_lines rest)"
  by pat_completeness auto
termination
  by (relation "measure length") (auto dest: join_lines_length [OF sym] simp: less_Suc_eq_le)

definition properties_parser :: "ustring \<Rightarrow> property_line list" where
  "properties_parser content = parse_lines (split_lines content)"

section \<open>Processing a file\<close>

fun replace_value :: "variables \<Rightarrow> replacement list \<Rightarrow> ustring \<Rightarrow> ustring \<Rightarrow> config_error + ustring" where
  "replace_value va [] key val = Inr val"
| "replace_value va (r # rs) key val =
     (if rp_match r \<noteq> key \<or> \<not> rp_update_existing r then replace_value va rs key val
      else
        (case replace_all_placeholders va (rp_replace_with r) of
           Inl e \<Rightarrow> Inl e
         | Inr x \<Rightarrow>
             if rp_if_value r \<noteq> None \<and> rp_if_value r \<noteq> Some val then replace_value va rs key val
             else replace_value va rs key x))"

definition write_pair :: "ustring \<Rightarrow> ustring \<Rightarrow> ustring" where
  "write_pair key val = key @ [equals_sign] @ quote_to_ascii val @ [newline]"

fun rewrite_lines :: "variables \<Rightarrow> replacement list \<Rightarrow> property_line list \<Rightarrow> config_error + ustring" where
  "rewrite_lines va rs [] = Inr []"
| "rewrite_lines va rs (l # ls) =
     (case (case l of
              Comment c \<Rightarrow> Inr (c @ [newline])
            | Blank \<Rightarrow> Inr [newline]
            | RawLine raw \<Rightarrow> Inr (raw @ [newline])
            | Pair key val \<Rightarrow> (case replace_value va rs key val of Inl e \<Rightarrow> Inl e | Inr x \<Rightarrow> Inr (write_pair key x))) of
        Inl e \<Rightarrow> Inl e
      | Inr out \<Rightarrow> (case rewrite_lines va rs ls of Inl e \<Rightarrow> Inl e | Inr rest \<Rightarrow> Inr (out @ rest)))"

fun found_keys :: "property_line list \<Rightarrow> ustring list" where
  "found_keys [] = []"
| "found_keys (Pair k v # ls) = k # found_keys ls"
| "found_keys (l # ls) = found_keys ls"

fun append_missing :: "variables \<Rightarrow> ustring list \<Rightarrow> replacement list \<Rightarrow> config_error + ustring" where
  "append_missing va found [] = Inr []"
| "append_missing va found (r # rs) =
     (if rp_match r \<in> set found \<or> rp_insert_new r = Some False then append_missing va found rs
      else
        (case replace_all_placeholders va (rp_replace_with r) of
           Inl e \<Rightarrow> Inl e
         | Inr x \<Rightarrow>
             (case append_missing va found rs of Inl e \<Rightarrow> Inl e | Inr rest \<Rightarrow> Inr (write_pair (rp_match r) x @ rest))))"

definition process_file :: "variables \<Rightarrow> replacement list \<Rightarrow> ustring \<Rightarrow> config_error + ustring" where
  "process_file va rs content =
     (let ls = properties_parser content in
      (case rewrite_lines va rs ls of
         Inl e \<Rightarrow> Inl e
       | Inr out \<Rightarrow> (case append_missing va (found_keys ls) rs of Inl e \<Rightarrow> Inl e | Inr more_lines \<Rightarrow> Inr (out @ more_lines))))"

section \<open>Reading what was written\<close>

text \<open>The characters that survive: those the reader has an escape for, or that need none.\<close>

definition storable :: "nat \<Rightarrow> bool" where
  "storable c = (c \<in> {9, 10, 12, 13} \<or> 32 \<le> c \<and> c \<le> 126 \<or> 128 \<le> c \<and> c < 65536)"

definition unicode_char :: "nat \<Rightarrow> bool" where
  "unicode_char c = (c < 1114112 \<and> \<not> (55296 \<le> c \<and> c < 57344))"

text \<open>What the reader makes of a written character.\<close>

definition reread :: "nat \<Rightarrow> ustring" where
  "reread c =
     (if storable c then [c]
      else if c = 8 then [98] else if c = 7 then [97] else if c = 11 then [118]
      else if c < 128 then 120 # hex_pad 2 c else 85 # hex_pad 8 c)"

lemma hex_digit_value: "d < 16 \<Longrightarrow> hex_value (hex_digit d) = Some d"
  by (auto simp: hex_value_def hex_digit_def)

lemma hex_digit_range: "d < 16 \<Longrightarrow> 48 \<le> hex_digit d \<and> hex_digit d \<le> 102 \<and> hex_digit d \<noteq> 92"
  by (auto simp: hex_digit_def)

lemma hex_pad_range: "c \<in> set (hex_pad w n) \<Longrightarrow> 48 \<le> c \<and> c \<le> 102 \<and> c \<noteq> 92"
  by (induction w arbitrary: n) (auto simp: hex_digit_range)

lemma hex_pad_length [simp]: "length (hex_pad w n) = w"
  by (induction w arbitrary: n) auto

lemma hex_pad_empty [simp]: "hex_pad w n = [] \<longleftrightarrow> w = 0"
  using hex_pad_length [of w n] by (cases w) auto

lemma hex_number_append:
  "hex_number acc (xs @ ys) = (case hex_number acc xs of None \<Rightarrow> None | Some a \<Rightarrow> hex_number a ys)"
  by (induction xs arbitrary: acc) (auto split: option.splits)

lemma hex_number_pad: "n < 16 ^ w \<Longrightarrow> hex_number acc (hex_pad w n) = Some (acc * 16 ^ w + n)"
proof (induction w arbitrary: n)
  case (Suc w)
  have "n div 16 < 16 ^ w"
    using Suc.prems by (simp add: less_mult_imp_div_less mult.commute)
  then show ?case
    using Suc.IH [of "n div 16"] by (simp add: hex_number_append hex_digit_value algebra_simps)
qed simp

lemma unescape_plain:
  "backslash \<notin> set xs \<Longrightarrow> unescape (xs @ s) = map_option ((@) xs) (unescape s)"
  by (induction xs; cases "unescape s") auto

lemma from_str_radix_pad: "n < 65536 \<Longrightarrow> from_str_radix_16 (hex_pad 4 n) = Some n"
  using hex_number_pad [of n 4 0] hex_pad_range [of 43 4 n] in_set_takeD [of 43 1 "hex_pad 4 n"]
  by (auto simp: from_str_radix_16_def Let_def)

lemma unescape_quote_char:
  assumes "unicode_char c"
  shows "unescape (quote_char c @ s) = map_option ((@) (reread c)) (unescape s)"
proof -
  have pad: "unescape (hex_pad w c @ s) = map_option ((@) (hex_pad w c)) (unescape s)" for w
    using hex_pad_range [of 92 w c] by (intro unescape_plain) auto
  consider "c = 92 \<or> c = 34 \<or> c = 10 \<or> c = 13 \<or> c = 9 \<or> c = 8 \<or> c = 12 \<or> c = 7 \<or> c = 11"
    | "32 \<le> c" "c \<le> 126" "c \<noteq> 92" "c \<noteq> 34"
    | "c < 128" "\<not> (32 \<le> c \<and> c \<le> 126)" "c \<notin> {8, 7, 9, 10, 11, 12, 13}"
    | "128 \<le> c" "c < 65536"
    | "65536 \<le> c"
    by fastforce
  then show ?thesis
  proof cases
    case 1
    then show ?thesis
      by (cases "unescape s") (auto simp: quote_char_def reread_def storable_def escaped_char_def)
  next
    case 2
    then show ?thesis
      by (cases "unescape s") (auto simp: quote_char_def reread_def storable_def)
  next
    case 3
    then show ?thesis
      using pad [of 2] by (cases "unescape s") (auto simp: quote_char_def reread_def storable_def escaped_char_def)
  next
    case 4
    then show ?thesis
      using assms from_str_radix_pad [of c]
      by (cases "unescape s") (auto simp: quote_char_def reread_def storable_def from_u32_def unicode_char_def)
  next
    case 5
    then show ?thesis
      using pad [of 8] by (cases "unescape s") (auto simp: quote_char_def reread_def storable_def escaped_char_def)
  qed
qed

lemma unescape_quote: "list_all unicode_char v \<Longrightarrow> unescape (quote_to_ascii v) = Some (concat (map reread v))"
  by (induction v) (simp_all add: quote_to_ascii_def unescape_quote_char)

lemma reread_length: "1 \<le> length (reread c)"
  by (simp add: reread_def)

lemma reread_same: "reread c = [c] \<longleftrightarrow> storable c"
  by (auto simp: reread_def storable_def dest: arg_cong [of _ _ length])

lemma concat_reread: "concat (map reread v) = v \<longleftrightarrow> list_all storable v"
proof
  assume eq: "concat (map reread v) = v"
  have grows: "length u \<le> length (concat (map reread u))" for u
  proof (induction u)
    case (Cons c u)
    then show ?case
      using reread_length [of c] by simp
  qed simp
  show "list_all storable v"
    using eq
  proof (induction v)
    case (Cons c cs)
    have "length (reread c) + length (concat (map reread cs)) = Suc (length cs)"
      using arg_cong [OF Cons.prems, of length] by simp
    then have "length (reread c) = 1"
      using grows [of cs] reread_length [of c] by linarith
    then obtain x where "reread c = [x]"
      by (auto simp: length_Suc_conv)
    then show ?case
      using Cons reread_same [of c] by auto
  qed simp
next
  assume "list_all storable v"
  then show "concat (map reread v) = v"
    by (induction v) (auto simp: reread_def)
qed

text \<open>
  Which values survive being written and read again: exactly those made of tab, newline, form feed, carriage
  return, printable ASCII and the other characters below the astral planes. Any other character is written as an
  escape the reader does not know, so that an emoji comes back as its code in letters and digits.
\<close>
lemma value_round_trip:
  assumes "list_all unicode_char v"
  shows "unescape (quote_to_ascii v) = Some v \<longleftrightarrow> list_all storable v"
  using unescape_quote [OF assms] concat_reread [of v] by simp

section \<open>Whole files\<close>

definition plain_key :: "ustring \<Rightarrow> bool" where
  "plain_key k =
     (k \<noteq> [] \<and> hd k \<noteq> hash_sign \<and> hd k \<noteq> bang \<and>
      list_all (\<lambda>c. c \<noteq> backslash \<and> c \<noteq> equals_sign \<and> c \<noteq> colon \<and> \<not> is_whitespace c) k)"

definition good_value :: "ustring \<Rightarrow> bool" where
  "good_value v = (list_all unicode_char v \<and> list_all storable v \<and> (v = [] \<or> hd v \<noteq> 32))"

definition comment_ok :: "ustring \<Rightarrow> bool" where
  "comment_ok c =
     (newline \<notin> set c \<and> \<not> is_continuation c \<and> last c \<noteq> carriage_return \<and>
      (let line = trim_start c in line \<noteq> [] \<and> (hd line = hash_sign \<or> hd line = bang)))"

fun line_ok :: "property_line \<Rightarrow> bool" where
  "line_ok (Pair k v) = (plain_key k \<and> good_value v)"
| "line_ok (Comment c) = comment_ok c"
| "line_ok Blank = True"
| "line_ok (RawLine r) = False"

fun print_line :: "property_line \<Rightarrow> ustring" where
  "print_line (Pair k v) = write_pair k v"
| "print_line (Comment c) = c @ [newline]"
| "print_line Blank = [newline]"
| "print_line (RawLine r) = r @ [newline]"

definition print_lines :: "property_line list \<Rightarrow> ustring" where
  "print_lines ls = concat (map print_line ls)"

lemma quote_char_range: "c \<in> set (quote_char d) \<Longrightarrow> 32 \<le> c \<and> c \<le> 126"
  using hex_pad_range [of c 2 d] hex_pad_range [of c 4 d] hex_pad_range [of c 8 d]
  by (auto simp: quote_char_def split: if_splits)

lemma quote_range: "c \<in> set (quote_to_ascii v) \<Longrightarrow> 32 \<le> c \<and> c \<le> 126"
  by (auto simp: quote_to_ascii_def dest: quote_char_range)

lemma hex_pad_last: "0 < w \<Longrightarrow> last (hex_pad w n) \<noteq> backslash"
  by (cases w) (simp_all add: hex_digit_range)

lemma quote_char_last: "d \<noteq> backslash \<Longrightarrow> last (quote_char d) \<noteq> backslash"
  by (simp add: quote_char_def hex_pad_last)

lemma quote_char_head: "quote_char d \<noteq> [] \<and> (hd (quote_char d) = backslash \<or> hd (quote_char d) = d \<and> 32 \<le> d \<and> d \<le> 126)"
  by (simp add: quote_char_def)

lemma quote_not_continued: "xs \<noteq> [] \<Longrightarrow> last xs \<noteq> backslash \<Longrightarrow> \<not> is_continuation (xs @ quote_to_ascii v)"
proof (induction v rule: rev_induct)
  case Nil
  then show ?case
    by (cases xs rule: rev_cases) (auto simp: is_continuation_def quote_to_ascii_def)
next
  case (snoc c v)
  have IH: "\<not> is_continuation (xs @ quote_to_ascii v)"
    using snoc by blast
  have split: "quote_to_ascii (v @ [c]) = quote_to_ascii v @ quote_char c"
    by (simp add: quote_to_ascii_def)
  show ?case
  proof (cases "c = backslash")
    case True
    have "quote_char c = [92, 92]"
      by (simp add: True quote_char_def)
    then show ?thesis
      unfolding split using IH by (simp add: is_continuation_def)
  next
    case False
    obtain ys y where y: "quote_char c = ys @ [y]"
      using quote_char_head [of c] by (cases "quote_char c" rule: rev_cases) blast+
    have "y \<noteq> backslash"
      using quote_char_last [OF False] unfolding y by simp
    then show ?thesis
      unfolding split y by (simp add: is_continuation_def)
  qed
qed

text \<open>The first line of a text that starts with a finished line.\<close>

lemma parse_first:
  assumes "newline \<notin> set l" "\<not> is_continuation l" "l = [] \<or> last l \<noteq> carriage_return"
  shows "properties_parser (l @ newline # rest) = parse_line l l # properties_parser rest"
proof -
  have "takeWhile (\<lambda>c. c \<noteq> newline) (l @ newline # rest) = l" "dropWhile (\<lambda>c. c \<noteq> newline) (l @ newline # rest) = newline # rest"
    using assms(1) by (auto simp: takeWhile_append dropWhile_append)
  then have "split_lines (l @ newline # rest) = l # split_lines rest"
    using assms(3) by (subst split_lines.simps) (auto simp: strip_cr_def)
  then show ?thesis
    using assms(2) by (simp add: properties_parser_def join_lines.simps)
qed

lemma find_separator_key:
  assumes "list_all (\<lambda>c. c \<noteq> backslash \<and> c \<noteq> equals_sign \<and> c \<noteq> colon \<and> \<not> is_whitespace c) k"
  shows "find_separator (k @ equals_sign # w) = Some (k, equals_sign # w, 1 + length (takeWhile is_whitespace w))"
  using assms by (induction k) auto

lemma parse_written_pair:
  assumes "plain_key k" "good_value v"
  shows "parse_line (k @ equals_sign # quote_to_ascii v) raw = Pair k v"
proof -
  obtain c k' where k: "k = c # k'"
    using assms(1) by (cases k) (auto simp: plain_key_def)
  have trim: "trim_start (k @ equals_sign # quote_to_ascii v) = k @ equals_sign # quote_to_ascii v"
    using assms(1) by (simp add: k trim_start_def plain_key_def)
  have "takeWhile is_whitespace (quote_to_ascii v) = []"
  proof (cases v)
    case (Cons d v')
    have "d \<noteq> 32"
      using assms(2) Cons by (simp add: good_value_def)
    then obtain x xs where "quote_char d = x # xs" "\<not> is_whitespace x"
      using quote_char_head [of d] by (cases "quote_char d") (auto simp: is_whitespace_def)
    then show ?thesis
      by (simp add: quote_to_ascii_def Cons)
  qed (simp add: quote_to_ascii_def)
  then have "split_pair (k @ equals_sign # quote_to_ascii v) = (k, quote_to_ascii v)"
    using find_separator_key [of k "quote_to_ascii v"] assms(1)
    by (cases "quote_to_ascii v") (simp_all add: split_pair_def plain_key_def utf8_len_def)
  moreover have "unescape k = Some k"
    using unescape_plain [of k "[]"] assms(1) by (auto simp: plain_key_def list_all_iff)
  moreover have "unescape (quote_to_ascii v) = Some v"
    using unescape_quote [of v] concat_reread [of v] assms(2) by (simp add: good_value_def)
  ultimately show ?thesis
    using assms(1) trim by (simp add: parse_line_def k plain_key_def Let_def)
qed

lemma parse_print_line:
  assumes "line_ok l"
  shows "properties_parser (print_line l @ rest) = l # properties_parser rest"
proof (cases l)
  case (Pair k v)
  have k: "plain_key k" "good_value v"
    using assms Pair by simp_all
  let ?line = "k @ equals_sign # quote_to_ascii v"
  have "is_whitespace newline"
    by (simp add: is_whitespace_def)
  then have "newline \<notin> set k"
    using k(1) by (auto simp: plain_key_def list_all_iff)
  then have "newline \<notin> set ?line"
    using quote_range [of newline v] by auto
  moreover have "\<not> is_continuation ?line"
    using quote_not_continued [of "k @ [equals_sign]" v] by simp
  moreover have "last ?line \<noteq> carriage_return"
  proof (cases "quote_to_ascii v = []")
    case False
    then show ?thesis
      using quote_range [OF last_in_set [OF False]] by simp
  qed simp
  ultimately show ?thesis
    using parse_first [of ?line rest] parse_written_pair [OF k] by (simp add: Pair write_pair_def)
next
  case (Comment c)
  then have "parse_line c c = Comment c"
    using assms by (auto simp: parse_line_def comment_ok_def Let_def)
  then show ?thesis
    using parse_first [of c rest] assms Comment by (simp add: comment_ok_def)
next
  case Blank
  then show ?thesis
    using parse_first [of "[]" rest] by (simp add: is_continuation_def parse_line_def trim_start_def)
qed (use assms in simp)

lemma parse_print: "list_all line_ok ls \<Longrightarrow> properties_parser (print_lines ls) = ls"
  by (induction ls) (simp_all add: print_lines_def parse_print_line, simp add: properties_parser_def split_lines.simps)

text \<open>The lines a file settles on: configured values in place, missing keys at the end.\<close>

definition final_value :: "variables \<Rightarrow> replacement list \<Rightarrow> ustring \<Rightarrow> ustring \<Rightarrow> ustring" where
  "final_value va rs k v =
     (case find (\<lambda>r. rp_match r = k \<and> rp_update_existing r) rs of
        None \<Rightarrow> v
      | Some r \<Rightarrow> replacement_text va (rp_replace_with r))"

fun settle_line :: "variables \<Rightarrow> replacement list \<Rightarrow> property_line \<Rightarrow> property_line" where
  "settle_line va rs (Pair k v) = Pair k (final_value va rs k v)"
| "settle_line va rs l = l"

definition missing_pairs :: "variables \<Rightarrow> replacement list \<Rightarrow> ustring list \<Rightarrow> property_line list" where
  "missing_pairs va rs found =
     map (\<lambda>r. Pair (rp_match r) (replacement_text va (rp_replace_with r)))
       (filter (\<lambda>r. rp_match r \<notin> set found \<and> rp_insert_new r \<noteq> Some False) rs)"

definition settle :: "variables \<Rightarrow> replacement list \<Rightarrow> property_line list \<Rightarrow> property_line list" where
  "settle va rs ls = map (settle_line va rs) ls @ missing_pairs va rs (found_keys ls)"

definition plain_config :: "variables \<Rightarrow> replacement list \<Rightarrow> bool" where
  "plain_config va rs =
     (distinct (map rp_match rs) \<and>
      list_all (\<lambda>r. rp_if_value r = None \<and> plain_key (rp_match r) \<and> good_value (replacement_text va (rp_replace_with r))) rs)"

lemma replace_value_skips:
  "k \<notin> rp_match ` set rs \<Longrightarrow> replace_value va rs k v = Inr v"
  by (induction rs) auto

lemma replace_value_final:
  "plain_config va rs \<Longrightarrow> replace_value va rs k v = Inr (final_value va rs k v)"
proof (induction rs arbitrary: v)
  case (Cons r rs)
  have rs: "plain_config va rs" and r: "rp_if_value r = None" "rp_match r \<notin> rp_match ` set rs"
    using Cons.prems by (auto simp: plain_config_def)
  show ?case
    using Cons.IH [OF rs] r replace_value_skips [of k rs va]
    by (cases "rp_match r = k \<and> rp_update_existing r") (auto simp: final_value_def replace_all_total)
qed (simp add: final_value_def)

lemma rewrite_lines_settle:
  assumes "plain_config va rs" "list_all line_ok ls"
  shows "rewrite_lines va rs ls = Inr (print_lines (map (settle_line va rs) ls))"
  using assms(2)
proof (induction ls)
  case (Cons l ls)
  then show ?case
    by (cases l) (simp_all add: print_lines_def replace_value_final [OF assms(1)])
qed (simp add: print_lines_def)

lemma append_missing_pairs:
  "append_missing va found rs = Inr (print_lines (missing_pairs va rs found))"
  by (induction rs) (simp_all add: missing_pairs_def print_lines_def replace_all_total)

lemma process_settles:
  assumes "plain_config va rs" "list_all line_ok (properties_parser content)"
  shows "process_file va rs content = Inr (print_lines (settle va rs (properties_parser content)))"
  using rewrite_lines_settle [OF assms]
  by (simp add: process_file_def append_missing_pairs settle_def print_lines_def Let_def)

lemma final_value_good:
  "plain_config va rs \<Longrightarrow> good_value v \<Longrightarrow> good_value (final_value va rs k v)"
  by (auto simp: final_value_def plain_config_def list_all_iff find_Some_iff split: option.split)

lemma final_value_stable: "final_value va rs k (final_value va rs k v) = final_value va rs k v"
  by (simp add: final_value_def split: option.split)

lemma settle_ok:
  assumes "plain_config va rs" "list_all line_ok ls"
  shows "list_all line_ok (settle va rs ls)"
proof -
  have "line_ok (settle_line va rs l)" if "line_ok l" for l
    using that final_value_good [OF assms(1)] by (cases l) auto
  then show ?thesis
    using assms by (auto simp: settle_def missing_pairs_def list_all_iff plain_config_def)
qed

lemma found_keys_append: "found_keys (ls @ ls') = found_keys ls @ found_keys ls'"
  by (induction ls rule: found_keys.induct) auto

lemma found_keys_settle_lines: "found_keys (map (settle_line va rs) ls) = found_keys ls"
  by (induction ls rule: found_keys.induct) auto

lemma found_keys_missing:
  "found_keys (missing_pairs va rs found) =
     map rp_match (filter (\<lambda>r. rp_match r \<notin> set found \<and> rp_insert_new r \<noteq> Some False) rs)"
  by (induction rs) (auto simp: missing_pairs_def)

lemma final_value_configured:
  assumes "distinct (map rp_match rs)" "r \<in> set rs"
  shows "final_value va rs (rp_match r) v =
    (if rp_update_existing r then replacement_text va (rp_replace_with r) else v)"
  using assms
proof (induction rs)
  case (Cons s rs)
  show ?case
  proof (cases "s = r")
    case True
    then have "find (\<lambda>q. rp_match q = rp_match r \<and> rp_update_existing q) rs = None"
      using Cons.prems(1) unfolding find_None_iff by (metis distinct.simps(2) image_eqI list.set_map list.simps(9))
    then show ?thesis
      by (simp add: True final_value_def)
  next
    case False
    then have "rp_match s \<noteq> rp_match r"
      using Cons.prems by auto
    then show ?thesis
      using Cons False by (simp add: final_value_def)
  qed
qed simp

lemma settle_stable:
  assumes "plain_config va rs"
  shows "settle va rs (settle va rs ls) = settle va rs ls"
proof -
  let ?found = "found_keys (settle va rs ls)"
  have once: "settle_line va rs (settle_line va rs l) = settle_line va rs l" for l
    by (cases l) (simp_all add: final_value_stable)
  have same: "settle_line va rs l = l" if "l \<in> set (missing_pairs va rs (found_keys ls))" for l
    using that final_value_configured [of rs _ va] assms by (auto simp: missing_pairs_def plain_config_def)
  have "missing_pairs va rs ?found = []"
    unfolding missing_pairs_def [of va rs ?found]
    by (auto simp: filter_empty_conv settle_def found_keys_append found_keys_settle_lines found_keys_missing)
  moreover have "map (settle_line va rs) (settle va rs ls) = settle va rs ls"
    using once same by (simp add: settle_def map_idI)
  ultimately show ?thesis
    by (simp add: settle_def [of va rs "settle va rs ls"])
qed

lemma pair_in_settle:
  assumes "plain_config va rs" "r \<in> set rs" "rp_update_existing r" "Pair (rp_match r) v \<in> set (settle va rs ls)"
  shows "v = replacement_text va (rp_replace_with r)"
proof -
  have d: "distinct (map rp_match rs)"
    using assms(1) by (simp add: plain_config_def)
  consider l where "l \<in> set ls" "settle_line va rs l = Pair (rp_match r) v"
    | s where "s \<in> set rs" "rp_match s = rp_match r" "v = replacement_text va (rp_replace_with s)"
    using assms(4) by (fastforce simp: settle_def missing_pairs_def)
  then show ?thesis
  proof cases
    case 1
    from 1(2) show ?thesis
      using final_value_configured [OF d assms(2), of va] assms(3) by (cases l) simp_all
  next
    case 2
    then have "s = r"
      using d assms(2) by (metis distinct_map inj_onD)
    then show ?thesis
      using 2 by simp
  qed
qed

lemma key_in_settle:
  assumes "r \<in> set rs" "rp_insert_new r \<noteq> Some False"
  shows "rp_match r \<in> set (found_keys (settle va rs ls))"
  using assms by (auto simp: settle_def found_keys_append found_keys_settle_lines found_keys_missing)


definition sample_server :: server_config where
  "sample_server =
     \<lparr>sc_memory_limit = 2048, sc_swap = 0, sc_io_weight = None, sc_cpu_limit = 100, sc_disk_space = 4096, sc_threads = None,
      sc_default = Some (chars ''10.0.0.1'', 25565), sc_environment = [(chars ''MOTD'', VString (chars ''Hi''))]\<rparr>"

definition sample_variables :: variables where
  "sample_variables = \<lparr>va_server = sample_server, va_config = Some (VObject []), va_json_text = (\<lambda>_. [])\<rparr>"

definition sample_replacements :: "replacement list" where
  "sample_replacements =
     [\<lparr>rp_match = chars ''port'', rp_if_value = None, rp_insert_new = None, rp_update_existing = True,
       rp_replace_with = VString (chars ''{{server.build.default.port}}'')\<rparr>,
      \<lparr>rp_match = chars ''motd'', rp_if_value = None, rp_insert_new = None, rp_update_existing = True,
       rp_replace_with = VString (chars ''{{env.MOTD}}!'')\<rparr>]"

lemma sample_texts:
  "replacement_text sample_variables (VString (chars ''{{server.build.default.port}}'')) = chars ''25565''"
  "replacement_text sample_variables (VString (chars ''{{env.MOTD}}!'')) = chars ''Hi!''"
  by (simp_all add: replacement_text_def replace_all_placeholders_def chars_def lookup_value_def trim_def trim_start_def
      is_whitespace_def lookup_server_variable_def lookup_environment_def sample_variables_def sample_server_def
      show_nat_def decimal.simps suffix_def)

lemma sample_parsed:
  "properties_parser (chars ''#x'' @ [newline] @ chars ''port = 1'' @ [newline, newline]) =
     [Comment (chars ''#x''), Pair (chars ''port'') (chars ''1''), Blank]"
  by (simp add: properties_parser_def chars_def split_lines.simps strip_cr_def join_lines.simps is_continuation_def
      parse_line_def trim_start_def is_whitespace_def split_pair_def utf8_len_def)


section \<open>The contract of a parser\<close>

lemma properties_only_placeholders:
  assumes "same_answers va vb"
  shows "process_file va rs content = process_file vb rs content"
proof -
  have same: "replace_all_placeholders va v = replace_all_placeholders vb v" for v
    using assms by (simp add: same_answers_def)
  have "replace_value va rs k v = replace_value vb rs k v" for rs k v
    by (induction rs arbitrary: v) (auto simp: same split: sum.split)
  then have "rewrite_lines va rs ls = rewrite_lines vb rs ls" for ls
    by (induction ls) (simp_all split: property_line.split sum.split)
  moreover have "append_missing va found rs = append_missing vb found rs" for found
    by (induction rs) (simp_all add: same split: sum.split)
  ultimately show ?thesis
    by (simp add: process_file_def Let_def split: sum.split)
qed

interpretation properties: config_parser Properties.process_file
  by unfold_locales (rule properties_only_placeholders)

end
