(* ===== verification/JsonFile.thy ===== *)
theory JsonFile
  imports Placeholders
begin

text \<open>
  Setting configured values in JSON and YAML files (\<^verbatim>\<open>server/configuration/process/json.rs\<close> and \<^verbatim>\<open>yaml.rs\<close>): paths of
  keys and indices, the assignment of a nested value, and the rewriting of a whole document. The libraries that
  read and print the two formats are parameters. The lemmas give the laws of the assignment, what it reads back as
  and what it leaves alone, and lift them to a document.
\<close>

section \<open>Paths\<close>

datatype path_segment = Key ustring | Index nat

fun decimal_number :: "nat \<Rightarrow> ustring \<Rightarrow> nat option" where
  "decimal_number acc [] = Some acc"
| "decimal_number acc (c # cs) = (if 48 \<le> c \<and> c \<le> 57 then decimal_number (acc * 10 + (c - 48)) cs else None)"

definition parse_usize :: "ustring \<Rightarrow> nat option" where
  "parse_usize s =
     (let digits = (if take 1 s = [43] then tl s else s) in
      if digits = [] then None
      else (case decimal_number 0 digits of Some n \<Rightarrow> if n < 2 ^ 64 then Some n else None | None \<Rightarrow> None))"

function bracket_indices :: "ustring \<Rightarrow> path_segment list" where
  "bracket_indices rest =
     (if 93 \<in> set rest then
        (case takeWhile (\<lambda>c. c \<noteq> 93) rest of
           [] \<Rightarrow> []
         | b # digits \<Rightarrow>
             if b = 91 then (case parse_usize digits of Some i \<Rightarrow> [Index i] | None \<Rightarrow> []) else []) @
        bracket_indices (tl (dropWhile (\<lambda>c. c \<noteq> 93) rest))
      else [])"
  by auto
termination
proof (relation "measure length")
  show "(tl (dropWhile (\<lambda>c. c \<noteq> 93) rest), rest) \<in> measure length" if "93 \<in> set rest" for rest :: ustring
    using length_dropWhile_le [of "\<lambda>c. c \<noteq> 93" rest] that by (cases rest) auto
qed simp

declare bracket_indices.simps [simp del]

definition parse_part :: "ustring \<Rightarrow> path_segment list" where
  "parse_part part =
     (if part = [] then []
      else if 91 \<notin> set part then [Key part]
      else
        (let key = takeWhile (\<lambda>c. c \<noteq> 91) part in
         (if key = [] then [] else [Key key]) @ bracket_indices (dropWhile (\<lambda>c. c \<noteq> 91) part)))"

definition parse_path :: "ustring \<Rightarrow> path_segment list" where
  "parse_path raw = concat (map parse_part (split_dots raw))"

section \<open>Assigning a nested value\<close>

fun entries_of :: "json_value \<Rightarrow> (ustring \<times> json_value) list" where
  "entries_of (VObject m) = m"
| "entries_of _ = []"

fun items_of :: "json_value \<Rightarrow> json_value list" where
  "items_of (VArray xs) = xs"
| "items_of _ = []"

fun default_child :: "path_segment \<Rightarrow> json_value" where
  "default_child (Index _) = VArray []"
| "default_child (Key _) = VObject []"

text \<open>A value of the wrong kind on the way becomes an empty object or array first.\<close>

fun set_nested_value :: "json_value \<Rightarrow> path_segment list \<Rightarrow> json_value \<Rightarrow> bool \<Rightarrow> bool \<Rightarrow> json_value" where
  "set_nested_value current [] val insert_new update_existing = current"
| "set_nested_value current [Key k] val insert_new update_existing =
     (let m = entries_of current in
      VObject
        (if map_of m k \<noteq> None then (if update_existing then map_entry (\<lambda>_. val) k m else m)
         else if insert_new then m @ [(k, val)] else m))"
| "set_nested_value current [Index i] val insert_new update_existing =
     (let arr = items_of current in
      VArray
        (if i < length arr then (if update_existing then arr[i := val] else arr)
         else if insert_new then arr @ replicate (i - length arr) VNull @ [val] else arr))"
| "set_nested_value current (Key k # next # tail) val insert_new update_existing =
     (let m = entries_of current;
          m' = (if map_of m k \<noteq> None then m else m @ [(k, default_child next)]) in
      VObject (map_entry (\<lambda>child. set_nested_value child (next # tail) val insert_new update_existing) k m'))"
| "set_nested_value current (Index i # next # tail) val insert_new update_existing =
     (let arr = items_of current;
          arr' = arr @ replicate (Suc i - length arr) (default_child next) in
      VArray (arr'[i := set_nested_value (arr' ! i) (next # tail) val insert_new update_existing]))"

section \<open>Processing a file\<close>

text \<open>The libraries: reading a file, printing a document and reading a JSON value from text.\<close>

record codec =
  co_parse :: "ustring \<Rightarrow> json_value option"
  co_print :: "json_value \<Rightarrow> ustring option"
  co_value :: "ustring \<Rightarrow> json_value option"

definition replacement_value :: "codec \<Rightarrow> variables \<Rightarrow> json_value \<Rightarrow> config_error + json_value" where
  "replacement_value co va v =
     (case v of
        VString _ \<Rightarrow>
          (case replace_all_placeholders va v of
             Inl e \<Rightarrow> Inl e
           | Inr resolved \<Rightarrow> Inr (case co_value co resolved of Some x \<Rightarrow> x | None \<Rightarrow> VString resolved))
      | other \<Rightarrow> Inr other)"

definition starting_document :: "codec \<Rightarrow> ustring \<Rightarrow> json_value" where
  "starting_document co content =
     (if trim content = [] then VObject []
      else (case co_parse co content of Some doc \<Rightarrow> doc | None \<Rightarrow> VObject []))"

fun apply_replacements :: "codec \<Rightarrow> variables \<Rightarrow> replacement list \<Rightarrow> json_value \<Rightarrow> config_error + json_value" where
  "apply_replacements co va [] doc = Inr doc"
| "apply_replacements co va (r # rs) doc =
     (case replacement_value co va (rp_replace_with r) of
        Inl e \<Rightarrow> Inl e
      | Inr val \<Rightarrow>
          apply_replacements co va rs
            (set_nested_value doc (parse_path (rp_match r)) val
               (case rp_insert_new r of None \<Rightarrow> True | Some b \<Rightarrow> b) (rp_update_existing r)))"

definition process_file :: "codec \<Rightarrow> variables \<Rightarrow> replacement list \<Rightarrow> ustring \<Rightarrow> config_error + ustring" where
  "process_file co va rs content =
     (case apply_replacements co va rs (starting_document co content) of
        Inl e \<Rightarrow> Inl e
      | Inr doc \<Rightarrow> (case co_print co doc of None \<Rightarrow> Inl PrintFailed | Some text \<Rightarrow> Inr text))"

section \<open>Laws of the assignment\<close>

fun get_nested :: "json_value \<Rightarrow> path_segment list \<Rightarrow> json_value option" where
  "get_nested v [] = Some v"
| "get_nested v (Key k # p) = (case value_get k v of None \<Rightarrow> None | Some c \<Rightarrow> get_nested c p)"
| "get_nested v (Index i # p) = (if i < length (items_of v) then get_nested (items_of v ! i) p else None)"

text \<open>Two paths that part at two keys or at two indices.\<close>

fun diverge :: "path_segment list \<Rightarrow> path_segment list \<Rightarrow> bool" where
  "diverge (Key a # p) (Key b # q) = (a \<noteq> b \<or> diverge p q)"
| "diverge (Index i # p) (Index j # q) = (i \<noteq> j \<or> diverge p q)"
| "diverge _ _ = False"

lemma value_get_entries: "value_get k v = map_of (entries_of v) k"
  by (cases v) simp_all

lemma map_of_map_entry: "map_of (map_entry f k m) l = (if l = k then map_option f (map_of m k) else map_of m l)"
  by (induction m) auto

lemma get_default_child: "get_nested (default_child s) (s # p) = None"
  by (cases s) simp_all

lemma set_then_get:
  assumes "p \<noteq> []"
  shows "get_nested (set_nested_value v p val ins upd) p =
    (case get_nested v p of
       Some old \<Rightarrow> if upd then Some val else Some old
     | None \<Rightarrow> if ins then Some val else None)"
  using assms
proof (induction v p val ins upd rule: set_nested_value.induct)
  case (4 v k s tail val ins upd)
  show ?case
    using 4 by (cases "map_of (entries_of v) k")
      (auto simp: Let_def value_get_entries map_of_map_entry map_add_def get_default_child)
next
  case (5 v i s tail val ins upd)
  show ?case
    using 5 by (cases "i < length (items_of v)")
      (auto simp: Let_def nth_append get_default_child)
qed (auto simp: Let_def value_get_entries map_of_map_entry nth_append map_add_def split: option.splits)

lemma diverge_Key: "diverge (Key a # p) q \<longleftrightarrow> (\<exists>b q'. q = Key b # q' \<and> (a \<noteq> b \<or> diverge p q'))"
  by (cases q; cases "hd q") auto

lemma diverge_Index: "diverge (Index i # p) q \<longleftrightarrow> (\<exists>j q'. q = Index j # q' \<and> (i \<noteq> j \<or> diverge p q'))"
  by (cases q; cases "hd q") auto

lemma set_keeps_others:
  assumes "diverge p q" "get_nested v q = Some w"
  shows "get_nested (set_nested_value v p val ins upd) q = Some w"
  using assms
proof (induction v p val ins upd arbitrary: q rule: set_nested_value.induct)
  case (2 v k val ins upd)
  then obtain b q' where "q = Key b # q'" "b \<noteq> k"
    by (auto simp: diverge_Key)
  then show ?case
    using 2(2) by (auto simp: Let_def value_get_entries map_of_map_entry map_add_def split: option.splits)
next
  case (3 v i val ins upd)
  then obtain j q' where "q = Index j # q'" "j \<noteq> i"
    by (auto simp: diverge_Index)
  then show ?case
    using 3(2) by (auto simp: Let_def nth_append split: if_splits)
next
  case (4 v k s tail val ins upd)
  obtain b q' where q: "q = Key b # q'" "k \<noteq> b \<or> diverge (s # tail) q'"
    using 4(2) by (auto simp: diverge_Key)
  obtain c where c: "map_of (entries_of v) b = Some c" "get_nested c q' = Some w"
    using 4(3) by (auto simp: q(1) value_get_entries split: option.splits)
  show ?case
  proof (cases "b = k")
    case True
    then show ?thesis
      using 4(1) c q by (simp add: Let_def value_get_entries map_of_map_entry)
  next
    case False
    then show ?thesis
      using c by (simp add: Let_def q(1) value_get_entries map_of_map_entry map_add_def)
  qed
next
  case (5 v i s tail val ins upd)
  obtain j q' where q: "q = Index j # q'" "i \<noteq> j \<or> diverge (s # tail) q'"
    using 5(2) by (auto simp: diverge_Index)
  have j: "j < length (items_of v)" "get_nested (items_of v ! j) q' = Some w"
    using 5(3) by (auto simp: q(1) split: if_splits)
  show ?case
  proof (cases "j = i")
    case True
    then show ?thesis
      using 5(1) j q by (simp add: Let_def nth_append)
  next
    case False
    then show ?thesis
      using j by (simp add: Let_def q(1) nth_append)
  qed
qed simp

text \<open>What cannot be an object is destroyed on the way, even when nothing may be inserted or updated.\<close>

lemma forbidden_write_destroys:
  assumes "get_nested v p = Some w" "\<And>m. w \<noteq> VObject m"
  shows "get_nested (set_nested_value v (p @ [Key k]) val False False) p = Some (VObject [])"
  using assms(1)
proof (induction p arbitrary: v)
  case Nil
  then show ?case
    using assms(2) by (cases v) auto
next
  case (Cons s p)
  obtain t tail where tail: "p @ [Key k] = t # tail"
    by (cases "p @ [Key k]") auto
  note IH = Cons.IH [unfolded tail]
  show ?case
    using Cons.prems IH unfolding append_Cons tail
    by (cases s) (auto simp: Let_def value_get_entries map_of_map_entry nth_append split: option.splits if_splits)
qed

section \<open>Documents\<close>

definition may_insert :: "replacement \<Rightarrow> bool" where
  "may_insert r = (rp_insert_new r \<noteq> Some False)"

lemma insert_flag: "(case rp_insert_new r of None \<Rightarrow> True | Some b \<Rightarrow> b) = may_insert r"
  by (auto simp: may_insert_def split: option.split)

text \<open>The value a replacement stands for.\<close>

definition target_value :: "codec \<Rightarrow> variables \<Rightarrow> json_value \<Rightarrow> json_value" where
  "target_value co va v =
     (case v of
        VString _ \<Rightarrow> (let s = replacement_text va v in case co_value co s of Some x \<Rightarrow> x | None \<Rightarrow> VString s)
      | other \<Rightarrow> other)"

lemma replacement_value_total: "replacement_value co va v = Inr (target_value co va v)"
  by (cases v) (simp_all add: replacement_value_def target_value_def replace_all_total Let_def)

abbreviation target_path :: "replacement \<Rightarrow> path_segment list" where
  "target_path r \<equiv> parse_path (rp_match r)"

lemma apply_total: "\<exists>doc'. apply_replacements co va rs doc = Inr doc'"
  by (induction rs arbitrary: doc) (simp_all add: replacement_value_total)

lemma apply_keeps_others:
  "apply_replacements co va rs doc = Inr doc' \<Longrightarrow> \<forall>r \<in> set rs. diverge (target_path r) q \<Longrightarrow>
   get_nested doc q = Some w \<Longrightarrow> get_nested doc' q = Some w"
  by (induction rs arbitrary: doc) (auto simp: replacement_value_total set_keeps_others)

fun paths_apart :: "replacement list \<Rightarrow> bool" where
  "paths_apart [] = True"
| "paths_apart (r # rs) = (list_all (\<lambda>s. diverge (target_path s) (target_path r)) rs \<and> paths_apart rs)"

lemma apply_sets:
  assumes "apply_replacements co va rs doc = Inr doc'" "paths_apart rs" "r \<in> set rs"
    "target_path r \<noteq> []" "may_insert r" "rp_update_existing r"
  shows "get_nested doc' (target_path r) = Some (target_value co va (rp_replace_with r))"
  using assms(1-3)
proof (induction rs arbitrary: doc)
  case (Cons s rs)
  let ?doc = "set_nested_value doc (target_path s) (target_value co va (rp_replace_with s)) (may_insert s) (rp_update_existing s)"
  have rest: "apply_replacements co va rs ?doc = Inr doc'"
    using Cons.prems(1) by (simp add: replacement_value_total insert_flag)
  show ?case
  proof (cases "r \<in> set rs")
    case True
    then show ?thesis
      using Cons.IH [OF rest] Cons.prems(2) by simp
  next
    case False
    then have "s = r"
      using Cons.prems(3) by simp
    then have "get_nested ?doc (target_path r) = Some (target_value co va (rp_replace_with r))"
      using set_then_get [OF assms(4), of doc] assms(5,6) by (simp split: option.split)
    then show ?thesis
      using apply_keeps_others [OF rest, of "target_path r"] Cons.prems(2) \<open>s = r\<close> by (simp add: list_all_iff)
  qed
qed simp


definition sample_document :: json_value where
  "sample_document = VObject [(chars ''keep'', VBool True), (chars ''net'', VObject [(chars ''port'', VNumber (chars ''1''))])]"

definition sample_codec :: codec where
  "sample_codec = \<lparr>co_parse = (\<lambda>_. Some sample_document), co_print = (\<lambda>_. Some []), co_value = (\<lambda>_. None)\<rparr>"

definition sample_port :: replacement where
  "sample_port =
     \<lparr>rp_match = chars ''net.port'', rp_if_value = None, rp_insert_new = None, rp_update_existing = True,
      rp_replace_with = VNumber (chars ''2'')\<rparr>"


text \<open>A file the library cannot read is treated as an empty document: all its other content is gone.\<close>

lemma unreadable_document_discarded:
  "co_parse co content = None \<Longrightarrow> process_file co va rs content = process_file co va rs []"
  by (simp add: process_file_def starting_document_def trim_def trim_start_def)

lemma document_only_placeholders:
  assumes "same_answers va vb"
  shows "process_file co va rs content = process_file co vb rs content"
proof -
  have "target_value co va v = target_value co vb v" for v
    using assms by (cases v) (simp_all add: target_value_def replacement_text_def same_answers_def)
  then have "apply_replacements co va rs doc = apply_replacements co vb rs doc" for doc
    by (induction rs arbitrary: doc) (simp_all add: replacement_value_total)
  then show ?thesis
    by (simp add: process_file_def)
qed

interpretation tree_file: config_parser "JsonFile.process_file co" for co
  by unfold_locales (rule document_only_placeholders)

end
