(* ===== verification/ConfigFiles.thy ===== *)
theory ConfigFiles
  imports Properties JsonFile CapPath
begin

text \<open>
  The configuration files of a server, rewritten before it starts (\<^verbatim>\<open>ProcessConfiguration::update_files\<close> of
  \<^verbatim>\<open>server/configuration/process/mod.rs\<close>), with the plain and INI parsers (\<^verbatim>\<open>plain.rs\<close>, \<^verbatim>\<open>ini.rs\<close>). The file system is a
  map from paths to directories and files whose calls may fail; the reader of INI items, the JSON and YAML
  libraries and the XML and TOML parsers are parameters.
\<close>

section \<open>Plain files\<close>

fun plain_line :: "variables \<Rightarrow> replacement list \<Rightarrow> ustring \<Rightarrow> config_error + (ustring \<times> ustring list)" where
  "plain_line va [] line = Inr (line, [])"
| "plain_line va (r # rs) line =
     (if \<not> prefix (rp_match r) line then plain_line va rs line
      else
        (case replace_all_placeholders va (rp_replace_with r) of
           Inl e \<Rightarrow> Inl e
         | Inr val \<Rightarrow> Inr (if rp_update_existing r then val else line, [rp_match r])))"

fun plain_lines :: "variables \<Rightarrow> replacement list \<Rightarrow> ustring list \<Rightarrow> config_error + (ustring \<times> ustring list)" where
  "plain_lines va rs [] = Inr ([], [])"
| "plain_lines va rs (l # ls) =
     (case plain_line va rs l of
        Inl e \<Rightarrow> Inl e
      | Inr (out, found) \<Rightarrow>
          (case plain_lines va rs ls of
             Inl e \<Rightarrow> Inl e
           | Inr (rest, found') \<Rightarrow> Inr (out @ [newline] @ rest, found @ found')))"

fun plain_missing :: "variables \<Rightarrow> ustring list \<Rightarrow> replacement list \<Rightarrow> config_error + ustring" where
  "plain_missing va found [] = Inr []"
| "plain_missing va found (r # rs) =
     (if rp_match r \<in> set found \<or> rp_insert_new r \<noteq> Some True then plain_missing va found rs
      else
        (case replace_all_placeholders va (rp_replace_with r) of
           Inl e \<Rightarrow> Inl e
         | Inr val \<Rightarrow> (case plain_missing va found rs of Inl e \<Rightarrow> Inl e | Inr rest \<Rightarrow> Inr (val @ [newline] @ rest))))"

definition process_plain :: "variables \<Rightarrow> replacement list \<Rightarrow> ustring \<Rightarrow> config_error + ustring" where
  "process_plain va rs content =
     (case plain_lines va rs (split_lines content) of
        Inl e \<Rightarrow> Inl e
      | Inr (out, found) \<Rightarrow> (case plain_missing va found rs of Inl e \<Rightarrow> Inl e | Inr rest \<Rightarrow> Inr (out @ rest)))"

section \<open>INI files\<close>

datatype ini_item =
  SectionEnd | Section ustring ustring | Property (property_key: ustring) (property_raw: ustring) | IniComment ustring | IniBlank ustring | IniError ustring

record pending =
  pe_section :: "ustring option"
  pe_key :: ustring
  pe_value :: ustring
  pe_insert_new :: bool
  pe_update_existing :: bool
  pe_applied :: bool

record ini_path =
  ip_section :: ustring
  ip_key :: ustring
  ip_depth :: int
  ip_in_section :: bool

definition ini_path_step :: "ini_path \<Rightarrow> nat \<Rightarrow> ini_path" where
  "ini_path_step s ch =
     (if ch = 91 then s\<lparr>ip_depth := ip_depth s + 1\<rparr>
      else if ch = 93 then s\<lparr>ip_depth := ip_depth s - 1\<rparr>
      else if ch = 46 then
        (if 0 < ip_depth s then s\<lparr>ip_section := ip_section s @ [ch]\<rparr>
         else if ip_in_section s \<and> ip_section s \<noteq> [] then s\<lparr>ip_in_section := False\<rparr>
         else s\<lparr>ip_key := ip_key s @ [ch]\<rparr>)
      else if ip_in_section s then s\<lparr>ip_section := ip_section s @ [ch]\<rparr>
      else s\<lparr>ip_key := ip_key s @ [ch]\<rparr>)"

definition parse_ini_path :: "ustring \<Rightarrow> ustring \<times> ustring" where
  "parse_ini_path path =
     (let s = foldl ini_path_step \<lparr>ip_section = [], ip_key = [], ip_depth = 0, ip_in_section = True\<rparr> path in
      if ip_in_section s then ([], ip_section s) else (ip_section s, ip_key s))"

definition rewrite_property :: "ustring \<Rightarrow> ustring \<Rightarrow> ustring \<Rightarrow> ustring" where
  "rewrite_property raw key new_value =
     (if equals_sign \<notin> set raw then key @ [equals_sign] @ new_value
      else
        (let before = takeWhile (\<lambda>c. c \<noteq> equals_sign) raw;
             after = tl (dropWhile (\<lambda>c. c \<noteq> equals_sign) raw) in
         before @ [equals_sign] @ takeWhile is_whitespace after @ new_value))"

fun pending_of :: "variables \<Rightarrow> replacement list \<Rightarrow> config_error + pending list" where
  "pending_of va [] = Inr []"
| "pending_of va (r # rs) =
     (case replace_all_placeholders va (rp_replace_with r) of
        Inl e \<Rightarrow> Inl e
      | Inr val \<Rightarrow>
          (case pending_of va rs of
             Inl e \<Rightarrow> Inl e
           | Inr ps \<Rightarrow>
               (case parse_ini_path (rp_match r) of
                  (sect, key) \<Rightarrow>
                    Inr (\<lparr>pe_section = (if sect = [] then None else Some sect), pe_key = key, pe_value = val,
                          pe_insert_new = (rp_insert_new r \<noteq> Some False), pe_update_existing = rp_update_existing r,
                          pe_applied = False\<rparr> # ps))))"

definition setting_line :: "ustring \<Rightarrow> pending \<Rightarrow> ustring" where
  "setting_line nl p = pe_key p @ [equals_sign] @ pe_value p @ nl"

text \<open>The end of a section: what is missing in it is written there.\<close>

fun finish_section :: "ustring \<Rightarrow> ustring option \<Rightarrow> pending list \<Rightarrow> ustring \<times> pending list" where
  "finish_section nl current [] = ([], [])"
| "finish_section nl current (p # ps) =
     (case finish_section nl current ps of
        (out, ps') \<Rightarrow>
          if \<not> pe_applied p \<and> pe_insert_new p \<and> pe_section p = current
          then (setting_line nl p @ out, p\<lparr>pe_applied := True\<rparr> # ps')
          else (out, p # ps'))"

fun match_property :: "ustring option \<Rightarrow> ustring \<Rightarrow> ustring \<Rightarrow> pending list \<Rightarrow> ustring \<times> pending list" where
  "match_property current key raw [] = (raw, [])"
| "match_property current key raw (p # ps) =
     (if \<not> pe_applied p \<and> pe_section p = current \<and> pe_key p = key
      then (if pe_update_existing p then rewrite_property raw key (pe_value p) else raw, p\<lparr>pe_applied := True\<rparr> # ps)
      else (case match_property current key raw ps of (out, ps') \<Rightarrow> (out, p # ps')))"

definition ini_step ::
  "ustring \<Rightarrow> ustring \<times> ustring option \<times> pending list \<Rightarrow> ini_item \<Rightarrow> ustring \<times> ustring option \<times> pending list" where
  "ini_step nl s item =
     (case s of (out, current, ps) \<Rightarrow>
        (case item of
           SectionEnd \<Rightarrow> (case finish_section nl current ps of (new, ps') \<Rightarrow> (out @ new, current, ps'))
         | Section name raw \<Rightarrow> (out @ raw @ nl, Some name, ps)
         | Property key raw \<Rightarrow> (case match_property current key raw ps of (line, ps') \<Rightarrow> (out @ line @ nl, current, ps'))
         | IniComment raw \<Rightarrow> (out @ raw @ nl, current, ps)
         | IniBlank raw \<Rightarrow> (out @ raw @ nl, current, ps)
         | IniError raw \<Rightarrow> (out @ raw @ nl, current, ps)))"

fun seen_sections :: "ustring list \<Rightarrow> pending list \<Rightarrow> ustring list" where
  "seen_sections seen [] = seen"
| "seen_sections seen (p # ps) =
     seen_sections
       (case pe_section p of
          Some sect \<Rightarrow> if \<not> pe_applied p \<and> pe_insert_new p \<and> sect \<notin> set seen then seen @ [sect] else seen
        | None \<Rightarrow> seen) ps"

definition new_section :: "ustring \<Rightarrow> pending list \<Rightarrow> ustring \<Rightarrow> ustring \<Rightarrow> ustring" where
  "new_section nl ps out sect =
     out @ (if out = [] then [] else nl) @ [91] @ sect @ [93] @ nl @
     concat (map (setting_line nl)
       (filter (\<lambda>p. \<not> pe_applied p \<and> pe_insert_new p \<and> pe_section p = Some sect) ps))"

definition ini_newline :: "ustring \<Rightarrow> ustring" where
  "ini_newline content = (if sublist [carriage_return, newline] content then [carriage_return, newline] else [newline])"

definition process_ini :: "(ustring \<Rightarrow> ini_item list) \<Rightarrow> variables \<Rightarrow> replacement list \<Rightarrow> ustring \<Rightarrow> config_error + ustring" where
  "process_ini items va rs content =
     (case pending_of va rs of
        Inl e \<Rightarrow> Inl e
      | Inr ps \<Rightarrow>
          (let nl = ini_newline content in
           case foldl (ini_step nl) ([], None, ps) (items content) of
             (out, _, ps') \<Rightarrow> Inr (foldl (new_section nl ps') out (seen_sections [] ps'))))"

section \<open>Text on disk\<close>

function utf8_chars :: "byte list \<Rightarrow> ustring" where
  "utf8_chars [] = []"
| "utf8_chars (b # bs) =
     (if b < 128 then b # utf8_chars bs
      else if b < 224 then ((b - 192) * 64 + (bs ! 0 - 128)) # utf8_chars (drop 1 bs)
      else if b < 240 then ((b - 224) * 4096 + (bs ! 0 - 128) * 64 + (bs ! 1 - 128)) # utf8_chars (drop 2 bs)
      else ((b - 240) * 262144 + (bs ! 0 - 128) * 4096 + (bs ! 1 - 128) * 64 + (bs ! 2 - 128)) # utf8_chars (drop 3 bs))"
  by pat_completeness auto
termination
  by (relation "measure length") auto

definition from_utf8 :: "byte list \<Rightarrow> ustring option" where
  "from_utf8 bs = (if valid_utf8 bs then Some (utf8_chars bs) else None)"

definition utf8_char :: "nat \<Rightarrow> byte list" where
  "utf8_char c =
     (if c < 128 then [c]
      else if c < 2048 then [192 + c div 64, 128 + c mod 64]
      else if c < 65536 then [224 + c div 4096, 128 + c div 64 mod 64, 128 + c mod 64]
      else [240 + c div 262144, 128 + c div 4096 mod 64, 128 + c div 64 mod 64, 128 + c mod 64])"

definition to_utf8 :: "ustring \<Rightarrow> byte list" where
  "to_utf8 s = concat (map utf8_char s)"

section \<open>Updating the files\<close>

datatype fs_node = Directory | Data "byte list"

type_synonym disk = "path \<Rightarrow> fs_node option"

text \<open>Which call fails, and how, is the system's choice.\<close>

datatype sys_call = CreateDirs path | Metadata path | OpenFile path | CreateFile path | WriteAll path

datatype update_error = IoFailed io_error | ParserFailed config_error

definition not_a_directory :: io_error where "not_a_directory = 20"
definition is_a_directory :: io_error where "is_a_directory = 21"

fun create_dirs :: "disk \<Rightarrow> path list \<Rightarrow> (io_error \<times> disk) + disk" where
  "create_dirs d [] = Inr d"
| "create_dirs d (p # ps) =
     (case d p of
        None \<Rightarrow> create_dirs (d(p \<mapsto> Directory)) ps
      | Some Directory \<Rightarrow> create_dirs d ps
      | Some (Data _) \<Rightarrow> Inl (not_a_directory, d))"

definition create_dir_all :: "(sys_call \<Rightarrow> io_error option) \<Rightarrow> disk \<Rightarrow> path \<Rightarrow> (io_error \<times> disk) + disk" where
  "create_dir_all sys d p =
     (case sys (CreateDirs p) of Some e \<Rightarrow> Inl (e, d) | None \<Rightarrow> create_dirs d (tl (prefixes p)))"

definition read_limit :: nat where "read_limit = 1024 * 1024"

definition read_to_string :: "(sys_call \<Rightarrow> io_error option) \<Rightarrow> byte list \<Rightarrow> path \<Rightarrow> ustring option" where
  "read_to_string sys bytes p =
     (case sys (OpenFile p) of Some e \<Rightarrow> None | None \<Rightarrow> from_utf8 (take read_limit bytes))"

text \<open>Creating the file empties it; a write that fails leaves it empty.\<close>

definition write_file :: "(sys_call \<Rightarrow> io_error option) \<Rightarrow> disk \<Rightarrow> path \<Rightarrow> byte list \<Rightarrow> (io_error \<times> disk) + disk" where
  "write_file sys d p bytes =
     (case sys (CreateFile p) of
        Some e \<Rightarrow> Inl (e, d)
      | None \<Rightarrow>
          if d p = Some Directory then Inl (is_a_directory, d)
          else
            (case sys (WriteAll p) of
               Some e \<Rightarrow> Inl (e, d(p \<mapsto> Data []))
             | None \<Rightarrow> Inr (d(p \<mapsto> Data bytes))))"

datatype parser_kind = PlainFile | YamlFile | PropertiesFile | IniFile | JsonFormat | XmlFile | TomlFile

record file_config =
  fc_file :: string
  fc_create_new :: bool
  fc_parser :: parser_kind
  fc_replace :: "replacement list"

text \<open>The libraries behind the parsers.\<close>

record libraries =
  li_ini :: "ustring \<Rightarrow> ini_item list"
  li_json :: codec
  li_yaml :: codec
  li_xml :: "variables \<Rightarrow> replacement list \<Rightarrow> ustring \<Rightarrow> config_error + ustring"
  li_toml :: "variables \<Rightarrow> replacement list \<Rightarrow> ustring \<Rightarrow> config_error + ustring"

definition process_with :: "libraries \<Rightarrow> parser_kind \<Rightarrow> variables \<Rightarrow> replacement list \<Rightarrow> ustring \<Rightarrow> config_error + ustring" where
  "process_with li kind va rs content =
     (case kind of
        PropertiesFile \<Rightarrow> Properties.process_file va rs content
      | JsonFormat \<Rightarrow> JsonFile.process_file (li_json li) va rs content
      | YamlFile \<Rightarrow> JsonFile.process_file (li_yaml li) va rs content
      | IniFile \<Rightarrow> process_ini (li_ini li) va rs content
      | XmlFile \<Rightarrow> li_xml li va rs content
      | PlainFile \<Rightarrow> process_plain va rs content
      | TomlFile \<Rightarrow> li_toml li va rs content)"

definition update_file ::
  "(sys_call \<Rightarrow> io_error option) \<Rightarrow> libraries \<Rightarrow> path \<Rightarrow> variables \<Rightarrow> file_config \<Rightarrow> disk \<Rightarrow> (update_error \<times> disk) + disk" where
  "update_file sys li base va fc d =
     (let p = relative_path base (components (fc_file fc));
          made = (if butlast p = [] then Inr d else create_dir_all sys d (butlast p)) in
      case made of
        Inl (e, d') \<Rightarrow> Inl (IoFailed e, d')
      | Inr d' \<Rightarrow>
          (let content =
             (case (sys (Metadata p), d' p) of
                (None, Some (Data bytes)) \<Rightarrow>
                  Some (case read_to_string sys bytes p of Some s \<Rightarrow> s | None \<Rightarrow> [])
              | _ \<Rightarrow> if fc_create_new fc then Some [] else None) in
           case content of
             None \<Rightarrow> Inr d'
           | Some text \<Rightarrow>
               (case process_with li (fc_parser fc) va (fc_replace fc) text of
                  Inl e \<Rightarrow> Inl (ParserFailed e, d')
                | Inr out \<Rightarrow>
                    (case write_file sys d' p (to_utf8 out) of
                       Inl (e, d'') \<Rightarrow> Inl (IoFailed e, d'')
                     | Inr d'' \<Rightarrow> Inr d''))))"

fun update_files ::
  "(sys_call \<Rightarrow> io_error option) \<Rightarrow> libraries \<Rightarrow> path \<Rightarrow> variables \<Rightarrow> file_config list \<Rightarrow> disk \<Rightarrow> (update_error \<times> disk) + disk" where
  "update_files sys li base va [] d = Inr d"
| "update_files sys li base va (fc # fcs) d =
     (case update_file sys li base va fc d of Inl e \<Rightarrow> Inl e | Inr d' \<Rightarrow> update_files sys li base va fcs d')"

section \<open>Nothing but placeholders\<close>

lemma same_answersD: "same_answers va vb \<Longrightarrow> replace_all_placeholders va v = replace_all_placeholders vb v"
  by (simp add: same_answers_def)

lemma plain_only_placeholders:
  assumes "same_answers va vb"
  shows "process_plain va rs content = process_plain vb rs content"
proof -
  note same = same_answersD [OF assms]
  have "plain_line va rs l = plain_line vb rs l" for rs l
    by (induction rs) (simp_all add: same)
  then have "plain_lines va rs ls = plain_lines vb rs ls" for ls
    by (induction ls) (simp_all split: sum.split)
  moreover have "plain_missing va found rs = plain_missing vb found rs" for found
    by (induction rs) (simp_all add: same split: sum.split)
  ultimately show ?thesis
    by (simp add: process_plain_def split: sum.split)
qed

lemma ini_only_placeholders:
  assumes "same_answers va vb"
  shows "process_ini items va rs content = process_ini items vb rs content"
proof -
  have "pending_of va rs = pending_of vb rs"
    by (induction rs) (simp_all add: same_answersD [OF assms] split: sum.split)
  then show ?thesis
    by (simp add: process_ini_def)
qed

interpretation plain: config_parser process_plain
  by unfold_locales (rule plain_only_placeholders)

interpretation ini: config_parser "process_ini items" for items
  by unfold_locales (rule ini_only_placeholders)


definition plain_libraries :: libraries where
  "plain_libraries =
     \<lparr>li_ini = (\<lambda>_. []), li_json = sample_codec, li_yaml = sample_codec, li_xml = process_plain, li_toml = process_plain\<rparr>"

definition daemon_config :: "ustring \<Rightarrow> (ustring \<times> json_value) list" where
  "daemon_config token =
     [(chars ''token'', VString token),
      (chars ''docker'', VObject [(chars ''name'', VString (chars ''n'')), (chars ''registries'', VString token)])]"


section \<open>What a file loses\<close>

text \<open>
  A file that is not UTF-8 in its first mebibyte, or cannot be opened, is treated as an empty file and
  overwritten, whatever it contained: the update ends as it does for an empty file.
\<close>
lemma unreadable_file_overwritten:
  fixes d :: disk and fc :: file_config and base :: path
  defines "p \<equiv> relative_path base (components (fc_file fc))"
  assumes "d p = Some (Data bytes)" "sys (Metadata p) = None"
    "sys (OpenFile p) \<noteq> None \<or> \<not> valid_utf8 (take read_limit bytes)"
    "sys (CreateFile p) = None" "sys (WriteAll p) = None" "butlast p = []"
    "process_with li (fc_parser fc) va (fc_replace fc) [] = Inr out"
  shows "update_file sys li base va fc d = Inr (d(p \<mapsto> Data (to_utf8 out)))"
proof -
  have "read_to_string sys bytes p = None"
    using assms(4) by (auto simp: read_to_string_def from_utf8_def split: option.split)
  then show ?thesis
    using assms(2-3,5-8) unfolding p_def by (simp add: update_file_def write_file_def Let_def)
qed

text \<open>A Latin-1 character is enough to lose a plain file for which nothing is to be replaced.\<close>

lemma latin1_file_erased:
  "update_file (\<lambda>_. None) plain_libraries [] sample_variables
     \<lparr>fc_file = ''a'', fc_create_new = False, fc_parser = PlainFile, fc_replace = []\<rparr>
     [[Normal ''a''] \<mapsto> Data [65, 10, 233, 10]] = Inr [[Normal ''a''] \<mapsto> Data []]"
proof -
  let ?fc = "\<lparr>fc_file = ''a'', fc_create_new = False, fc_parser = PlainFile, fc_replace = []\<rparr>"
  have p: "relative_path [] (components ''a'') = [Normal ''a'']"
    by code_simp
  have "process_with plain_libraries PlainFile sample_variables [] [] = Inr []"
    by (simp add: process_with_def process_plain_def split_lines.simps)
  moreover have "\<not> valid_utf8 (take read_limit [65, 10, 233, 10])"
    by (simp add: read_limit_def valid_utf8.simps)
  ultimately show ?thesis
    using unreadable_file_overwritten [of "[[Normal ''a''] \<mapsto> Data [65, 10, 233, 10]]" "[]" ?fc "[65, 10, 233, 10]" "\<lambda>_. None"
        plain_libraries sample_variables "[]"]
    by (simp add: p to_utf8_def)
qed

section \<open>Settings of an INI file\<close>

text \<open>A setting is written as a new line, or over a property of its name that the file had.\<close>

definition setting_written :: "ustring \<Rightarrow> ini_item list \<Rightarrow> ustring \<Rightarrow> pending \<Rightarrow> bool" where
  "setting_written nl items out p =
     (\<exists>line. sublist (line @ nl) out \<and>
        (line = pe_key p @ [equals_sign] @ pe_value p \<or>
         (\<exists>raw. Property (pe_key p) raw \<in> set items \<and>
            line = (if pe_update_existing p then rewrite_property raw (pe_key p) (pe_value p) else raw))))"

definition progress :: "ustring \<Rightarrow> ini_item list \<Rightarrow> ustring \<Rightarrow> pending \<Rightarrow> pending \<Rightarrow> bool" where
  "progress nl items out p p' =
     (p' = p \<or> p' = p\<lparr>pe_applied := True\<rparr> \<and> setting_written nl items out p)"

lemma sublist_extend: "sublist xs ys \<Longrightarrow> sublist xs (as @ ys @ bs)"
  by (rule sublist_order.order_trans [OF _ sublist_appendI])

lemma setting_written_mono:
  "setting_written nl items out p \<Longrightarrow> sublist out out' \<Longrightarrow> set items \<subseteq> set items' \<Longrightarrow> setting_written nl items' out' p"
proof -
  assume "setting_written nl items out p" and grow: "sublist out out'" "set items \<subseteq> set items'"
  then obtain line where line: "sublist (line @ nl) out"
    "line = pe_key p @ [equals_sign] @ pe_value p \<or>
     (\<exists>raw. Property (pe_key p) raw \<in> set items \<and>
        line = (if pe_update_existing p then rewrite_property raw (pe_key p) (pe_value p) else raw))"
    unfolding setting_written_def by blast
  have "sublist (line @ nl) out'"
    using line(1) grow(1) by (rule sublist_order.order_trans)
  then show "setting_written nl items' out' p"
    unfolding setting_written_def using line(2) grow(2) by blast
qed

lemma setting_written_flag [simp]: "setting_written nl items out (p\<lparr>pe_applied := b\<rparr>) = setting_written nl items out p"
  by (simp add: setting_written_def)

lemma progress_refl [simp]: "progress nl items out p p"
  by (simp add: progress_def)

lemma progress_flag: "setting_written nl items out p \<Longrightarrow> progress nl items out p (p\<lparr>pe_applied := True\<rparr>)"
  by (simp add: progress_def)

lemma progress_trans:
  assumes "progress nl items out p p'" "progress nl items' out' p' p''" "sublist out out'" "set items \<subseteq> set items'"
  shows "progress nl items' out' p p''"
proof -
  have "setting_written nl items' out' p" if "setting_written nl items out p"
    using setting_written_mono [OF that assms(3,4)] .
  then show ?thesis
    using assms(1,2) unfolding progress_def by auto
qed

lemma progress_all_mono:
  "list_all2 (progress nl items out) ps qs \<Longrightarrow> sublist out out' \<Longrightarrow> list_all2 (progress nl items out') ps qs"
  by (rule list_all2_mono, assumption) (rule progress_trans [OF _ progress_refl _ subset_refl])

lemma progress_all_refl: "list_all2 (progress nl items out) ps ps"
  by (simp add: list_all2_same)

lemma finish_section_progress:
  "finish_section nl current ps = (new, ps') \<Longrightarrow> list_all2 (progress nl items new) ps ps'"
proof (induction ps arbitrary: new ps')
  case (Cons p ps)
  obtain out qs where fin: "finish_section nl current ps = (out, qs)"
    by (cases "finish_section nl current ps")
  have "setting_written nl items (setting_line nl p @ out) p"
    unfolding setting_written_def setting_line_def
    by (rule exI [of _ "pe_key p @ [equals_sign] @ pe_value p"]) (simp add: sublist_appendI [of _ "[]", simplified])
  then show ?case
    using Cons.prems fin Cons.IH [OF fin] progress_all_mono [OF Cons.IH [OF fin], of "setting_line nl p @ out"]
    by (auto intro: progress_flag split: if_splits)
qed simp

lemma match_property_progress:
  "match_property current key raw ps = (line, ps') \<Longrightarrow> Property key raw \<in> set items \<Longrightarrow>
   list_all2 (progress nl items (line @ nl)) ps ps'"
proof (induction ps arbitrary: line ps')
  case (Cons p ps)
  show ?case
  proof (cases "\<not> pe_applied p \<and> pe_section p = current \<and> pe_key p = key")
    case True
    then have "setting_written nl items (line @ nl) p"
      using Cons.prems unfolding setting_written_def by (intro exI [of _ line]) auto
    then show ?thesis
      using True Cons.prems progress_all_refl by (auto intro: progress_flag)
  next
    case False
    then show ?thesis
      using Cons by (auto split: prod.splits)
  qed
qed simp

lemma ini_step_progress:
  assumes "ini_step nl (out, current, ps) item = (out', current', ps')" "item \<in> set items"
  shows "sublist out out' \<and> list_all2 (progress nl items out') ps ps'"
proof -
  have grow: "list_all2 (progress nl items (out @ new)) ps qs" if "list_all2 (progress nl items new) ps qs" for new qs
    using progress_all_mono [OF that] by simp
  show ?thesis
  proof (cases item)
    case SectionEnd
    then show ?thesis
      using assms(1) grow [OF finish_section_progress] by (auto simp: ini_step_def split: prod.splits)
  next
    case (Property key raw)
    then show ?thesis
      using assms grow [OF match_property_progress [of current key raw ps _ _ items nl]]
      by (auto simp: ini_step_def split: prod.splits)
  qed (use assms(1) progress_all_refl in \<open>auto simp: ini_step_def\<close>)
qed

lemma ini_run_progress:
  assumes "foldl (ini_step nl) (out, current, ps) todo = (out', current', ps')" "set todo \<subseteq> set items"
  shows "sublist out out' \<and> list_all2 (progress nl items out') ps ps'"
  using assms
proof (induction todo arbitrary: out current ps)
  case Nil
  then show ?case
    by (simp add: progress_all_refl)
next
  case (Cons item todo)
  obtain o1 c1 p1 where step: "ini_step nl (out, current, ps) item = (o1, c1, p1)"
    by (cases "ini_step nl (out, current, ps) item") auto
  have one: "sublist out o1" "list_all2 (progress nl items o1) ps p1"
    using ini_step_progress [OF step] Cons.prems(2) by auto
  have rest: "sublist o1 out'" "list_all2 (progress nl items out') p1 ps'"
    using Cons.IH [of o1 c1 p1] Cons.prems step by auto
  have "list_all2 (progress nl items out') ps ps'"
    using list_all2_trans [OF _ one(2) rest(2)] progress_trans [OF _ _ rest(1)] by blast
  then show ?case
    using one(1) rest(1) sublist_order.order_trans by blast
qed

lemma new_sections_keep: "sublist out (foldl (new_section nl ps) out sects)"
proof (induction sects arbitrary: out)
  case (Cons sect sects)
  have "sublist out (new_section nl ps out sect)"
    by (simp add: new_section_def)
  then show ?case
    using sublist_order.order_trans [OF _ Cons.IH [of "new_section nl ps out sect"]] by simp
qed simp

lemma new_section_writes:
  assumes "p \<in> set ps" "\<not> pe_applied p" "pe_insert_new p" "pe_section p = Some sect"
  shows "setting_written nl items (new_section nl ps out sect) p"
proof -
  let ?due = "filter (\<lambda>p. \<not> pe_applied p \<and> pe_insert_new p \<and> pe_section p = Some sect) ps"
  obtain qs rs where due: "?due = qs @ p # rs"
    using assms by (metis (mono_tags, lifting) mem_Collect_eq set_filter split_list)
  have "sublist (setting_line nl p) (concat (map (setting_line nl) ?due))"
    unfolding due by simp
  then have "sublist (setting_line nl p) (new_section nl ps out sect)"
    using sublist_extend [of _ _ "out @ (if out = [] then [] else nl) @ [91] @ sect @ [93] @ nl" "[]"]
    unfolding new_section_def by simp
  then show ?thesis
    unfolding setting_written_def setting_line_def
    by (intro exI [of _ "pe_key p @ [equals_sign] @ pe_value p"]) simp
qed

lemma new_sections_write:
  assumes "p \<in> set ps" "\<not> pe_applied p" "pe_insert_new p" "pe_section p = Some sect" "sect \<in> set sects"
  shows "setting_written nl items (foldl (new_section nl ps) out sects) p"
  using assms(5)
proof (induction sects arbitrary: out)
  case (Cons s sects)
  show ?case
  proof (cases "s = sect")
    case True
    then show ?thesis
      using setting_written_mono [OF new_section_writes [OF assms(1-4)] new_sections_keep subset_refl] by simp
  next
    case False
    then show ?thesis
      using Cons by simp
  qed
qed simp

lemma seen_sections_complete:
  "sect \<in> set seen \<or> (\<exists>p \<in> set ps. \<not> pe_applied p \<and> pe_insert_new p \<and> pe_section p = Some sect) \<Longrightarrow>
   sect \<in> set (seen_sections seen ps)"
  by (induction ps arbitrary: seen) (auto split: option.split)

lemma finish_section_applies:
  "finish_section nl current ps = (new, ps') \<Longrightarrow> p \<in> set ps' \<Longrightarrow> pe_section p = current \<Longrightarrow> pe_insert_new p \<Longrightarrow> pe_applied p"
proof (induction ps arbitrary: new ps')
  case (Cons q ps)
  obtain out qs where fin: "finish_section nl current ps = (out, qs)"
    by (cases "finish_section nl current ps")
  show ?case
    using Cons.prems Cons.IH [OF fin] by (simp add: fin split: if_splits) auto
qed simp

lemma progress_fields:
  "progress nl items out p p' \<Longrightarrow> pe_section p' = pe_section p \<and> pe_insert_new p' = pe_insert_new p \<and> (pe_applied p \<longrightarrow> pe_applied p')"
  by (auto simp: progress_def)

lemma current_stays:
  "(\<forall>item \<in> set todo. \<forall>name raw. item \<noteq> Section name raw) \<Longrightarrow> fst (snd (foldl (ini_step nl) (out, current, ps) todo)) = current"
proof (induction todo arbitrary: out ps)
  case (Cons item todo)
  obtain o1 p1 where "ini_step nl (out, current, ps) item = (o1, current, p1)"
    using Cons.prems
    by (cases item; cases "finish_section nl current ps"; cases "match_property current (property_key item) (property_raw item) ps")
      (auto simp: ini_step_def)
  then show ?case
    using Cons by simp
qed simp

lemma top_level_applied:
  assumes "foldl (ini_step nl) (out, None, ps) (pre @ SectionEnd # post) = (out', current', ps')"
    "\<forall>item \<in> set pre. \<forall>name raw. item \<noteq> Section name raw" "p \<in> set ps'" "pe_section p = None" "pe_insert_new p"
  shows "pe_applied p"
proof -
  obtain o1 p1 where pre: "foldl (ini_step nl) (out, None, ps) pre = (o1, None, p1)"
    using current_stays [OF assms(2), of nl out None ps] by (metis fst_conv prod.collapse snd_conv)
  obtain new p2 where fin: "finish_section nl None p1 = (new, p2)"
    by (cases "finish_section nl None p1")
  have "foldl (ini_step nl) (o1 @ new, None, p2) post = (out', current', ps')"
    using assms(1) by (simp add: pre ini_step_def fin)
  then have "list_all2 (progress nl post out') p2 ps'"
    using ini_run_progress by blast
  then obtain q where "q \<in> set p2" "progress nl post out' q p"
    using assms(3) by (metis list_all2_conv_all_nth in_set_conv_nth)
  then show ?thesis
    using finish_section_applies [OF fin, of q] progress_fields [of nl post out' q p] assms(4,5) by auto
qed

text \<open>
  Every setting that may be inserted is in the file written, as a line of its own or over a property of its name,
  once the reader reports the end of the lines before the first section.
\<close>

lemma ini_settings_written:
  assumes "pending_of va rs = Inr ps" "p \<in> set ps" "pe_insert_new p" "\<not> pe_applied p"
    "items content = pre @ SectionEnd # post" "\<forall>item \<in> set pre. \<forall>name raw. item \<noteq> Section name raw"
  shows "\<exists>out. process_ini items va rs content = Inr out \<and> setting_written (ini_newline content) (items content) out p"
proof -
  let ?nl = "ini_newline content"
  obtain out current ps' where run: "foldl (ini_step ?nl) ([], None, ps) (items content) = (out, current, ps')"
    by (cases "foldl (ini_step ?nl) ([], None, ps) (items content)") auto
  let ?out = "foldl (new_section ?nl ps') out (seen_sections [] ps')"
  have all: "list_all2 (progress ?nl (items content) out) ps ps'"
    using ini_run_progress [OF run subset_refl] by blast
  then obtain p' where p': "p' \<in> set ps'" "progress ?nl (items content) out p p'"
    using assms(2) by (metis list_all2_conv_all_nth in_set_conv_nth)
  have "setting_written ?nl (items content) ?out p"
  proof (cases "pe_applied p'")
    case True
    then have "setting_written ?nl (items content) out p"
      using p'(2) assms(4) by (auto simp: progress_def)
    then show ?thesis
      by (rule setting_written_mono [OF _ new_sections_keep subset_refl])
  next
    case False
    then have "p' = p"
      using p'(2) by (auto simp: progress_def)
    moreover obtain sect where "pe_section p = Some sect"
      using top_level_applied [OF run [unfolded assms(5)] assms(6) p'(1)] False assms(3) \<open>p' = p\<close> by (cases "pe_section p") auto
    ultimately show ?thesis
      using new_sections_write [of p ps' sect] seen_sections_complete [of sect "[]" ps'] p'(1) False assms(3) by auto
  qed
  then show ?thesis
    using assms(1) run by (simp add: process_ini_def Let_def)
qed

end
