(* ===== verification/Spec2Isabelle.thy ===== *)
theory Spec2Isabelle
  imports DiskUsage CapPath Accounting DiskChecker SshLimiter ServerState Datablob Catalog ChunkReader HttpRange PbsTree CollabSafety Lines FileHistorySafety ScheduleLaws Activities ConfigFiles
begin

text \<open>
  A verification library for the Wings daemon (\<^verbatim>\<open>application/\<close>) and its client for Proxmox Backup Servers
  (\<^verbatim>\<open>pbs-client/\<close>). The daemon runs game servers: it keeps the disk usage of each server within a limit,
  serves and edits its files, keeps their history, fills in its configuration files, guards its SSH service,
  runs schedules, moves servers between states and backs them up.

  \<^bold>\<open>Conventions.\<close> A definition carries the name of the Rust item it translates, with a prefix or suffix
  where the name is taken. Structures are records, enumerations datatypes, methods functions from the
  old to the new state. Integers of 64 bits are natural numbers with the Rust operation written out
  (\<^const>\<open>wrapping_add\<close>, \<^const>\<open>saturating_add\<close>, \<^const>\<open>checked_sub\<close>, \<^const>\<open>as_i64\<close>); plain \<open>+\<close> on unsigned
  integers of the source is \<^const>\<open>wrapping_add\<close> where its bound is not evident, as in a release build.
  Fallible code returns a sum with the error on the left, chained by \<^const>\<open>and_then\<close>. System calls, the
  network and third-party packages (compression, digests, hash functions, MIME detection) are
  parameters; a theorem that needs a law about them has it as a hypothesis. An asynchronous function is
  modelled as the sequence of its effects; where tasks interleave, the atomic steps are an inductive
  relation and the theorem is about all reachable states.

  \<^bold>\<open>Shared theories.\<close>
  \<^item> \<^verbatim>\<open>Prelude\<close>: integer operations, three-way comparison, binary search of the standard library with its
    specification, the collections of simplification rules.
  \<^item> \<^verbatim>\<open>RustPath\<close>: paths, components and UTF-8. \<^verbatim>\<open>SortedVec\<close>: vectors sorted by name as maps.
  \<^item> \<^verbatim>\<open>Bytes\<close>: byte strings, slices, little-endian and decimal numbers, the error monad.
  \<^item> \<^verbatim>\<open>Readers\<close>: the contract of \<^verbatim>\<open>std::io::Read\<close> as the locale \<^verbatim>\<open>reader\<close>, the loops over a reader, and the
    adapters of \<^verbatim>\<open>application/src/io\<close>, each interpreted as a reader again.

  \<^bold>\<open>Disk usage\<close> (\<^verbatim>\<open>server/filesystem\<close>).
  \<^item> \<^verbatim>\<open>DiskUsage\<close> models \<^verbatim>\<open>usage.rs\<close>: the tree of directory sizes and every operation on it. The lemmas
    give the lookup after each operation, the preservation of sortedness and of aggregation (no directory
    is smaller than its parts), and the agreement of the two forms of paths.
  \<^item> \<^verbatim>\<open>CapPath\<close> models the normalisation every sandboxed operation applies (\<^verbatim>\<open>cap/mod.rs\<close>) and
    \<^verbatim>\<open>deduplicate_paths\<close> (\<^verbatim>\<open>utils.rs\<close>); \<^verbatim>\<open>WalkDir\<close> the directory walker (\<^verbatim>\<open>cap/utils.rs\<close>).
  \<^item> \<^verbatim>\<open>Accounting\<close> models the cached totals, the limit and the allocate, delete and rename operations of
    \<^verbatim>\<open>mod.rs\<close>: sequentially they keep the totals equal to the root of the tree, and concurrent allocations,
    as interleavings of their atomic steps, never exceed the limit.
  \<^item> \<^verbatim>\<open>DiskChecker\<close> models \<^verbatim>\<open>disk_checker.rs\<close> and \<^verbatim>\<open>inotify.rs\<close>: full and selective scans, the change
    notifier and the periodic loop.

  \<^bold>\<open>Sessions and states.\<close>
  \<^item> \<^verbatim>\<open>SshLimiter\<close> models \<^verbatim>\<open>ssh/limiter.rs\<close>: attempts, sessions and handles stay within their limits, for
    handles under every interleaving of the atomic counters.
  \<^item> \<^verbatim>\<open>ServerState\<close> models \<^verbatim>\<open>server/state.rs\<close>: actions exclude each other under every schedule, and every action
    returns in a fair run.
  \<^item> \<^verbatim>\<open>Lines\<close> models the splitting of a container's output into lines and the two ways to read the tail of a log:
    the lines do not depend on how the output was read, and the two ways agree.
  \<^item> \<^verbatim>\<open>Activities\<close> models \<^verbatim>\<open>server/activity.rs\<close>: the bounded queue of activities, their merging and their sending
    in portions; no file of an accepted activity is lost or reported twice.

  \<^bold>\<open>Editing.\<close>
  \<^item> \<^verbatim>\<open>Collab\<close>, \<^verbatim>\<open>CollabLaws\<close>, \<^verbatim>\<open>CollabSafety\<close> model collaborative editing (\<^verbatim>\<open>server/collab\<close>): documents, sessions,
    chunked updates, the saving of dirty documents and the ticks that compare them with the disk, as steps of a
    state machine. The invariants say that unsaved text survives, that a save never overwrites content it has
    not seen, and that subscriptions match sessions; one lemma shows the rebuild after which edits are lost.
  \<^item> \<^verbatim>\<open>FileHistory\<close>, \<^verbatim>\<open>FileHistoryLaws\<close>, \<^verbatim>\<open>FileHistorySafety\<close> model the history of edited files (\<^verbatim>\<open>server/diff\<close>): chains of
    full copies and differences, pruning, budgets, renames and delayed deletion. Every listed revision can be
    read, a recorded edit reads back, and the retention limits hold.

  \<^bold>\<open>Automation.\<close>
  \<^item> \<^verbatim>\<open>Schedule\<close>, \<^verbatim>\<open>ScheduleLaws\<close> model \<^verbatim>\<open>server/schedule\<close>: conditions, variables and templates, the flat list of actions with
    its block markers, validation, the executor and the triggers. Validation accepts exactly the well-nested
    lists, and on them the executor runs the nested program they stand for.
  \<^item> \<^verbatim>\<open>Placeholders\<close>, \<^verbatim>\<open>Properties\<close>, \<^verbatim>\<open>JsonFile\<close>, \<^verbatim>\<open>ConfigFiles\<close> model the configuration files of a server
    (\<^verbatim>\<open>server/configuration/process\<close>): variables and placeholders, the parsers for properties, JSON, YAML, INI and
    plain files, and the rewriting of all files before a start. Each parser is interpreted as \<^verbatim>\<open>config_parser\<close>, the
    contract that it sees the daemon through placeholders only; with what placeholders can reach, no secret of the
    daemon gets into a file. Properties files settle after one pass, and a nested value reads back as written.

  \<^bold>\<open>Backups.\<close>
  \<^item> \<^verbatim>\<open>Datablob\<close>, \<^verbatim>\<open>Catalog\<close>: the blob envelope and the catalogue of \<^verbatim>\<open>pbs-client\<close>, with round trips.
  \<^item> \<^verbatim>\<open>PxarFormat\<close>, \<^verbatim>\<open>PxarEncoder\<close>, \<^verbatim>\<open>PxarDecoder\<close>, \<^verbatim>\<open>PxarAccessor\<close>: the archive format (\<^verbatim>\<open>pbs-client/src/pxar\<close>),
    byte for byte: the implicit search tree of a directory, writing, sequential reading, and lookup by
    random access against the locale \<^verbatim>\<open>random_access\<close>.
  \<^item> \<^verbatim>\<open>ChunkStore\<close> models the upload (\<^verbatim>\<open>writer.rs\<close>) and the index (\<^verbatim>\<open>reader.rs\<close>); \<^verbatim>\<open>ChunkReader\<close> models
    \<^verbatim>\<open>accessor.rs\<close>: the chunk cache, which refines the list of the most recent uses, the input over chunks,
    interpreted as \<^verbatim>\<open>random_access\<close>, and the file reader, a \<^verbatim>\<open>reader\<close>. Together they give the end-to-end
    theorem that an uploaded archive can be read back.
  \<^item> \<^verbatim>\<open>HttpRange\<close> models byte ranges (\<^verbatim>\<open>virtualfs/mod.rs\<close>); \<^verbatim>\<open>PbsTree\<close> models browsing a snapshot
    (\<^verbatim>\<open>backup/adapters/pbs.rs\<close>): the tree built from the catalogue, lookups, listings by page and
    downloads by range.

  \<^bold>\<open>Fuel and bounds.\<close> Loops over data recurse on the data or have a termination proof. \<^const>\<open>copy\<close> and the
  directory walk take fuel, since a reader or a file system may never end; the theorems give an amount
  that suffices (one more than the bytes to copy, the number of entries of the tree). Sizes are assumed
  to fit 64 bits where the formats store them in 64 bits.

  \<^bold>\<open>What the code does not do.\<close> Some lemmas record behaviour that departs from what the code means to do: the
  drift after a rename over an existing file, the state restored after a failed action, edits lost to a rebuild or
  to a delayed deletion, triggers that outlive their schedule, activities that wait for more traffic, and
  configuration files that are overwritten because they could not be read.

  \<^bold>\<open>Not modelled.\<close> HTTP routes, the protocols of web sockets, SFTP, transfers and tunnels, the command line and
  the daemon's own configuration translate requests and settings; the Docker executor, quota tools, TLS and HTTP/2
  transports and the adapters for other backup tools drive external programs; archive formats other than pxar,
  and XML and TOML files, are read by packages. The asynchronous twins of the decoder, the walker and the stream
  adapters repeat the synchronous code around await points.
\<close>

end
